(* ===== verification/Prelude.thy ===== *)
theory Prelude
  imports "HOL-Library.Word" "HOL-Library.Char_ord" "HOL-Library.List_Lexorder"
begin

text \<open>
  Shared ground of the development: the C++ exceptions that the program can raise and the
  result type of fallible code, decimal text (\<open>std::to_string\<close>), insertion into lists kept
  in ascending order, and the lemma collections the component theories extend.
\<close>

section \<open>Lemma collections\<close>

named_theorems res_simps \<open>unfolding rules for fallible computations\<close>
named_theorems inv_intros \<open>preservation lemmas of the component invariants\<close>
named_theorems frame_simps \<open>what an operation leaves unchanged\<close>

section \<open>Exceptions and results\<close>

text \<open>
  \<open>Json_error n\<close> is nlohmann's exception with id \<open>n\<close> (101 syntax, 302/304/305/316 type,
  403 missing key). \<open>Runtime_error\<close> is \<open>std::runtime_error\<close>, \<open>Std_exception\<close> a bare
  \<open>std::exception\<close>, \<open>Bad_any_cast\<close> the exception
  of \<open>std::any_cast\<close>, \<open>System_error\<close> a \<open>std::system_error\<close>, \<open>Assertion_failed\<close> an \<open>assert\<close> that aborts and \<open>Undefined_behaviour\<close>
  a use of a dangling pointer or an out-of-range conversion.
\<close>

datatype exn =
    Json_error nat
  | Runtime_error string
  | Std_exception
  | Bad_any_cast
  | System_error
  | Assertion_failed
  | Undefined_behaviour

type_synonym 'a res = "exn + 'a"

abbreviation throw :: "exn \<Rightarrow> 'a res" where
  "throw e \<equiv> Inl e"

abbreviation ret :: "'a \<Rightarrow> 'a res" where
  "ret x \<equiv> Inr x"

text \<open>Sequencing: the first exception ends the computation.\<close>

fun bind_res :: "'a res \<Rightarrow> ('a \<Rightarrow> 'b res) \<Rightarrow> 'b res" where
  "bind_res (Inl e) k = Inl e"
| "bind_res (Inr x) k = k x"

lemma bind_res_Inr_iff [res_simps]:
  "bind_res m k = Inr y \<longleftrightarrow> (\<exists>x. m = Inr x \<and> k x = Inr y)"
  by (cases m) auto

lemma bind_res_Inl_iff [res_simps]:
  "bind_res m k = Inl e \<longleftrightarrow> m = Inl e \<or> (\<exists>x. m = Inr x \<and> k x = Inl e)"
  by (cases m) auto

lemma bind_res_assoc: "bind_res (bind_res m k) l = bind_res m (\<lambda>x. bind_res (k x) l)"
  by (cases m) auto

section \<open>Decimal text\<close>

text \<open>The digits of a number, most significant first, and \<open>std::to_string\<close> of an \<open>int\<close>.\<close>

definition digit_char :: "nat \<Rightarrow> char" where
  "digit_char d = char_of (48 + d)"

function nat_digits :: "nat \<Rightarrow> string" where
  "nat_digits n =
     (if n < 10 then [digit_char n] else nat_digits (n div 10) @ [digit_char (n mod 10)])"
  by pat_completeness auto
termination
  by (relation "measure id") auto

declare nat_digits.simps [simp del]

definition to_string :: "int \<Rightarrow> string" where
  "to_string i = (if i < 0 then CHR ''-'' # nat_digits (nat (- i)) else nat_digits (nat i))"

text \<open>The value of a digit string; it inverts \<open>nat_digits\<close>.\<close>

definition digit_value :: "char \<Rightarrow> nat" where
  "digit_value c = of_char c - 48"

definition digits_value :: "string \<Rightarrow> nat" where
  "digits_value s = foldl (\<lambda>acc c. 10 * acc + digit_value c) 0 s"

definition is_digit :: "char \<Rightarrow> bool" where
  "is_digit c \<longleftrightarrow> CHR ''0'' \<le> c \<and> c \<le> CHR ''9''"

lemma of_char_digit_char [simp]: "d < 10 \<Longrightarrow> (of_char (digit_char d) :: nat) = 48 + d"
  by (simp add: digit_char_def)

lemma digit_value_digit_char [simp]: "d < 10 \<Longrightarrow> digit_value (digit_char d) = d"
  by (simp add: digit_value_def)

lemma is_digit_digit_char [simp]: "d < 10 \<Longrightarrow> is_digit (digit_char d)"
  by (simp add: is_digit_def less_eq_char_def)

lemma digits_value_append [simp]:
  "digits_value (s @ [c]) = 10 * digits_value s + digit_value c"
  by (simp add: digits_value_def)

lemma digits_value_nat_digits [simp]: "digits_value (nat_digits n) = n"
proof (induction n rule: nat_digits.induct)
  case (1 n)
  show ?case
  proof (cases "n < 10")
    case True
    then show ?thesis by (subst nat_digits.simps) (simp add: digits_value_def)
  next
    case False
    with "1.IH" show ?thesis by (subst nat_digits.simps) simp
  qed
qed

lemma nat_digits_0: "nat_digits 0 = ''0''"
  by (subst nat_digits.simps) (simp add: digit_char_def, code_simp)

lemma nat_digits_inject [simp]: "nat_digits m = nat_digits n \<longleftrightarrow> m = n"
  by (metis digits_value_nat_digits)

lemma nat_digits_is_digit: "c \<in> set (nat_digits n) \<Longrightarrow> is_digit c"
proof (induction n rule: nat_digits.induct)
  case (1 n)
  show ?case
  proof (cases "n < 10")
    case True
    with "1.prems" show ?thesis by (subst (asm) nat_digits.simps) simp
  next
    case False
    with "1.prems" have "c \<in> set (nat_digits (n div 10)) \<or> c = digit_char (n mod 10)"
      by (subst (asm) nat_digits.simps) auto
    with False "1.IH" show ?thesis by auto
  qed
qed

lemma nat_digits_not_Nil [simp]: "nat_digits n \<noteq> []"
  by (subst nat_digits.simps) simp

lemma to_string_inject_nat: "0 \<le> i \<Longrightarrow> 0 \<le> j \<Longrightarrow> to_string i = to_string j \<longleftrightarrow> i = j"
  by (simp add: to_string_def eq_nat_nat_iff)

lemma to_string_nonneg_digits: "0 \<le> i \<Longrightarrow> c \<in> set (to_string i) \<Longrightarrow> is_digit c"
  by (auto simp: to_string_def intro: nat_digits_is_digit)

lemma to_string_neq_word:
  assumes "0 \<le> i" and "\<not> is_digit c" and "c \<in> set s"
  shows "to_string i \<noteq> s"
  using assms to_string_nonneg_digits by blast

section \<open>Strings\<close>

text \<open>\<open>std::string::resize\<close>.\<close>

definition resize :: "nat \<Rightarrow> string \<Rightarrow> string" where
  "resize n s = take n s @ replicate (n - length s) (CHR 0x00)"

lemma resize_prefix [simp]: "resize (length s) (s @ t) = s"
  by (simp add: resize_def)

section \<open>Reachable states and invariants\<close>

inductive reach :: "('c \<Rightarrow> bool) \<Rightarrow> ('c \<Rightarrow> 'c \<Rightarrow> bool) \<Rightarrow> 'c \<Rightarrow> bool"
  for init :: "'c \<Rightarrow> bool" and step :: "'c \<Rightarrow> 'c \<Rightarrow> bool" where
  reach_init: "init s \<Longrightarrow> reach init step s"
| reach_step: "reach init step s \<Longrightarrow> step s t \<Longrightarrow> reach init step t"

locale invariant_system =
  fixes init :: "'c \<Rightarrow> bool" and step :: "'c \<Rightarrow> 'c \<Rightarrow> bool" and inv :: "'c \<Rightarrow> bool"
  assumes inv_init: "init s \<Longrightarrow> inv s"
    and inv_step: "inv s \<Longrightarrow> step s t \<Longrightarrow> inv t"
begin

lemma reach_inv: "reach init step s \<Longrightarrow> inv s"
  by (induction rule: reach.induct) (auto intro: inv_init inv_step)

end

text \<open>
  A refinement: in every state that the invariant allows, a step is a sequence of steps of an
  abstract machine on the states as they are read. Then what is reached is reached there.
\<close>

locale refinement_mapping = invariant_system +
  fixes ainit :: "'a \<Rightarrow> bool" and astep :: "'a \<Rightarrow> 'a \<Rightarrow> bool" and read :: "'c \<Rightarrow> 'a"
  assumes read_init: "init s \<Longrightarrow> ainit (read s)"
    and read_step: "inv s \<Longrightarrow> step s t \<Longrightarrow> astep\<^sup>*\<^sup>* (read s) (read t)"
begin

lemma reach_steps: "astep\<^sup>*\<^sup>* a b \<Longrightarrow> reach ainit astep a \<Longrightarrow> reach ainit astep b"
  by (induction rule: rtranclp_induct) (auto intro: reach_step)

lemma reach_read: "reach init step s \<Longrightarrow> reach ainit astep (read s)"
proof (induction rule: reach.induct)
  case (reach_init s)
  then show ?case by (intro reach.reach_init read_init)
next
  case (reach_step s t)
  from read_step [OF reach_inv [OF reach_step.hyps(1)] reach_step.hyps(2)] reach_step.IH
  show ?case by (rule reach_steps)
qed

end

end
