(* ===== verification/Rpc_Types.thy ===== *)
theory Rpc_Types
  imports Prelude
begin

text \<open>
  The types of \<open>src/include/rpc/rpc.h\<close>: transaction and procedure numbers, error codes and
  their names, the two packet headers and the protocol constants.
\<close>

section \<open>Numbers\<close>

type_synonym xid_t = "64 word"    \<comment> \<open>\<open>using xid_t = size_t\<close>\<close>
type_synonym proc_t = "64 word"   \<comment> \<open>\<open>using proc_t = size_t\<close>\<close>
type_synonym nonce_t = "32 word"  \<comment> \<open>\<open>uint32_t\<close>\<close>

definition BIND :: proc_t where
  "BIND = 1000"

definition DEFAULT_RPC_SZ :: nat where
  "DEFAULT_RPC_SZ = 1024"

record TimeOut =
  ms :: int

definition kToMax :: TimeOut where
  "kToMax = \<lparr>ms = 12000\<rparr>"

definition kToMin :: TimeOut where
  "kToMin = \<lparr>ms = 1000\<rparr>"

section \<open>Error codes\<close>

text \<open>
  \<open>enum class Err : uint8_t\<close>. An enumeration with a fixed underlying type can hold every value
  of that type, and a header read from the wire is a \<open>static_cast\<close> from a byte, so the values
  without an enumerator are values of the type too.
\<close>

datatype Err =
    RESERVED
  | OK
  | UNMARSHALL_REPLY_FAILURE
  | UNMARSHALL_ARGS_FAILURE
  | BIND_FAILURE
  | ATMOST_ONCE_FAILURE
  | TIMEOUT_FAILURE
  | OLDSERVER_FAILURE
  | SEND_FAILURE
  | RECEIVE_FAILURE
  | CONNECTION_CLOSED
  | ACCEPT_FAILURE
  | CONNECT_FAILURE
  | CANCEL
  | TIMER_FAILURE
  | BROKEN_PIPE
  | CONNECTION_RESET
  | CONNECTION_ABORTED
  | UNNAMED "8 word"

definition named_errs :: "Err list" where
  "named_errs =
     [RESERVED, OK, UNMARSHALL_REPLY_FAILURE, UNMARSHALL_ARGS_FAILURE, BIND_FAILURE,
      ATMOST_ONCE_FAILURE, TIMEOUT_FAILURE, OLDSERVER_FAILURE, SEND_FAILURE, RECEIVE_FAILURE,
      CONNECTION_CLOSED, ACCEPT_FAILURE, CONNECT_FAILURE, CANCEL, TIMER_FAILURE, BROKEN_PIPE,
      CONNECTION_RESET, CONNECTION_ABORTED]"

text \<open>\<open>static_cast\<close> between the enumeration and its underlying byte.\<close>

fun Err_to_byte :: "Err \<Rightarrow> 8 word" where
  "Err_to_byte RESERVED = 0"
| "Err_to_byte OK = 1"
| "Err_to_byte UNMARSHALL_REPLY_FAILURE = 2"
| "Err_to_byte UNMARSHALL_ARGS_FAILURE = 3"
| "Err_to_byte BIND_FAILURE = 4"
| "Err_to_byte ATMOST_ONCE_FAILURE = 5"
| "Err_to_byte TIMEOUT_FAILURE = 6"
| "Err_to_byte OLDSERVER_FAILURE = 7"
| "Err_to_byte SEND_FAILURE = 8"
| "Err_to_byte RECEIVE_FAILURE = 9"
| "Err_to_byte CONNECTION_CLOSED = 10"
| "Err_to_byte ACCEPT_FAILURE = 11"
| "Err_to_byte CONNECT_FAILURE = 12"
| "Err_to_byte CANCEL = 13"
| "Err_to_byte TIMER_FAILURE = 14"
| "Err_to_byte BROKEN_PIPE = 15"
| "Err_to_byte CONNECTION_RESET = 16"
| "Err_to_byte CONNECTION_ABORTED = 17"
| "Err_to_byte (UNNAMED w) = w"

definition Err_of_byte :: "8 word \<Rightarrow> Err" where
  "Err_of_byte w = (if unat w < length named_errs then named_errs ! unat w else UNNAMED w)"

text \<open>The representable values: \<open>UNNAMED\<close> only for bytes without an enumerator.\<close>

fun wf_Err :: "Err \<Rightarrow> bool" where
  "wf_Err (UNNAMED w) \<longleftrightarrow> 18 \<le> w"
| "wf_Err _ \<longleftrightarrow> True"

text \<open>\<open>ToString\<close>, case by case as written (the \<open>SEND_FAILURE\<close> case included).\<close>

fun ToString :: "Err \<Rightarrow> string" where
  "ToString RESERVED = ''RESERVED''"
| "ToString OK = ''OK''"
| "ToString UNMARSHALL_REPLY_FAILURE = ''UNMARSHALL_REPLY_FAILURE''"
| "ToString BIND_FAILURE = ''BIND_FAILURE''"
| "ToString ATMOST_ONCE_FAILURE = ''ATMOST_ONCE_FAILURE''"
| "ToString TIMEOUT_FAILURE = ''TIMEOUT_FAILURE''"
| "ToString SEND_FAILURE = ''TIMEOUT_FAILURE''"
| "ToString RECEIVE_FAILURE = ''RECEIVE_FAILURE''"
| "ToString CONNECTION_CLOSED = ''CONNECTION_CLOSED''"
| "ToString ACCEPT_FAILURE = ''ACCEPT_FAILURE''"
| "ToString UNMARSHALL_ARGS_FAILURE = ''UNMARSHALL_ARGS_FAILURE''"
| "ToString OLDSERVER_FAILURE = ''OLDSERVER_FAILURE''"
| "ToString CONNECT_FAILURE = ''CONNECT_FAILURE''"
| "ToString CANCEL = ''CANCEL''"
| "ToString TIMER_FAILURE = ''TIMER_FAILURE''"
| "ToString BROKEN_PIPE = ''BROKEN_PIPE''"
| "ToString CONNECTION_RESET = ''CONNECTION_RESET''"
| "ToString CONNECTION_ABORTED = ''CONNECTION_ABORTED''"
| "ToString (UNNAMED w) = ''''"

section \<open>Headers\<close>

record RequestHeader =
  req_xid :: xid_t
  req_proc :: proc_t
  req_clt_nonce :: nonce_t
  req_srv_nonce :: nonce_t
  req_xid_rep :: xid_t

record ReplyHeader =
  rep_xid :: xid_t
  rep_err :: Err

text \<open>Default arguments of the constructors.\<close>

definition RequestHeader_default :: RequestHeader where
  "RequestHeader_default =
     \<lparr>req_xid = 0, req_proc = 0, req_clt_nonce = 0, req_srv_nonce = 0, req_xid_rep = 0\<rparr>"

definition ReplyHeader_default :: ReplyHeader where
  "ReplyHeader_default = \<lparr>rep_xid = 0, rep_err = OK\<rparr>"

definition ReplyHeader_eq :: "ReplyHeader \<Rightarrow> ReplyHeader \<Rightarrow> bool" where
  "ReplyHeader_eq l r \<longleftrightarrow> rep_xid l = rep_xid r \<and> rep_err l = rep_err r"

section \<open>Lemmas\<close>

lemma Err_of_byte_to_byte [simp]: "wf_Err e \<Longrightarrow> Err_of_byte (Err_to_byte e) = e"
  by (cases e) (simp_all add: Err_of_byte_def named_errs_def word_le_nat_alt)

lemma length_named_errs [simp]: "length named_errs = 18"
  by (simp add: named_errs_def)

lemma named_errs_bytes: "map Err_to_byte named_errs = map of_nat [0..<18]"
  by (simp add: named_errs_def upt_rec)

lemma Err_to_byte_nth: "n < 18 \<Longrightarrow> Err_to_byte (named_errs ! n) = of_nat n"
  using arg_cong [OF named_errs_bytes, of "\<lambda>xs. xs ! n"] by simp

lemma wf_named_errs: "e \<in> set named_errs \<Longrightarrow> wf_Err e"
  by (auto simp: named_errs_def)

lemma Err_to_byte_of_byte [simp]: "Err_to_byte (Err_of_byte w) = w"
  by (simp add: Err_of_byte_def Err_to_byte_nth)

lemma wf_Err_of_byte [simp]: "wf_Err (Err_of_byte w)"
  by (simp add: Err_of_byte_def wf_named_errs word_le_nat_alt)

lemma ReplyHeader_eq_iff: "ReplyHeader_eq l r \<longleftrightarrow> l = r"
  by (auto simp: ReplyHeader_eq_def intro: ReplyHeader.equality)

section \<open>Properties\<close>

text \<open>
  Error codes and bytes. \<open>static_cast\<close> from a byte to \<open>Err\<close> and back is the identity, for the
  bytes without an enumerator too, and every representable \<open>Err\<close> survives the way through its
  byte.
\<close>

theorem err_byte_round_trip:
  assumes "wf_Err e"
  shows "Err_of_byte (Err_to_byte e) = e \<and> Err_to_byte (Err_of_byte w) = w \<and> wf_Err (Err_of_byte w)"
  using assms by simp

theorem err_byte_round_trip_witness:
  "Err_of_byte (Err_to_byte BROKEN_PIPE) = BROKEN_PIPE \<and> Err_to_byte (Err_of_byte 200) = 200 \<and>
     wf_Err (Err_of_byte 200)"
  by (rule err_byte_round_trip [of BROKEN_PIPE 200]) simp

text \<open>
  Error names: two enumerators have the same name exactly when they are equal or are
  \<open>SEND_FAILURE\<close> and \<open>TIMEOUT_FAILURE\<close>: \<open>ToString\<close> reports a failed send as a timeout.
\<close>

theorem error_names:
  assumes "e \<in> set named_errs" and "e' \<in> set named_errs"
  shows "ToString e = ToString e' \<longleftrightarrow> e = e' \<or> {e, e'} = {SEND_FAILURE, TIMEOUT_FAILURE}"
proof -
  have "list_all (\<lambda>e. list_all (\<lambda>e'. ToString e = ToString e' \<longleftrightarrow>
      e = e' \<or> (e = SEND_FAILURE \<and> e' = TIMEOUT_FAILURE) \<or>
      (e = TIMEOUT_FAILURE \<and> e' = SEND_FAILURE)) named_errs) named_errs"
    by code_simp
  with assms show ?thesis by (auto simp: list_all_iff doubleton_eq_iff)
qed

theorem error_names_witness:
  "ToString SEND_FAILURE = ToString TIMEOUT_FAILURE"
  using error_names [of SEND_FAILURE TIMEOUT_FAILURE] by (simp add: named_errs_def)

end
