(* ===== verification/Utf8.thy ===== *)
theory Utf8
  imports Prelude
begin

text \<open>
  UTF-8 as nlohmann's lexer and serializer treat it: which bytes may follow a first byte, and the
  encoding of a code point (\<open>detail/input/lexer.hpp\<close>). The strings accepted byte by byte are the
  encodings of sequences of Unicode scalar values.
\<close>

text \<open>
  The bytes after the first one of a UTF-8 sequence, each with its range, and the byte strings
  that fit.
\<close>

definition utf8_ranges :: "nat \<Rightarrow> (nat \<times> nat) list option" where
  "utf8_ranges b =
     (if b < 128 then Some []
      else if 0xC2 \<le> b \<and> b \<le> 0xDF then Some [(0x80, 0xBF)]
      else if b = 0xE0 then Some [(0xA0, 0xBF), (0x80, 0xBF)]
      else if (0xE1 \<le> b \<and> b \<le> 0xEC) \<or> b = 0xEE \<or> b = 0xEF then Some [(0x80, 0xBF), (0x80, 0xBF)]
      else if b = 0xED then Some [(0x80, 0x9F), (0x80, 0xBF)]
      else if b = 0xF0 then Some [(0x90, 0xBF), (0x80, 0xBF), (0x80, 0xBF)]
      else if 0xF1 \<le> b \<and> b \<le> 0xF3 then Some [(0x80, 0xBF), (0x80, 0xBF), (0x80, 0xBF)]
      else if b = 0xF4 then Some [(0x80, 0x8F), (0x80, 0xBF), (0x80, 0xBF)]
      else None)"

fun next_byte_in_range :: "(nat \<times> nat) list \<Rightarrow> string \<Rightarrow> (string \<times> string) option" where
  "next_byte_in_range [] s = Some ([], s)"
| "next_byte_in_range ((lo, hi) # rs) [] = None"
| "next_byte_in_range ((lo, hi) # rs) (c # s) =
     (if lo \<le> of_char c \<and> of_char c \<le> hi
      then map_option (apfst (Cons c)) (next_byte_in_range rs s) else None)"

lemma next_byte_in_range_length:
  "next_byte_in_range rs s = Some (t, s') \<Longrightarrow> length s' \<le> length s"
  by (induction rs s arbitrary: t rule: next_byte_in_range.induct)
     (auto split: if_splits intro: le_SucI)

lemma next_byte_in_range_append:
  "next_byte_in_range rs s = Some (t, s') \<Longrightarrow>
     s = t @ s' \<and> (\<forall>r. next_byte_in_range rs (t @ r) = Some (t, r))"
  by (induction rs s arbitrary: t rule: next_byte_in_range.induct)
     (auto split: if_splits simp: apfst_def map_prod_def)

definition utf8_encode :: "nat \<Rightarrow> string" where
  "utf8_encode n =
     map char_of
       (if n < 0x80 then [n]
        else if n \<le> 0x7FF then [0xC0 + n div 64, 0x80 + n mod 64]
        else if n \<le> 0xFFFF then [0xE0 + n div 4096, 0x80 + n div 64 mod 64, 0x80 + n mod 64]
        else [0xF0 + n div 262144, 0x80 + n div 4096 mod 64, 0x80 + n div 64 mod 64,
              0x80 + n mod 64])"

section \<open>Well-formed strings\<close>

function utf8 :: "string \<Rightarrow> bool" where
  "utf8 [] = True"
| "utf8 (c # s) =
     (case utf8_ranges (of_char c) of
        None \<Rightarrow> False
      | Some rs \<Rightarrow> (case next_byte_in_range rs s of None \<Rightarrow> False | Some (t, s') \<Rightarrow> utf8 s'))"
  by pat_completeness auto
termination
  by (relation "measure length") (auto dest: next_byte_in_range_length)

definition ascii :: "string \<Rightarrow> bool" where
  "ascii s \<longleftrightarrow> list_all (\<lambda>c. (of_char c :: nat) < 128) s"

lemma ascii_ranges [simp]: "(of_char c :: nat) < 128 \<Longrightarrow> utf8_ranges (of_char c) = Some []"
  by (simp add: utf8_ranges_def)

lemma utf8_Cons_ascii [simp]: "(of_char c :: nat) < 128 \<Longrightarrow> utf8 (c # s) = utf8 s"
  by simp

declare utf8.simps(2) [simp del]

lemma ascii_utf8: "ascii s \<Longrightarrow> utf8 s"
  by (induction s) (simp_all add: ascii_def)

text \<open>Unicode scalar values: code points that are no surrogates.\<close>

definition scalar :: "nat \<Rightarrow> bool" where
  "scalar n \<longleftrightarrow> n < 0xD800 \<or> (0xE000 \<le> n \<and> n < 0x110000)"

lemma of_char_char_of_byte [simp]: "n < 256 \<Longrightarrow> (of_char (char_of n :: char) :: nat) = n"
  by simp

text \<open>A first byte and the bytes after it that fit.\<close>

definition fits :: "nat \<Rightarrow> nat list \<Rightarrow> bool" where
  "fits b bs \<longleftrightarrow> (case utf8_ranges b of None \<Rightarrow> False
     | Some rs \<Rightarrow> list_all2 (\<lambda>(lo, hi) x. lo \<le> x \<and> x \<le> hi) rs bs)"

lemma fits_1: "b < 128 \<Longrightarrow> fits b []"
  by (simp add: fits_def utf8_ranges_def)

lemma fits_2: "2 \<le> a \<Longrightarrow> a < 32 \<Longrightarrow> b < 64 \<Longrightarrow> fits (0xC0 + a) [0x80 + b]"
  by (simp add: fits_def utf8_ranges_def)

lemma fits_3:
  assumes "a < 16" "b < 64" "c < 64" "a = 0 \<Longrightarrow> 32 \<le> b" "a = 13 \<Longrightarrow> b < 32"
  shows "fits (0xE0 + a) [0x80 + b, 0x80 + c]"
proof -
  consider "a = 0" | "a = 13" | "1 \<le> a" "a \<le> 12" | "a = 14" | "a = 15"
    using assms(1) by linarith
  then show ?thesis by cases (use assms in \<open>simp_all add: fits_def utf8_ranges_def\<close>)
qed

lemma fits_4:
  assumes "a < 5" "b < 64" "c < 64" "d < 64" "a = 0 \<Longrightarrow> 16 \<le> b" "a = 4 \<Longrightarrow> b < 16"
  shows "fits (0xF0 + a) [0x80 + b, 0x80 + c, 0x80 + d]"
proof -
  consider "a = 0" | "a = 4" | "1 \<le> a" "a \<le> 3"
    using assms(1) by linarith
  then show ?thesis by cases (use assms in \<open>simp_all add: fits_def utf8_ranges_def\<close>)
qed

lemma next_byte_bytes:
  "list_all2 (\<lambda>(lo, hi) x. lo \<le> x \<and> x \<le> hi) rs bs \<Longrightarrow> \<forall>b \<in> set bs. b < 256 \<Longrightarrow>
     next_byte_in_range rs (map char_of bs @ s) = Some (map char_of bs, s)"
  by (induction rs bs rule: list_all2_induct) (auto simp: apfst_def map_prod_def)

lemma utf8_ranges_256: "utf8_ranges b = Some rs \<Longrightarrow> b < 256 \<and> (\<forall>(lo, hi) \<in> set rs. hi < 256)"
  by (auto simp: utf8_ranges_def split: if_splits)

lemma fits_utf8:
  assumes "fits b bs"
  shows "utf8 (map char_of (b # bs) @ s) = utf8 s"
proof -
  from assms obtain rs where rs: "utf8_ranges b = Some rs"
    "list_all2 (\<lambda>(lo, hi) x. lo \<le> x \<and> x \<le> hi) rs bs"
    by (auto simp: fits_def split: option.splits)
  from utf8_ranges_256 [OF rs(1)] have "b < 256" and h: "\<forall>(lo, hi) \<in> set rs. hi < 256" by auto
  from rs(2) h have "\<forall>x \<in> set bs. x < 256"
    by (induction rule: list_all2_induct) auto
  with rs \<open>b < 256\<close> show ?thesis by (simp add: next_byte_bytes utf8.simps(2))
qed

lemma div_4096: "n div 4096 = n div 64 div (64 :: nat)"
  by (simp add: div_mult2_eq [symmetric])

lemma sixes:
  fixes n :: nat
  shows "n = n div 64 * 64 + n mod 64" "n div 64 = n div 4096 * 64 + n div 64 mod 64"
    "n div 4096 = n div 262144 * 64 + n div 4096 mod 64"
    "n mod 64 < 64" "n div 64 mod 64 < 64" "n div 4096 mod 64 < 64"
proof -
  have d: "n div 262144 = n div 4096 div 64"
    by (simp add: div_mult2_eq [symmetric])
  show "n = n div 64 * 64 + n mod 64" "n div 64 = n div 4096 * 64 + n div 64 mod 64"
    "n div 4096 = n div 262144 * 64 + n div 4096 mod 64"
    unfolding d div_4096 by (simp_all only: div_mult_mod_eq)
qed simp_all

lemma encode_bytes:
  assumes "scalar n"
  obtains b bs where "utf8_encode n = map char_of (b # bs)" and "fits b bs"
proof -
  consider "n < 0x80" | "0x80 \<le> n" "n \<le> 0x7FF" | "0x7FF < n" "n \<le> 0xFFFF" | "0xFFFF < n"
    by linarith
  then show thesis
  proof cases
    case 1
    then show thesis by (intro that [of n "[]"]) (simp_all add: utf8_encode_def fits_1)
  next
    case 2
    have "2 \<le> n div 64" "n div 64 < 32" "n mod 64 < 64" using 2 sixes(1,4) [of n] by linarith+
    with 2 show thesis
      by (intro that [OF _ fits_2 [of "n div 64" "n mod 64"]]) (simp_all add: utf8_encode_def)
  next
    case 3
    note n = sixes [of n]
    have "n div 4096 < 16" "n div 4096 = 0 \<Longrightarrow> 32 \<le> n div 64 mod 64"
      "n div 4096 = 13 \<Longrightarrow> n div 64 mod 64 < 32"
      using 3 assms n unfolding scalar_def by linarith+
    with 3 show thesis
      by (intro that [OF _ fits_3 [of "n div 4096" "n div 64 mod 64" "n mod 64"]])
         (simp_all add: utf8_encode_def)
  next
    case 4
    note n = sixes [of n]
    have "n div 262144 < 5" "n div 262144 = 0 \<Longrightarrow> 16 \<le> n div 4096 mod 64"
      "n div 262144 = 4 \<Longrightarrow> n div 4096 mod 64 < 16"
      using 4 assms n unfolding scalar_def by linarith+
    with 4 show thesis
      by (intro that [OF _ fits_4 [of "n div 262144" "n div 4096 mod 64" "n div 64 mod 64" "n mod 64"]])
         (simp_all add: utf8_encode_def)
  qed
qed

lemma utf8_encoded: "list_all scalar ns \<Longrightarrow> utf8 (concat (map utf8_encode ns))"
proof (induction ns)
  case (Cons n ns)
  then have IH: "utf8 (concat (map utf8_encode ns))" and n: "scalar n" by simp_all
  from encode_bytes [OF n] obtain b bs where e: "utf8_encode n = map char_of (b # bs)" "fits b bs" .
  have "concat (map utf8_encode (n # ns)) = map char_of (b # bs) @ concat (map utf8_encode ns)"
    by (simp add: e(1))
  with IH show ?case by (simp only: fits_utf8 [OF e(2)])
qed simp

lemma div_mod_64:
  fixes q r :: nat
  assumes "r < 64"
  shows "(q * 64 + r) div 64 = q" and "(q * 64 + r) mod 64 = r"
  using assms by simp_all

lemma fits_cases:
  assumes "fits b bs"
  obtains "bs = []" "b < 128"
  | a x where "bs = [0x80 + x]" "b = 0xC0 + a" "2 \<le> a" "a < 32" "x < 64"
  | a x y where "bs = [0x80 + x, 0x80 + y]" "b = 0xE0 + a" "a < 16" "x < 64" "y < 64"
      "a = 0 \<longrightarrow> 32 \<le> x" "a = 13 \<longrightarrow> x < 32"
  | a x y z where "bs = [0x80 + x, 0x80 + y, 0x80 + z]" "b = 0xF0 + a" "a < 5" "x < 64" "y < 64" "z < 64"
      "a = 0 \<longrightarrow> 16 \<le> x" "a = 4 \<longrightarrow> x < 16"
proof -
  note r = assms [unfolded fits_def utf8_ranges_def]
  consider "b < 128" | "0xC2 \<le> b" "b \<le> 0xDF" | "0xE0 \<le> b" "b \<le> 0xEF" | "0xF0 \<le> b" "b \<le> 0xF4"
    using r by (auto split: if_splits)
  then show thesis
  proof cases
    case 1
    with r show thesis by (intro that(1)) simp_all
  next
    case 2
    with r obtain v where "bs = [v]" "0x80 \<le> v" "v \<le> 0xBF" by (auto simp: list_all2_Cons1)
    with 2 show thesis by (intro that(2) [of "v - 0x80" "b - 0xC0"]) simp_all
  next
    case 3
    with r obtain v w where "bs = [v, w]" "0x80 \<le> v" "v \<le> 0xBF" "0x80 \<le> w" "w \<le> 0xBF"
      "b = 0xE0 \<longrightarrow> 0xA0 \<le> v" "b = 0xED \<longrightarrow> v \<le> 0x9F"
      by (auto simp: list_all2_Cons1 split: if_splits)
    with 3 show thesis by (intro that(3) [of "v - 0x80" "w - 0x80" "b - 0xE0"]) auto
  next
    case 4
    with r obtain v w u where "bs = [v, w, u]" "0x80 \<le> v" "v \<le> 0xBF" "0x80 \<le> w" "w \<le> 0xBF"
      "0x80 \<le> u" "u \<le> 0xBF" "b = 0xF0 \<longrightarrow> 0x90 \<le> v" "b = 0xF4 \<longrightarrow> v \<le> 0x8F"
      by (auto simp: list_all2_Cons1 split: if_splits)
    with 4 show thesis by (intro that(4) [of "v - 0x80" "w - 0x80" "u - 0x80" "b - 0xF0"]) auto
  qed
qed

lemma fits_encode:
  assumes "fits b bs"
  obtains n where "scalar n" and "utf8_encode n = map char_of (b # bs)"
  using assms
proof (cases rule: fits_cases)
  case 1
  then show thesis by (intro that [of b]) (simp_all add: scalar_def utf8_encode_def)
next
  case (2 a x)
  note n = div_mod_64 [OF 2(5), of a]
  have "0x80 \<le> a * 64 + x" "a * 64 + x \<le> 0x7FF" using 2 by auto
  then show thesis
    using 2(1,2) n by (intro that [of "a * 64 + x"]) (simp_all add: scalar_def utf8_encode_def)
next
  case (3 a x y)
  let ?n = "(a * 64 + x) * 64 + y"
  note n = div_mod_64 [OF 3(5), of "a * 64 + x"] div_mod_64(2) [OF 3(4), of a]
  have n4: "?n div 4096 = a" by (simp only: div_4096 n div_mod_64(1) [OF 3(4)])
  have "0x7FF < ?n" using 3(3-7) by (cases "a = 0") simp_all
  moreover have "?n \<le> 0xFFFF" using 3(3-5) by simp
  moreover have "scalar ?n"
  proof -
    consider "a < 13" | "a = 13" | "14 \<le> a" by linarith
    then show ?thesis using 3(3-7) unfolding scalar_def by cases auto
  qed
  ultimately show thesis
    using 3(1,2) n n4 by (intro that [of ?n]) (simp_all add: utf8_encode_def)
next
  case (4 a x y z)
  let ?n = "((a * 64 + x) * 64 + y) * 64 + z"
  note n = div_mod_64 [OF 4(6), of "(a * 64 + x) * 64 + y"] div_mod_64(2) [OF 4(5), of "a * 64 + x"]
    div_mod_64(2) [OF 4(4), of a]
  have n4: "?n div 4096 = a * 64 + x" by (simp only: div_4096 n div_mod_64(1) [OF 4(5)])
  have n6: "?n div 262144 = a" using sixes(3,6) [of ?n] n n4 by linarith
  have "0xFFFF < ?n" using 4(3-8) by (cases "a = 0") auto
  moreover from this have "scalar ?n" using 4(3-8) unfolding scalar_def by (cases "a = 4") auto
  ultimately show thesis
    using 4(1,2) n n4 n6 by (intro that [of ?n]) (simp_all add: utf8_encode_def)
qed

lemma next_byte_fits:
  assumes "utf8_ranges (of_char c) = Some rs" and "next_byte_in_range rs s = Some (t, s')"
  shows "fits (of_char c) (map of_char t)"
proof -
  have "list_all2 (\<lambda>(lo, hi) x. lo \<le> x \<and> x \<le> hi) rs (map of_char t)"
    using assms(2)
    by (induction rs s arbitrary: t rule: next_byte_in_range.induct)
       (auto split: if_splits simp: apfst_def map_prod_def)
  with assms(1) show ?thesis by (simp add: fits_def)
qed

lemma utf8_decoded: "utf8 s \<Longrightarrow> \<exists>ns. list_all scalar ns \<and> s = concat (map utf8_encode ns)"
proof (induction s rule: utf8.induct)
  case (2 c s)
  then obtain rs t s' where rs: "utf8_ranges (of_char c) = Some rs"
    "next_byte_in_range rs s = Some (t, s')" "utf8 s'"
    by (auto simp: utf8.simps(2) split: option.splits)
  from "2.IH" [OF rs(1,2) refl rs(3)] obtain ns where
    ns: "list_all scalar ns" "s' = concat (map utf8_encode ns)" by blast
  from fits_encode [OF next_byte_fits [OF rs(1,2)]] obtain n where
    n: "scalar n" "utf8_encode n = map char_of (of_char c # map of_char t :: nat list)" by blast
  then have "utf8_encode n = c # t" by (simp add: comp_def)
  with ns n next_byte_in_range_append [OF rs(2)]
  have "list_all scalar (n # ns) \<and> c # s = concat (map utf8_encode (n # ns))" by simp
  then show ?case by blast
qed (intro exI [of _ "[]"], simp)

lemma utf8_iff: "utf8 s \<longleftrightarrow> (\<exists>ns. list_all scalar ns \<and> s = concat (map utf8_encode ns))"
  using utf8_decoded utf8_encoded by blast

end
