(* ===== verification/Json.thy ===== *)
theory Json
  imports Rpc_Types Utf8
begin

text \<open>
  The JSON value of nlohmann's \<open>basic_json\<close> as far as \<open>src/include/rpc\<close> uses it: the value
  tree, the two accessors \<open>operator[]\<close> and \<open>at\<close>, \<open>clear\<close>, and the conversions \<open>to_json\<close> and
  \<open>get_to\<close> of integers, enumerations and the two packet headers. The text form is a pair of
  functions (a \<open>codec\<close>) that the users of this theory take as an argument.
\<close>

section \<open>Values\<close>

text \<open>
  \<open>JInt\<close> is \<open>number_integer\<close> (64 bits, read with \<open>sint\<close>), \<open>JUint\<close> is \<open>number_unsigned\<close>,
  \<open>JFloat\<close> is \<open>number_float\<close> by its IEEE bits. Strings are byte strings. An object is a
  \<open>std::map\<close>: its entries in ascending order of the key, no key twice.
\<close>

datatype json =
    JNull
  | JBool bool
  | JInt "64 word"
  | JUint "64 word"
  | JFloat "64 word"
  | JStr string
  | JArr "json list"
  | JObj "(string \<times> json) list"

fun is_null :: "json \<Rightarrow> bool" where
  "is_null JNull = True"
| "is_null _ = False"

fun is_object :: "json \<Rightarrow> bool" where
  "is_object (JObj _) = True"
| "is_object _ = False"

text \<open>Assignment to the element at a key of a \<open>std::map\<close>, which \<open>emplace\<close> makes if absent.\<close>

fun map_set :: "string \<Rightarrow> 'v \<Rightarrow> (string \<times> 'v) list \<Rightarrow> (string \<times> 'v) list" where
  "map_set k v [] = [(k, v)]"
| "map_set k v ((k', v') # kvs) =
     (if k < k' then (k, v) # (k', v') # kvs
      else if k = k' then (k, v) # kvs
      else (k', v') # map_set k v kvs)"

text \<open>\<open>j[key] = v\<close>: null becomes an object first, anything else but an object throws.\<close>

definition json_set :: "string \<Rightarrow> json \<Rightarrow> json \<Rightarrow> json res" where
  "json_set key v j =
     (let j' = (if is_null j then JObj [] else j) in
      case j' of
        JObj kvs \<Rightarrow> ret (JObj (map_set key v kvs))
      | _ \<Rightarrow> throw (Json_error 305))"

text \<open>\<open>j.at(key)\<close>.\<close>

definition json_at :: "string \<Rightarrow> json \<Rightarrow> json res" where
  "json_at key j =
     (case j of
        JObj kvs \<Rightarrow>
          (case map_of kvs key of None \<Rightarrow> throw (Json_error 403) | Some v \<Rightarrow> ret v)
      | _ \<Rightarrow> throw (Json_error 304))"

text \<open>\<open>j.clear()\<close> keeps the type of the value.\<close>

fun json_clear :: "json \<Rightarrow> json" where
  "json_clear JNull = JNull"
| "json_clear (JBool b) = JBool False"
| "json_clear (JInt i) = JInt 0"
| "json_clear (JUint u) = JUint 0"
| "json_clear (JFloat d) = JFloat 0"
| "json_clear (JStr s) = JStr []"
| "json_clear (JArr js) = JArr []"
| "json_clear (JObj kvs) = JObj []"

section \<open>Conversions of numbers\<close>

text \<open>
  The integer part of a double given by its bits, \<open>None\<close> for an infinity or a NaN.
\<close>

definition double_trunc :: "64 word \<Rightarrow> int option" where
  "double_trunc d =
     (let e = unat d div 2 ^ 52 mod 2048; m = unat d mod 2 ^ 52;
          man = (if e = 0 then m else 2 ^ 52 + m); ex = (if e = 0 then 1 else e);
          a = (if 1075 \<le> ex then man * 2 ^ (ex - 1075) else man div 2 ^ (1075 - ex))
      in if e = 2047 then None else Some (if bit d 63 then - int a else int a))"

text \<open>
  \<open>get_arithmetic_value\<close> into an unsigned type: \<open>static_cast\<close> from either integer type keeps
  the low bits; from a double it is undefined unless the integer part is representable.
\<close>

definition get_unsigned :: "json \<Rightarrow> ('w::len) word res" where
  "get_unsigned j =
     (case j of
        JUint u \<Rightarrow> ret (ucast u)
      | JInt i \<Rightarrow> ret (ucast i)
      | JFloat d \<Rightarrow>
          (case double_trunc d of
             None \<Rightarrow> throw Undefined_behaviour
           | Some i \<Rightarrow> if 0 \<le> i \<and> i < 2 ^ LENGTH('w) then ret (word_of_int i)
                       else throw Undefined_behaviour)
      | _ \<Rightarrow> throw (Json_error 302))"

text \<open>
  \<open>from_json\<close> for an arithmetic type that is none of the library's own number types, such as
  \<open>uint32_t\<close> and \<open>int\<close>, accepts a boolean as well.
\<close>

definition get_uint32 :: "json \<Rightarrow> 32 word res" where
  "get_uint32 j = (case j of JBool b \<Rightarrow> ret (if b then 1 else 0) | _ \<Rightarrow> get_unsigned j)"

definition get_size_t :: "json \<Rightarrow> 64 word res" where
  "get_size_t j = get_unsigned j"

definition get_int32 :: "json \<Rightarrow> 32 word res" where
  "get_int32 j =
     (case j of
        JBool b \<Rightarrow> ret (if b then 1 else 0)
      | JUint u \<Rightarrow> ret (ucast u)
      | JInt i \<Rightarrow> ret (ucast i)
      | JFloat d \<Rightarrow>
          (case double_trunc d of
             None \<Rightarrow> throw Undefined_behaviour
           | Some i \<Rightarrow> if - (2 ^ 31) \<le> i \<and> i < 2 ^ 31 then ret (word_of_int i)
                       else throw Undefined_behaviour)
      | _ \<Rightarrow> throw (Json_error 302))"

definition get_string :: "json \<Rightarrow> string res" where
  "get_string j = (case j of JStr s \<Rightarrow> ret s | _ \<Rightarrow> throw (Json_error 302))"

definition get_Err :: "json \<Rightarrow> Err res" where
  "get_Err j = bind_res (get_unsigned j) (\<lambda>b. ret (Err_of_byte b))"

text \<open>\<open>to_json\<close> of the types the program sends itself.\<close>

definition json_of_size_t :: "64 word \<Rightarrow> json" where
  "json_of_size_t x = JUint x"

definition json_of_uint32 :: "32 word \<Rightarrow> json" where
  "json_of_uint32 x = JUint (ucast x)"

definition json_of_int32 :: "32 word \<Rightarrow> json" where
  "json_of_int32 x = JInt (scast x)"

definition json_of_Err :: "Err \<Rightarrow> json" where
  "json_of_Err e = JUint (ucast (Err_to_byte e))"

section \<open>Headers\<close>

text \<open>
  The initialiser list \<open>{{"xid", ..}, {"proc", ..}, ..}\<close> is an object; the map orders its keys.
\<close>

definition json_of_pairs :: "(string \<times> json) list \<Rightarrow> json" where
  "json_of_pairs kvs = JObj (fold (\<lambda>(k, v). map_set k v) kvs [])"

definition to_json_RequestHeader :: "RequestHeader \<Rightarrow> json" where
  "to_json_RequestHeader req =
     json_of_pairs
       [(''xid'', json_of_size_t (req_xid req)),
        (''proc'', json_of_size_t (req_proc req)),
        (''clt_nonce'', json_of_uint32 (req_clt_nonce req)),
        (''srv_nonce'', json_of_uint32 (req_srv_nonce req)),
        (''xid_rep'', json_of_size_t (req_xid_rep req))]"

definition from_json_RequestHeader :: "json \<Rightarrow> RequestHeader res" where
  "from_json_RequestHeader j =
     bind_res (bind_res (json_at ''xid'' j) get_size_t) (\<lambda>xid.
     bind_res (bind_res (json_at ''proc'' j) get_size_t) (\<lambda>proc.
     bind_res (bind_res (json_at ''clt_nonce'' j) get_uint32) (\<lambda>clt_nonce.
     bind_res (bind_res (json_at ''srv_nonce'' j) get_uint32) (\<lambda>srv_nonce.
     bind_res (bind_res (json_at ''xid_rep'' j) get_size_t) (\<lambda>xid_rep.
     ret \<lparr>req_xid = xid, req_proc = proc, req_clt_nonce = clt_nonce,
          req_srv_nonce = srv_nonce, req_xid_rep = xid_rep\<rparr>)))))"

definition to_json_ReplyHeader :: "ReplyHeader \<Rightarrow> json" where
  "to_json_ReplyHeader rep =
     json_of_pairs
       [(''xid'', json_of_size_t (rep_xid rep)), (''err'', json_of_Err (rep_err rep))]"

definition from_json_ReplyHeader :: "json \<Rightarrow> ReplyHeader res" where
  "from_json_ReplyHeader j =
     bind_res (bind_res (json_at ''xid'' j) get_size_t) (\<lambda>xid.
     bind_res (bind_res (json_at ''err'' j) get_Err) (\<lambda>err.
     ret \<lparr>rep_xid = xid, rep_err = err\<rparr>))"

section \<open>Text\<close>

text \<open>
  \<open>dump()\<close> and \<open>parse()\<close>. What survives the text is the value up to the two integer types: a
  non-negative \<open>number_integer\<close> is read back as a \<open>number_unsigned\<close>. The law of a codec is
  stated for the values of the protocol: no floats, UTF-8 strings, maps in order.
\<close>

record codec =
  dump :: "json \<Rightarrow> string res"
  parse :: "string \<Rightarrow> json res"

fun canon :: "json \<Rightarrow> json" where
  "canon (JInt i) = (if 0 \<le> sint i then JUint i else JInt i)"
| "canon (JArr js) = JArr (map canon js)"
| "canon (JObj kvs) = JObj (map (map_prod id canon) kvs)"
| "canon j = j"

fun plain :: "json \<Rightarrow> bool" where
  "plain (JFloat d) \<longleftrightarrow> False"
| "plain (JStr s) \<longleftrightarrow> utf8 s"
| "plain (JArr js) \<longleftrightarrow> list_all plain js"
| "plain (JObj kvs) \<longleftrightarrow>
     sorted_wrt (<) (map fst kvs) \<and> list_all (\<lambda>(k, v). utf8 k \<and> plain v) kvs"
| "plain j \<longleftrightarrow> True"

definition wire_ok :: "codec \<Rightarrow> bool" where
  "wire_ok c \<longleftrightarrow>
     (\<forall>j. plain j \<longrightarrow> (\<exists>s. dump c j = ret s \<and> parse c s = ret (canon j)))"

section \<open>Lemmas: objects\<close>

definition sorted_keys :: "(string \<times> 'v) list \<Rightarrow> bool" where
  "sorted_keys kvs \<longleftrightarrow> sorted_wrt (<) (map fst kvs)"

lemma sorted_keys_Nil [simp]: "sorted_keys []"
  by (simp add: sorted_keys_def)

lemma sorted_keys_Cons [simp]:
  "sorted_keys ((k, v) # kvs) \<longleftrightarrow> (\<forall>k' \<in> fst ` set kvs. k < k') \<and> sorted_keys kvs"
  by (simp add: sorted_keys_def)

lemma map_set_keys [simp]: "fst ` set (map_set k v kvs) = insert k (fst ` set kvs)"
  by (induction k v kvs rule: map_set.induct) auto

lemma sorted_keys_map_set [simp]: "sorted_keys kvs \<Longrightarrow> sorted_keys (map_set k v kvs)"
proof (induction k v kvs rule: map_set.induct)
  case (2 k v k' v' kvs)
  then show ?case by (auto dest: order.strict_trans)
qed simp

lemma map_of_map_set [simp]: "map_of (map_set k v kvs) = (map_of kvs)(k \<mapsto> v)"
  by (induction k v kvs rule: map_set.induct) (auto simp: fun_eq_iff)

lemma map_set_entries: "(a, b) \<in> set (map_set k v kvs) \<Longrightarrow> (a, b) = (k, v) \<or> (a, b) \<in> set kvs"
  by (induction k v kvs rule: map_set.induct) (auto split: if_splits)

lemma map_of_canon: "map_of (map (map_prod id canon) kvs) k = map_option canon (map_of kvs k)"
  by (induction kvs) auto

lemma map_fst_canon [simp]: "map fst (map (map_prod id canon) kvs) = map fst kvs"
  by simp

lemma plain_JObj_map_set:
  assumes "plain (JObj kvs)" and "utf8 k" and "plain v"
  shows "plain (JObj (map_set k v kvs))"
proof -
  have "sorted_keys (map_set k v kvs)"
    using assms(1) sorted_keys_map_set [of kvs k v] by (simp add: sorted_keys_def)
  moreover have "list_all (\<lambda>(k, v). utf8 k \<and> plain v) (map_set k v kvs)"
    using assms by (auto simp: list_all_iff dest!: map_set_entries)
  ultimately show ?thesis by (simp add: sorted_keys_def)
qed

lemma json_at_set_same: "json_set k v j = ret j' \<Longrightarrow> json_at k j' = ret v"
  by (auto simp: json_set_def json_at_def Let_def split: json.splits if_splits)

lemma json_at_set_other:
  "json_set k v j = ret j' \<Longrightarrow> is_object j \<Longrightarrow> k' \<noteq> k \<Longrightarrow> json_at k' j' = json_at k' j"
  by (cases j) (auto simp: json_set_def json_at_def)

lemma json_at_canon: "json_at k j = ret v \<Longrightarrow> json_at k (canon j) = ret (canon v)"
  by (cases j) (auto simp: json_at_def map_of_canon split: option.splits)

section \<open>Lemmas: numbers and headers\<close>

lemma get_size_t_json_of [simp]: "get_size_t (json_of_size_t x) = ret x"
  by (simp add: get_size_t_def get_unsigned_def json_of_size_t_def)

lemma get_uint32_json_of [simp]: "get_uint32 (json_of_uint32 x) = ret x"
  by (simp add: get_uint32_def get_unsigned_def json_of_uint32_def ucast_up_ucast_id is_up)

lemma get_Err_json_of [simp]: "wf_Err e \<Longrightarrow> get_Err (json_of_Err e) = ret e"
  by (simp add: get_Err_def get_unsigned_def json_of_Err_def ucast_up_ucast_id is_up)

lemma canon_numbers [simp]:
  "canon (json_of_size_t x) = json_of_size_t x"
  "canon (json_of_uint32 y) = json_of_uint32 y"
  "canon (json_of_Err e) = json_of_Err e"
  by (simp_all add: json_of_size_t_def json_of_uint32_def json_of_Err_def)

lemma plain_numbers [simp]:
  "plain (json_of_size_t x)" "plain (json_of_uint32 y)" "plain (json_of_Err e)"
  "plain (json_of_int32 z)"
  by (simp_all add: json_of_size_t_def json_of_uint32_def json_of_Err_def json_of_int32_def)

lemma ucast_scast_32 [simp]: "ucast (scast (x :: 32 word) :: 64 word) = x"
  by (rule bit_word_eqI) (simp add: bit_simps)

text \<open>An \<open>int\<close> survives the text whatever its sign.\<close>

lemma get_int32_json_of [simp]: "get_int32 (canon (json_of_int32 x)) = ret x"
  by (simp add: get_int32_def json_of_int32_def)

lemma json_at_JObj_map_set [simp]:
  "json_at k' (JObj (map_set k v kvs)) = (if k' = k then ret v else json_at k' (JObj kvs))"
  by (simp add: json_at_def)

lemma canon_JObj_map_set [simp]:
  assumes "canon (JObj kvs) = JObj kvs" and "canon v = v"
  shows "canon (JObj (map_set k v kvs)) = JObj (map_set k v kvs)"
  using assms by (induction k v kvs rule: map_set.induct) auto

lemma plain_JObj_Nil [simp]: "plain (JObj [])"
  by simp

lemma utf8_literals [simp]:
  "utf8 ''xid''" "utf8 ''proc''" "utf8 ''clt_nonce''" "utf8 ''srv_nonce''"
  "utf8 ''xid_rep''" "utf8 ''err''" "utf8 ''req''" "utf8 ''rep''"
  by simp_all

lemma canon_RequestHeader [simp]: "canon (to_json_RequestHeader h) = to_json_RequestHeader h"
  by (simp add: to_json_RequestHeader_def json_of_pairs_def del: canon.simps(3) map_set.simps)
     simp

lemma canon_ReplyHeader [simp]: "canon (to_json_ReplyHeader h) = to_json_ReplyHeader h"
  by (simp add: to_json_ReplyHeader_def json_of_pairs_def del: canon.simps(3) map_set.simps)
     simp

lemma plain_RequestHeader [simp]: "plain (to_json_RequestHeader h)"
  by (simp add: to_json_RequestHeader_def json_of_pairs_def plain_JObj_map_set
      del: plain.simps(4) map_set.simps)

lemma plain_ReplyHeader [simp]: "plain (to_json_ReplyHeader h)"
  by (simp add: to_json_ReplyHeader_def json_of_pairs_def plain_JObj_map_set
      del: plain.simps(4) map_set.simps)

lemma from_to_RequestHeader [simp]:
  "from_json_RequestHeader (to_json_RequestHeader h) = ret h"
  by (simp add: from_json_RequestHeader_def to_json_RequestHeader_def json_of_pairs_def
      del: map_set.simps)

lemma from_to_ReplyHeader [simp]:
  "wf_Err (rep_err h) \<Longrightarrow> from_json_ReplyHeader (to_json_ReplyHeader h) = ret h"
  by (simp add: from_json_ReplyHeader_def to_json_ReplyHeader_def json_of_pairs_def
      del: map_set.simps)

end
