(* ===== verification/Marshall.thy ===== *)
theory Marshall
  imports Json
begin

text \<open>
  \<open>src/include/rpc/marshall.h\<close> and \<open>src/rpc/marshall.cpp\<close>: the \<open>Marshall\<close> object collects
  values under the keys \<open>"0"\<close>, \<open>"1"\<close>, ... and the packet header under \<open>"req"\<close> or \<open>"rep"\<close>;
  \<open>Unmarshall\<close> reads them back by the same counter. The main results are the round trips of a
  whole packet through the text of the wire, proved for every codec that keeps its law.
\<close>

section \<open>State and operations\<close>

record marshall =
  m_json :: json
  m_id :: int

record unmarshall =
  un_json :: json
  un_id :: int

definition Marshall_new :: marshall where
  "Marshall_new = \<lparr>m_json = JNull, m_id = 0\<rparr>"

definition Marshall_Reset :: "marshall \<Rightarrow> marshall" where
  "Marshall_Reset m = m\<lparr>m_json := json_clear (m_json m)\<rparr>"

definition Marshall_Buf :: "codec \<Rightarrow> marshall \<Rightarrow> string res" where
  "Marshall_Buf c m = dump c (m_json m)"

text \<open>\<open>operator<<\<close> for a value (already converted by its \<open>to_json\<close>) and for the headers.\<close>

definition Marshall_put :: "json \<Rightarrow> marshall \<Rightarrow> marshall res" where
  "Marshall_put t m =
     bind_res (json_set (to_string (m_id m)) t (m_json m)) (\<lambda>j.
     ret (m\<lparr>m_json := j, m_id := m_id m + 1\<rparr>))"

definition Marshall_put_req :: "RequestHeader \<Rightarrow> marshall \<Rightarrow> marshall res" where
  "Marshall_put_req r m =
     bind_res (json_set ''req'' (to_json_RequestHeader r) (m_json m)) (\<lambda>j.
     ret (m\<lparr>m_json := j\<rparr>))"

definition Marshall_put_rep :: "ReplyHeader \<Rightarrow> marshall \<Rightarrow> marshall res" where
  "Marshall_put_rep r m =
     bind_res (json_set ''rep'' (to_json_ReplyHeader r) (m_json m)) (\<lambda>j.
     ret (m\<lparr>m_json := j\<rparr>))"

definition Unmarshall_new :: unmarshall where
  "Unmarshall_new = \<lparr>un_json = JNull, un_id = 0\<rparr>"

text \<open>\<open>TakeBuf\<close> rethrows a parse error as the \<open>std::exception\<close> it caught by reference.\<close>

definition Unmarshall_TakeBuf :: "codec \<Rightarrow> string \<Rightarrow> unmarshall \<Rightarrow> unmarshall res" where
  "Unmarshall_TakeBuf c buf u =
     (case parse c buf of
        Inl e \<Rightarrow> throw Std_exception
      | Inr j \<Rightarrow> ret (u\<lparr>un_json := j\<rparr>))"

definition Unmarshall_of :: "codec \<Rightarrow> string \<Rightarrow> unmarshall res" where
  "Unmarshall_of c buf = Unmarshall_TakeBuf c buf Unmarshall_new"

text \<open>\<open>operator>>\<close> into a variable whose \<open>from_json\<close> is \<open>conv\<close>.\<close>

definition Unmarshall_get :: "(json \<Rightarrow> 'a res) \<Rightarrow> unmarshall \<Rightarrow> ('a \<times> unmarshall) res" where
  "Unmarshall_get conv u =
     bind_res (bind_res (json_at (to_string (un_id u)) (un_json u)) conv) (\<lambda>x.
     ret (x, u\<lparr>un_id := un_id u + 1\<rparr>))"

definition Unmarshall_get_req :: "unmarshall \<Rightarrow> RequestHeader res" where
  "Unmarshall_get_req u = bind_res (json_at ''req'' (un_json u)) from_json_RequestHeader"

definition Unmarshall_get_rep :: "unmarshall \<Rightarrow> ReplyHeader res" where
  "Unmarshall_get_rep u = bind_res (json_at ''rep'' (un_json u)) from_json_ReplyHeader"

text \<open>Chains \<open>m << x << y << ..\<close> and \<open>u >> x >> y >> ..\<close>.\<close>

fun Marshall_puts :: "json list \<Rightarrow> marshall \<Rightarrow> marshall res" where
  "Marshall_puts [] m = ret m"
| "Marshall_puts (t # ts) m = bind_res (Marshall_put t m) (Marshall_puts ts)"

fun Unmarshall_gets :: "nat \<Rightarrow> unmarshall \<Rightarrow> (json list \<times> unmarshall) res" where
  "Unmarshall_gets 0 u = ret ([], u)"
| "Unmarshall_gets (Suc n) u =
     bind_res (Unmarshall_get ret u) (\<lambda>(x, u').
     bind_res (Unmarshall_gets n u') (\<lambda>(xs, u''). ret (x # xs, u'')))"

section \<open>The value of a \<open>Marshall\<close> is null or an object\<close>

definition wf_marshall :: "marshall \<Rightarrow> bool" where
  "wf_marshall m \<longleftrightarrow>
     0 \<le> m_id m \<and> plain (m_json m) \<and> (is_null (m_json m) \<or> is_object (m_json m))"

text \<open>Reading a key of the collected value; null has no keys.\<close>

definition entry :: "marshall \<Rightarrow> string \<Rightarrow> json option" where
  "entry m k = (case m_json m of JObj kvs \<Rightarrow> map_of kvs k | _ \<Rightarrow> None)"

lemma is_digit_ascii: "is_digit c \<Longrightarrow> (of_char c :: nat) < 128"
  by (simp add: is_digit_def less_eq_char_def)

lemma utf8_to_string [simp]: "0 \<le> i \<Longrightarrow> utf8 (to_string i)"
  by (rule ascii_utf8)
     (auto simp: ascii_def list_all_iff intro: is_digit_ascii to_string_nonneg_digits)

lemma to_string_neq_literals [simp]:
  assumes "0 \<le> i"
  shows "to_string i \<noteq> ''req''" and "to_string i \<noteq> ''rep''"
    and "''req'' \<noteq> to_string i" and "''rep'' \<noteq> to_string i"
proof -
  have r: "\<not> is_digit (CHR ''r'')" by (simp add: is_digit_def less_eq_char_def)
  show "to_string i \<noteq> ''req''" and "to_string i \<noteq> ''rep''"
    using to_string_neq_word [OF assms r] by auto
  then show "''req'' \<noteq> to_string i" and "''rep'' \<noteq> to_string i" by metis+
qed

lemma to_string_0: "to_string 0 = ''0''"
  by (simp add: to_string_def nat_digits_0)

lemma wf_marshall_new [simp]: "wf_marshall Marshall_new"
  by (simp add: wf_marshall_def Marshall_new_def)

lemma wf_marshall_Reset [simp]: "wf_marshall m \<Longrightarrow> wf_marshall (Marshall_Reset m)"
  by (cases "m_json m") (auto simp: wf_marshall_def Marshall_Reset_def)

lemma entry_new [simp]: "entry Marshall_new k = None"
  by (simp add: entry_def Marshall_new_def)

lemma entry_Reset [simp]: "entry (Marshall_Reset m) k = None"
  by (cases "m_json m") (auto simp: entry_def Marshall_Reset_def)

lemma id_Reset [simp]: "m_id (Marshall_Reset m) = m_id m"
  by (simp add: Marshall_Reset_def)

text \<open>On such a value no insertion throws, and it writes exactly one key.\<close>

lemma json_set_wf:
  assumes "wf_marshall m" and "utf8 k" and "plain t"
  obtains j where "json_set k t (m_json m) = ret j"
    and "wf_marshall (m\<lparr>m_json := j\<rparr>)" and "entry (m\<lparr>m_json := j\<rparr>) = (entry m)(k \<mapsto> t)"
proof -
  from assms(1) obtain kvs where
    kvs: "(if is_null (m_json m) then JObj [] else m_json m) = JObj kvs" "plain (JObj kvs)"
    and e: "entry m = map_of kvs"
    by (cases "m_json m") (auto simp: wf_marshall_def entry_def fun_eq_iff)
  have pl: "plain (JObj (map_set k t kvs))"
    using kvs(2) assms(2,3) by (rule plain_JObj_map_set)
  show thesis
  proof (rule that [of "JObj (map_set k t kvs)"])
    show "json_set k t (m_json m) = ret (JObj (map_set k t kvs))"
      using kvs(1) by (simp add: json_set_def)
    show "wf_marshall (m\<lparr>m_json := JObj (map_set k t kvs)\<rparr>)"
      using assms(1) pl by (simp add: wf_marshall_def)
    show "entry (m\<lparr>m_json := JObj (map_set k t kvs)\<rparr>) = (entry m)(k \<mapsto> t)"
      unfolding e by (rule ext) (simp add: entry_def)
  qed
qed

lemma wf_marshall_bump [simp]: "wf_marshall m \<Longrightarrow> wf_marshall (m\<lparr>m_id := m_id m + 1\<rparr>)"
  by (simp add: wf_marshall_def)

lemma entry_id [simp]: "entry (m\<lparr>m_id := i\<rparr>) = entry m"
  by (simp add: entry_def fun_eq_iff)

lemma Marshall_put_wf:
  assumes "wf_marshall m" and "plain t"
  obtains m' where "Marshall_put t m = ret m'" and "wf_marshall m'" and "m_id m' = m_id m + 1"
    and "entry m' = (entry m)(to_string (m_id m) \<mapsto> t)"
proof -
  have k: "utf8 (to_string (m_id m))" using assms(1) by (simp add: wf_marshall_def)
  from json_set_wf [OF assms(1) k assms(2)] obtain j where
    j: "json_set (to_string (m_id m)) t (m_json m) = ret j" "wf_marshall (m\<lparr>m_json := j\<rparr>)"
    "entry (m\<lparr>m_json := j\<rparr>) = (entry m)(to_string (m_id m) \<mapsto> t)" .
  show thesis
    by (rule that [of "m\<lparr>m_json := j, m_id := m_id m + 1\<rparr>"])
       (use j wf_marshall_bump [OF j(2)] in \<open>simp_all add: Marshall_put_def\<close>)
qed

lemma Marshall_put_req_wf:
  assumes "wf_marshall m"
  obtains m' where "Marshall_put_req h m = ret m'" and "wf_marshall m'" and "m_id m' = m_id m"
    and "entry m' = (entry m)(''req'' \<mapsto> to_json_RequestHeader h)"
proof -
  from json_set_wf [OF assms utf8_literals(7) plain_RequestHeader [of h]] obtain j where
    j: "json_set ''req'' (to_json_RequestHeader h) (m_json m) = ret j"
    "wf_marshall (m\<lparr>m_json := j\<rparr>)"
    "entry (m\<lparr>m_json := j\<rparr>) = (entry m)(''req'' \<mapsto> to_json_RequestHeader h)" .
  show thesis
    by (rule that [of "m\<lparr>m_json := j\<rparr>"]) (use j in \<open>simp_all add: Marshall_put_req_def\<close>)
qed

lemma Marshall_put_rep_wf:
  assumes "wf_marshall m"
  obtains m' where "Marshall_put_rep r m = ret m'" and "wf_marshall m'" and "m_id m' = m_id m"
    and "entry m' = (entry m)(''rep'' \<mapsto> to_json_ReplyHeader r)"
proof -
  from json_set_wf [OF assms utf8_literals(8) plain_ReplyHeader [of r]] obtain j where
    j: "json_set ''rep'' (to_json_ReplyHeader r) (m_json m) = ret j"
    "wf_marshall (m\<lparr>m_json := j\<rparr>)"
    "entry (m\<lparr>m_json := j\<rparr>) = (entry m)(''rep'' \<mapsto> to_json_ReplyHeader r)" .
  show thesis
    by (rule that [of "m\<lparr>m_json := j\<rparr>"]) (use j in \<open>simp_all add: Marshall_put_rep_def\<close>)
qed

text \<open>A chain of insertions fills the keys from the counter on.\<close>

lemma Marshall_puts_wf:
  assumes "wf_marshall m" and "list_all plain ts"
  shows "\<exists>m'. Marshall_puts ts m = ret m' \<and> wf_marshall m' \<and>
           m_id m' = m_id m + int (length ts) \<and>
           (\<forall>n < length ts. entry m' (to_string (m_id m + int n)) = Some (ts ! n)) \<and>
           (\<forall>k. (\<forall>n < length ts. k \<noteq> to_string (m_id m + int n)) \<longrightarrow> entry m' k = entry m k)"
  using assms
proof (induction ts arbitrary: m)
  case Nil
  then show ?case by simp
next
  case (Cons t ts)
  from Cons.prems obtain m1 where m1: "Marshall_put t m = ret m1" "wf_marshall m1"
    "m_id m1 = m_id m + 1" "entry m1 = (entry m)(to_string (m_id m) \<mapsto> t)"
    using Marshall_put_wf by (metis list.pred_inject(2))
  from Cons.IH [OF m1(2)] Cons.prems obtain m' where m': "Marshall_puts ts m1 = ret m'"
    "wf_marshall m'" "m_id m' = m_id m1 + int (length ts)"
    "\<And>n. n < length ts \<Longrightarrow> entry m' (to_string (m_id m1 + int n)) = Some (ts ! n)"
    "\<And>k. \<forall>n < length ts. k \<noteq> to_string (m_id m1 + int n) \<Longrightarrow> entry m' k = entry m1 k"
    by auto
  have i: "0 \<le> m_id m" using Cons.prems by (simp add: wf_marshall_def)
  have hit: "entry m' (to_string (m_id m + int n)) = Some ((t # ts) ! n)"
    if "n < length (t # ts)" for n
  proof (cases n)
    case 0
    have "entry m' (to_string (m_id m)) = entry m1 (to_string (m_id m))"
      by (rule m'(5)) (use i m1(3) in \<open>simp add: to_string_inject_nat\<close>)
    with 0 m1(4) show ?thesis by simp
  next
    case (Suc n')
    with that m'(4) [of n'] m1(3) show ?thesis by (simp add: add.assoc)
  qed
  have miss: "entry m' k = entry m k" if "\<forall>n < length (t # ts). k \<noteq> to_string (m_id m + int n)" for k
  proof -
    have "k \<noteq> to_string (m_id m)" using that [rule_format, of 0] by simp
    moreover have "\<forall>n < length ts. k \<noteq> to_string (m_id m1 + int n)"
      using that m1(3) by (auto simp: add.assoc dest: spec [of _ "Suc _"])
    ultimately show ?thesis using m'(5) m1(4) by simp
  qed
  show ?case using m1 m' hit miss by auto
qed

section \<open>Reading back\<close>

lemma json_at_entry:
  assumes "entry m k = Some t"
  shows "json_at k (canon (m_json m)) = ret (canon t)"
proof -
  from assms have "json_at k (m_json m) = ret t"
    by (auto simp: entry_def json_at_def split: json.splits)
  then show ?thesis by (rule json_at_canon)
qed

lemma json_at_no_entry:
  assumes "entry m k = None" and "is_object (m_json m)"
  shows "json_at k (canon (m_json m)) = throw (Json_error 403)"
  using assms by (cases "m_json m") (auto simp: entry_def json_at_def map_of_canon)

lemma Unmarshall_get_req_entry:
  assumes "entry m ''req'' = Some (to_json_RequestHeader h)" and "un_json u = canon (m_json m)"
  shows "Unmarshall_get_req u = ret h"
  using json_at_entry [OF assms(1)] assms(2) by (simp add: Unmarshall_get_req_def)

lemma Unmarshall_get_rep_entry:
  assumes "entry m ''rep'' = Some (to_json_ReplyHeader r)" and "un_json u = canon (m_json m)"
    and "wf_Err (rep_err r)"
  shows "Unmarshall_get_rep u = ret r"
  using json_at_entry [OF assms(1)] assms(2,3) by (simp add: Unmarshall_get_rep_def)

lemma Unmarshall_gets_entries:
  assumes "\<forall>n < length ts. entry m (to_string (un_id u + int n)) = Some (ts ! n)"
    and "un_json u = canon (m_json m)"
  shows "Unmarshall_gets (length ts) u =
           ret (map canon ts, u\<lparr>un_id := un_id u + int (length ts)\<rparr>)"
  using assms
proof (induction ts arbitrary: u)
  case Nil
  then show ?case by simp
next
  case (Cons t ts)
  let ?u = "u\<lparr>un_id := un_id u + 1\<rparr>"
  have "json_at (to_string (un_id u)) (un_json u) = ret (canon t)"
    using Cons.prems(1) [rule_format, of 0] Cons.prems(2) json_at_entry by simp
  then have "Unmarshall_get ret u = ret (canon t, ?u)"
    by (simp add: Unmarshall_get_def)
  moreover have "Unmarshall_gets (length ts) ?u =
      ret (map canon ts, ?u\<lparr>un_id := un_id ?u + int (length ts)\<rparr>)"
    by (rule Cons.IH) (use Cons.prems in \<open>auto simp: add.assoc dest: spec [of _ "Suc _"]\<close>)
  ultimately show ?case by (simp add: algebra_simps)
qed

section \<open>Packets on the wire\<close>

text \<open>
  A packet is the arguments, then the header, then the text, as \<open>RpcClient::Call\<close> and the
  handlers of \<open>RpcServer\<close> write it; the peer reads the header first and the values after it.
\<close>

definition request_packet :: "codec \<Rightarrow> json list \<Rightarrow> RequestHeader \<Rightarrow> string res" where
  "request_packet c ts h =
     bind_res (Marshall_puts ts Marshall_new) (\<lambda>m.
     bind_res (Marshall_put_req h m) (Marshall_Buf c))"

definition reply_packet :: "codec \<Rightarrow> json list \<Rightarrow> ReplyHeader \<Rightarrow> string res" where
  "reply_packet c ts r =
     bind_res (Marshall_puts ts Marshall_new) (\<lambda>m.
     bind_res (Marshall_put_rep r m) (Marshall_Buf c))"

definition read_request :: "codec \<Rightarrow> nat \<Rightarrow> string \<Rightarrow> (RequestHeader \<times> json list) res" where
  "read_request c n s =
     bind_res (Unmarshall_of c s) (\<lambda>u.
     bind_res (Unmarshall_get_req u) (\<lambda>h.
     bind_res (Unmarshall_gets n u) (\<lambda>(ts, _). ret (h, ts))))"

definition read_reply :: "codec \<Rightarrow> nat \<Rightarrow> string \<Rightarrow> (ReplyHeader \<times> json list) res" where
  "read_reply c n s =
     bind_res (Unmarshall_of c s) (\<lambda>u.
     bind_res (Unmarshall_get_rep u) (\<lambda>r.
     bind_res (Unmarshall_gets n u) (\<lambda>(ts, _). ret (r, ts))))"

locale wire =
  fixes c :: codec
  assumes wire_law: "wire_ok c"
begin

lemma Buf_TakeBuf:
  assumes "wf_marshall m"
  obtains s where "Marshall_Buf c m = ret s"
    and "\<And>u. Unmarshall_TakeBuf c s u = ret (u\<lparr>un_json := canon (m_json m)\<rparr>)"
proof -
  from assms wire_law obtain s where
    s: "dump c (m_json m) = ret s" "parse c s = ret (canon (m_json m))"
    unfolding wire_ok_def wf_marshall_def by blast
  show thesis
    by (rule that [of s]) (simp_all add: Marshall_Buf_def Unmarshall_TakeBuf_def s)
qed

lemma stream:
  assumes "wf_marshall m" and "list_all plain ts" and "un_id u = m_id m"
  shows "bind_res (bind_res (Marshall_puts ts m) (Marshall_Buf c)) (\<lambda>s.
           bind_res (Unmarshall_TakeBuf c s u) (\<lambda>u'.
           bind_res (Unmarshall_gets (length ts) u') (\<lambda>(xs, _). ret xs))) =
         ret (map canon ts)"
proof -
  from Marshall_puts_wf [OF assms(1,2)] obtain m' where m': "Marshall_puts ts m = ret m'"
    "wf_marshall m'" "\<forall>n < length ts. entry m' (to_string (m_id m + int n)) = Some (ts ! n)"
    by blast
  from Buf_TakeBuf [OF m'(2)] obtain s where s: "Marshall_Buf c m' = ret s"
    "\<And>u. Unmarshall_TakeBuf c s u = ret (u\<lparr>un_json := canon (m_json m')\<rparr>)" by blast
  show ?thesis
    using m' s assms(3) by (simp add: Unmarshall_gets_entries [where m = m'])
qed

lemma request:
  assumes "list_all plain ts"
  shows "bind_res (request_packet c ts h) (read_request c (length ts)) = ret (h, map canon ts)"
proof -
  from Marshall_puts_wf [OF wf_marshall_new assms] obtain m1 where m1:
    "Marshall_puts ts Marshall_new = ret m1" "wf_marshall m1"
    "\<forall>n < length ts. entry m1 (to_string (int n)) = Some (ts ! n)"
    by (auto simp: Marshall_new_def)
  from Marshall_put_req_wf [OF m1(2), of h] obtain m2 where m2: "Marshall_put_req h m1 = ret m2"
    "wf_marshall m2" "entry m2 = (entry m1)(''req'' \<mapsto> to_json_RequestHeader h)" by blast
  from Buf_TakeBuf [OF m2(2)] obtain s where s: "Marshall_Buf c m2 = ret s"
    "\<And>u. Unmarshall_TakeBuf c s u = ret (u\<lparr>un_json := canon (m_json m2)\<rparr>)" by blast
  show ?thesis
    using m1 m2 s
    by (simp add: request_packet_def read_request_def Unmarshall_of_def Unmarshall_new_def
        Unmarshall_get_req_entry [where m = m2] Unmarshall_gets_entries [where m = m2])
qed

lemma reply:
  assumes "list_all plain ts" and "wf_Err (rep_err r)"
  shows "bind_res (reply_packet c ts r) (read_reply c (length ts)) = ret (r, map canon ts)"
proof -
  from Marshall_puts_wf [OF wf_marshall_new assms(1)] obtain m1 where m1:
    "Marshall_puts ts Marshall_new = ret m1" "wf_marshall m1"
    "\<forall>n < length ts. entry m1 (to_string (int n)) = Some (ts ! n)"
    by (auto simp: Marshall_new_def)
  from Marshall_put_rep_wf [OF m1(2), of r] obtain m2 where m2: "Marshall_put_rep r m1 = ret m2"
    "wf_marshall m2" "entry m2 = (entry m1)(''rep'' \<mapsto> to_json_ReplyHeader r)" by blast
  from Buf_TakeBuf [OF m2(2)] obtain s where s: "Marshall_Buf c m2 = ret s"
    "\<And>u. Unmarshall_TakeBuf c s u = ret (u\<lparr>un_json := canon (m_json m2)\<rparr>)" by blast
  show ?thesis
    using m1 m2 s assms(2)
    by (simp add: reply_packet_def read_reply_def Unmarshall_of_def Unmarshall_new_def
        Unmarshall_get_rep_entry [where m = m2] Unmarshall_gets_entries [where m = m2])
qed

text \<open>
  A packet with one value, step by step: writing it never throws, the peer reads its header, and
  then the value as any type it converts to. A packet with a header only has no value to read.
\<close>

lemma one_value_read:
  assumes "wf_marshall m" and "entry m ''0'' = Some t" and "un_json u = canon (m_json m)"
    and "un_id u = 0"
  shows "Unmarshall_get conv u = bind_res (conv (canon t)) (\<lambda>x. ret (x, u\<lparr>un_id := 1\<rparr>))"
proof -
  have "json_at (to_string 0) (canon (m_json m)) = ret (canon t)"
    by (rule json_at_entry) (use assms(2) in \<open>simp add: to_string_0\<close>)
  with assms(3,4) show ?thesis by (simp add: Unmarshall_get_def)
qed

lemma request_read:
  assumes "plain t"
  obtains m m' b u where "Marshall_put t Marshall_new = ret m" and "wf_marshall m"
    and "Marshall_put_req h m = ret m'" and "Marshall_Buf c m' = ret b"
    and "Unmarshall_of c b = ret u" and "Unmarshall_get_req u = ret h"
    and "\<And>conv. Unmarshall_get conv u =
           bind_res (conv (canon t)) (\<lambda>x. ret (x, u\<lparr>un_id := 1\<rparr>))"
proof -
  from Marshall_put_wf [OF wf_marshall_new assms] obtain m where m:
    "Marshall_put t Marshall_new = ret m" "wf_marshall m"
    "entry m = (entry Marshall_new)(to_string (m_id Marshall_new) \<mapsto> t)" by metis
  from Marshall_put_req_wf [OF m(2), of h] obtain m' where m': "Marshall_put_req h m = ret m'"
    "wf_marshall m'" "entry m' = (entry m)(''req'' \<mapsto> to_json_RequestHeader h)" by blast
  from Buf_TakeBuf [OF m'(2)] obtain b where b: "Marshall_Buf c m' = ret b"
    "\<And>u. Unmarshall_TakeBuf c b u = ret (u\<lparr>un_json := canon (m_json m')\<rparr>)" by blast
  let ?u = "Unmarshall_new\<lparr>un_json := canon (m_json m')\<rparr>"
  have e: "entry m' ''0'' = Some t"
    using m(3) m'(3) by (simp add: Marshall_new_def to_string_0)
  show thesis
    by (rule that [of m m' b ?u])
       (use m m' b one_value_read [OF m'(2) e, of ?u] in
        \<open>simp_all add: Unmarshall_of_def Unmarshall_new_def Unmarshall_get_req_entry [where m = m']\<close>)
qed

lemma reply_read:
  assumes "plain t" and "wf_Err (rep_err r)"
  obtains m m' b u where "Marshall_put t Marshall_new = ret m"
    and "Marshall_put_rep r m = ret m'" and "Marshall_Buf c m' = ret b"
    and "Unmarshall_of c b = ret u" and "Unmarshall_get_rep u = ret r"
    and "\<And>conv. Unmarshall_get conv u =
           bind_res (conv (canon t)) (\<lambda>x. ret (x, u\<lparr>un_id := 1\<rparr>))"
proof -
  from Marshall_put_wf [OF wf_marshall_new assms(1)] obtain m where m:
    "Marshall_put t Marshall_new = ret m" "wf_marshall m"
    "entry m = (entry Marshall_new)(to_string (m_id Marshall_new) \<mapsto> t)" by metis
  from Marshall_put_rep_wf [OF m(2), of r] obtain m' where m': "Marshall_put_rep r m = ret m'"
    "wf_marshall m'" "entry m' = (entry m)(''rep'' \<mapsto> to_json_ReplyHeader r)" by blast
  from Buf_TakeBuf [OF m'(2)] obtain b where b: "Marshall_Buf c m' = ret b"
    "\<And>u. Unmarshall_TakeBuf c b u = ret (u\<lparr>un_json := canon (m_json m')\<rparr>)" by blast
  let ?u = "Unmarshall_new\<lparr>un_json := canon (m_json m')\<rparr>"
  have e: "entry m' ''0'' = Some t"
    using m(3) m'(3) by (simp add: Marshall_new_def to_string_0)
  show thesis
    by (rule that [of m m' b ?u])
       (use m m' b assms(2) one_value_read [OF m'(2) e, of ?u] in
        \<open>simp_all add: Unmarshall_of_def Unmarshall_new_def Unmarshall_get_rep_entry [where m = m']\<close>)
qed

lemma header_read:
  assumes "wf_Err (rep_err r)"
  obtains m b u where "Marshall_put_rep r Marshall_new = ret m" and "Marshall_Buf c m = ret b"
    and "Unmarshall_of c b = ret u" and "Unmarshall_get_rep u = ret r"
    and "\<And>conv. Unmarshall_get conv u = throw (Json_error 403)"
proof -
  from Marshall_put_rep_wf [OF wf_marshall_new, of r] obtain m where
    m: "Marshall_put_rep r Marshall_new = ret m" "wf_marshall m"
    "entry m = (entry Marshall_new)(''rep'' \<mapsto> to_json_ReplyHeader r)" by blast
  from Buf_TakeBuf [OF m(2)] obtain b where b: "Marshall_Buf c m = ret b"
    "\<And>u. Unmarshall_TakeBuf c b u = ret (u\<lparr>un_json := canon (m_json m)\<rparr>)" by blast
  let ?u = "Unmarshall_new\<lparr>un_json := canon (m_json m)\<rparr>"
  have "entry m ''rep'' \<noteq> None" using m(3) by simp
  then have "is_object (m_json m)" by (auto simp: entry_def split: json.splits)
  moreover have "entry m (to_string 0) = None" using m(3) by simp
  ultimately have none: "json_at (to_string 0) (canon (m_json m)) = throw (Json_error 403)"
    by (intro json_at_no_entry)
  show thesis
    by (rule that [of m b ?u])
       (use m b none assms in \<open>simp_all add: Unmarshall_of_def Unmarshall_new_def
          Unmarshall_get_def Unmarshall_get_rep_entry [where m = m]\<close>)
qed

text \<open>
  After \<open>Reset\<close> the counter goes on, so a new \<open>Unmarshall\<close> misses the first value.
\<close>

lemma reset_misaligned:
  assumes "wf_marshall m" and "0 < m_id m" and "plain t"
  shows "bind_res (bind_res (Marshall_put t (Marshall_Reset m)) (Marshall_Buf c)) (\<lambda>s.
           bind_res (Unmarshall_of c s) (Unmarshall_get conv)) = throw (Json_error 403)"
proof -
  from Marshall_put_wf [OF wf_marshall_Reset [OF assms(1)] assms(3)] obtain m' where
    m': "Marshall_put t (Marshall_Reset m) = ret m'" "wf_marshall m'"
    "entry m' = (entry (Marshall_Reset m))(to_string (m_id m) \<mapsto> t)" by auto
  from Buf_TakeBuf [OF m'(2)] obtain s where s: "Marshall_Buf c m' = ret s"
    "\<And>u. Unmarshall_TakeBuf c s u = ret (u\<lparr>un_json := canon (m_json m')\<rparr>)" by blast
  have "entry m' (to_string (m_id m)) = Some t" using m'(3) by simp
  then have "is_object (m_json m')" by (auto simp: entry_def split: json.splits)
  moreover have "entry m' (to_string 0) = None"
    using m'(3) assms(2) by (simp add: to_string_inject_nat)
  ultimately have "json_at (to_string 0) (canon (m_json m')) = throw (Json_error 403)"
    by (intro json_at_no_entry)
  then show ?thesis
    using m'(1) s by (simp add: Unmarshall_of_def Unmarshall_new_def Unmarshall_get_def)
qed

end

end
