(* ===== verification/Xid_Window.thy ===== *)
theory Xid_Window
  imports Rpc_Types
begin

text \<open>
  The client's window of received replies (\<open>xid_rep_window_\<close> of \<open>rpc_client.h\<close> and
  \<open>RpcClient::UpdateXidRep\<close> of \<open>rpc_client.cpp\<close>). Its front is the transaction up to which the
  client acknowledges every reply. The list is related to the set of transactions that count
  as received, and the contract is the locale \<open>ack_window\<close>.
\<close>

section \<open>Operations\<close>

text \<open>The insertion loop: before the first greater entry, else \<open>push_back\<close>.\<close>

fun window_insert :: "xid_t \<Rightarrow> xid_t list \<Rightarrow> xid_t list" where
  "window_insert xid [] = [xid]"
| "window_insert xid (w # ws) = (if w > xid then xid # w # ws else w # window_insert xid ws)"

text \<open>
  The inner loop of the compression, with the iterator on \<open>it\<close> and \<open>pre\<close> the entries before it:
  \<open>while (front() + 1 == *it) pop_front()\<close>. Once \<open>pre\<close> is used up the front is \<open>it\<close> itself,
  and the condition fails.
\<close>

fun pop_while :: "xid_t \<Rightarrow> xid_t list \<Rightarrow> xid_t list" where
  "pop_while it [] = []"
| "pop_while it (f # pre) = (if f + 1 = it then pop_while it pre else f # pre)"

text \<open>The outer loop, from the second entry to the end.\<close>

fun compress_from :: "xid_t list \<Rightarrow> xid_t list \<Rightarrow> xid_t list" where
  "compress_from pre [] = pre"
| "compress_from pre (it # ws) = compress_from (pop_while it pre @ [it]) ws"

fun compress :: "xid_t list \<Rightarrow> xid_t list" where
  "compress [] = []"
| "compress (w # ws) = compress_from [w] ws"

definition UpdateXidRep :: "xid_t \<Rightarrow> xid_t list \<Rightarrow> xid_t list" where
  "UpdateXidRep xid ws =
     (if ws \<noteq> [] \<and> xid \<le> hd ws then ws else compress (window_insert xid ws))"

text \<open>The lambda \<open>received_xid\<close> of \<open>RpcClient::Call\<close>.\<close>

definition received_xid :: "xid_t list \<Rightarrow> xid_t" where
  "received_xid ws = (if ws = [] then 0 else hd ws)"

section \<open>Transactions that count as received\<close>

definition seen :: "xid_t list \<Rightarrow> xid_t set" where
  "seen ws = (if ws = [] then {} else {..hd ws} \<union> set ws)"

definition window_ok :: "xid_t list \<Rightarrow> bool" where
  "window_ok ws \<longleftrightarrow> sorted ws \<and> (ws \<noteq> [] \<longrightarrow> hd ws + 1 \<notin> set ws)"

lemma word_Suc_between: "x < y \<Longrightarrow> y \<le> x + 1 \<Longrightarrow> y = x + (1 :: xid_t)"
  by (metis dual_order.strict_trans1 inc_le linorder_not_less order_antisym_conv)

lemma word_add_1_neq [simp]: "x + 1 \<noteq> (x :: xid_t)" "x \<noteq> x + 1"
  by simp_all

section \<open>The insertion\<close>

lemma set_window_insert [simp]: "set (window_insert x ws) = insert x (set ws)"
  by (induction x ws rule: window_insert.induct) auto

lemma sorted_window_insert [simp]: "sorted ws \<Longrightarrow> sorted (window_insert x ws)"
  by (induction x ws rule: window_insert.induct) (auto simp: not_less intro: less_imp_le order_trans)

lemma window_insert_not_Nil [simp]: "window_insert x ws \<noteq> []"
  by (cases ws) auto

lemma hd_window_insert:
  "ws \<noteq> [] \<Longrightarrow> hd ws < x \<Longrightarrow> hd (window_insert x ws) = hd ws"
  by (cases ws) auto

section \<open>The compression\<close>

text \<open>
  On a sorted list the inner loop drops everything before \<open>it\<close>, or nothing.
\<close>

lemma pop_while_eq:
  assumes "sorted (pre @ [it])" and "pre \<noteq> []"
  shows "pop_while it pre = (if hd pre + 1 = it then filter ((=) it) pre else pre)"
  using assms
proof (induction pre)
  case (Cons f pre)
  show ?case
  proof (cases "f + 1 = it \<and> pre \<noteq> []")
    case True
    then have "f \<le> hd pre" "hd pre \<le> it" "sorted (pre @ [it])"
      using Cons.prems(1) by (cases pre; auto)+
    then have "hd pre = f \<or> hd pre = it"
      using True word_Suc_between [of f "hd pre"] by (auto simp: order.order_iff_strict)
    moreover have "filter ((=) it) pre = pre" if "hd pre = it"
      using that Cons.prems(1) True
      by (cases pre) (auto simp: filter_id_conv sorted_append intro: order_antisym)
    ultimately show ?thesis
      using True Cons.IH [OF \<open>sorted (pre @ [it])\<close>] by auto
  qed auto
qed simp

text \<open>One turn of the outer loop keeps what is seen, and the gap after the front.\<close>

lemma compress_step:
  assumes "sorted (pre @ it # ws)" and "pre \<noteq> []" and "hd pre + 1 \<notin> set pre"
  defines "pre' \<equiv> pop_while it pre @ [it]"
  shows "sorted (pre' @ ws)" and "hd pre' + 1 \<notin> set pre'"
    and "seen (pre' @ ws) = seen (pre @ it # ws)" and "pre' \<noteq> []"
proof -
  have s: "sorted (pre @ [it])" using assms(1) by (simp add: sorted_append)
  note eq = pop_while_eq [OF s assms(2)]
  have all: "\<forall>x \<in> set pre. hd pre \<le> x \<and> x \<le> it"
    using s assms(2) by (cases pre) (auto simp: sorted_append)
  show "pre' \<noteq> []" by (simp add: pre'_def)
  show "sorted (pre' @ ws)"
    using assms(1) by (simp add: pre'_def eq sorted_append sorted_wrt_filter)
  have "hd pre' + 1 \<notin> set pre' \<and> seen (pre' @ ws) = seen (pre @ it # ws)"
  proof (cases "hd pre + 1 = it")
    case True
    then have set: "set pre' = {it}" by (auto simp: pre'_def eq)
    then have hd': "hd pre' = it" using \<open>pre' \<noteq> []\<close> by (metis list.set_sel(1) singletonD)
    have "hd pre \<le> it" using all assms(2) by (meson list.set_sel(1))
    then have "hd pre < it" using True by (metis order_less_le word_add_1_neq(2))
    then have "{..it} = insert it {..hd pre}"
      using True word_Suc_between [of "hd pre"] by (auto simp: not_le intro: ccontr)
    moreover have "set pre \<subseteq> {..it}" using all by auto
    moreover have "hd (pre' @ ws) = it" "hd (pre @ it # ws) = hd pre"
      using hd' assms(2) \<open>pre' \<noteq> []\<close> by simp_all
    ultimately show ?thesis
      using set hd' assms(2) \<open>pre' \<noteq> []\<close> by (auto simp: seen_def)
  next
    case False
    with assms(2) have "hd pre' = hd pre" by (simp add: pre'_def eq)
    with False assms(2,3) \<open>pre' \<noteq> []\<close> show ?thesis by (auto simp: seen_def pre'_def eq)
  qed
  then show "hd pre' + 1 \<notin> set pre'" "seen (pre' @ ws) = seen (pre @ it # ws)" by blast+
qed

lemma compress_from_ok:
  "sorted (pre @ ws) \<Longrightarrow> pre \<noteq> [] \<Longrightarrow> hd pre + 1 \<notin> set pre \<Longrightarrow>
     window_ok (compress_from pre ws) \<and> seen (compress_from pre ws) = seen (pre @ ws) \<and>
     compress_from pre ws \<noteq> []"
proof (induction pre ws rule: compress_from.induct)
  case (2 pre it ws)
  note st = compress_step [OF "2.prems"]
  from "2.IH" [OF _ st(4,2)] st(1,3) show ?case by simp
qed (simp add: window_ok_def)

lemma compress_ok:
  "sorted ws \<Longrightarrow> ws \<noteq> [] \<Longrightarrow>
     window_ok (compress ws) \<and> seen (compress ws) = seen ws \<and> compress ws \<noteq> []"
  using compress_from_ok by (cases ws) auto

section \<open>The update\<close>

lemma window_ok_UpdateXidRep [inv_intros]: "window_ok ws \<Longrightarrow> window_ok (UpdateXidRep x ws)"
  by (simp add: UpdateXidRep_def window_ok_def) (metis compress_ok sorted_window_insert
      window_insert_not_Nil window_ok_def)

lemma seen_UpdateXidRep:
  assumes "window_ok ws"
  shows "seen (UpdateXidRep x ws) = (if ws = [] then {..x} else insert x (seen ws))"
proof (cases "ws = []")
  case True
  then show ?thesis by (auto simp: UpdateXidRep_def seen_def)
next
  case False
  show ?thesis
  proof (cases "x \<le> hd ws")
    case True
    with False show ?thesis by (auto simp: UpdateXidRep_def seen_def)
  next
    case False': False
    have "seen (UpdateXidRep x ws) = seen (window_insert x ws)"
      using False False' assms compress_ok [of "window_insert x ws"]
      by (simp add: UpdateXidRep_def window_ok_def)
    also have "\<dots> = insert x (seen ws)"
      using False False' by (auto simp: seen_def hd_window_insert)
    finally show ?thesis using False by simp
  qed
qed

lemma UpdateXidRep_not_Nil [simp]: "window_ok ws \<Longrightarrow> UpdateXidRep x ws \<noteq> []"
  using compress_ok [of "window_insert x ws"]
  by (auto simp: UpdateXidRep_def window_ok_def)

lemma seen_empty: "seen ws = {} \<longleftrightarrow> ws = []"
  by (auto simp: seen_def)

text \<open>The front is the greatest transaction below which nothing is missing.\<close>

lemma seen_front: "window_ok ws \<Longrightarrow> ws \<noteq> [] \<Longrightarrow> {..y} \<subseteq> seen ws \<longleftrightarrow> y \<le> hd ws"
proof
  assume ws: "window_ok ws" "ws \<noteq> []" and y: "{..y} \<subseteq> seen ws"
  show "y \<le> hd ws"
  proof (rule ccontr)
    assume "\<not> y \<le> hd ws"
    then have "hd ws < y" by simp
    then have "hd ws + 1 \<le> y" by (rule inc_le)
    moreover have "hd ws < hd ws + 1" using \<open>hd ws < y\<close> inc_less_eq_triv_imp [of "hd ws"]
      by (metis leI word_order.extremum_strict)
    moreover have "hd ws + 1 \<notin> set ws" using ws by (simp add: window_ok_def)
    ultimately show False using y ws(2) by (auto simp: seen_def)
  qed
qed (auto simp: seen_def)

section \<open>The contract\<close>

text \<open>
  An acknowledgement window collects transaction numbers. The first one counts for everything
  below it, and \<open>front\<close> is the greatest number below which nothing is missing.
\<close>

locale ack_window =
  fixes ok :: "'w \<Rightarrow> bool" and empty :: 'w and seen :: "'w \<Rightarrow> xid_t set"
    and front :: "'w \<Rightarrow> xid_t" and update :: "xid_t \<Rightarrow> 'w \<Rightarrow> 'w"
  assumes ok_empty: "ok empty"
    and ok_update: "ok w \<Longrightarrow> ok (update x w)"
    and seen_new: "seen empty = {}"
    and seen_update: "ok w \<Longrightarrow> seen (update x w) = (if seen w = {} then {..x} else insert x (seen w))"
    and front_max: "ok w \<Longrightarrow> seen w \<noteq> {} \<Longrightarrow> {..y} \<subseteq> seen w \<longleftrightarrow> y \<le> front w"
    and front_new: "front empty = 0"
begin

lemma ok_run: "ok w \<Longrightarrow> ok (fold update xs w)"
  by (induction xs arbitrary: w) (auto intro: ok_update)

lemma seen_run: "ok w \<Longrightarrow> seen w \<noteq> {} \<Longrightarrow> seen (fold update xs w) = seen w \<union> set xs"
  by (induction xs arbitrary: w) (auto simp: seen_update ok_update)

lemma seen_run_new: "seen (fold update (b # xs) empty) = {..b} \<union> set xs"
  by (simp add: seen_run ok_update ok_empty seen_update seen_new)

text \<open>What is acknowledged after the replies \<open>b\<close>, \<open>xs\<close>, in the order of their arrival.\<close>

lemma front_run: "x \<le> front (fold update (b # xs) empty) \<longleftrightarrow> {b<..x} \<subseteq> set xs"
proof -
  let ?w = "fold update (b # xs) empty"
  have s: "seen ?w = {..b} \<union> set xs" by (rule seen_run_new)
  have "ok ?w" by (rule ok_run [OF ok_empty])
  moreover have "seen ?w \<noteq> {}" unfolding s by auto
  ultimately have "x \<le> front ?w \<longleftrightarrow> {..x} \<subseteq> {..b} \<union> set xs"
    using front_max [of ?w x] s by simp
  also have "\<dots> \<longleftrightarrow> {b<..x} \<subseteq> set xs" by (fastforce simp: subset_iff not_le)
  finally show ?thesis .
qed

text \<open>The acknowledgement depends on the first reply and on the set of the others only.\<close>

lemma front_run_cong:
  assumes "set xs = set ys"
  shows "front (fold update (b # xs) empty) = front (fold update (b # ys) empty)"
  using front_run [of _ b xs] front_run [of _ b ys] assms by (metis order_antisym order_refl)

lemma front_mono: "ok w \<Longrightarrow> seen w \<noteq> {} \<Longrightarrow> front w \<le> front (update x w)"
  using front_max [of w "front w"] front_max [of "update x w" "front w"]
  by (auto simp: seen_update ok_update split: if_splits)

end

interpretation xw: ack_window window_ok "[]" seen received_xid UpdateXidRep
proof unfold_locales
  show "window_ok []" "seen [] = {}" "received_xid [] = 0"
    by (simp_all add: window_ok_def seen_def received_xid_def)
qed (auto simp: window_ok_UpdateXidRep seen_UpdateXidRep seen_empty seen_front received_xid_def)

lemma received_xid_mono: "window_ok ws \<Longrightarrow> received_xid ws \<le> received_xid (UpdateXidRep x ws)"
  by (cases "ws = []") (simp_all add: received_xid_def [of "[]"] seen_empty xw.front_mono)

section \<open>Properties\<close>

text \<open>
  C13: after the first received reply \<open>b\<close> and further replies \<open>xs\<close>, in whatever order and with
  whatever repetitions they arrive, the client acknowledges exactly the transactions \<open>x\<close> for
  which every number in \<open>(b, x]\<close> is among \<open>xs\<close>. Above \<open>b\<close> nothing is acknowledged before its
  reply has come; below \<open>b\<close> everything is, received or not.
\<close>

theorem acknowledged_iff:
  "x \<le> received_xid (fold UpdateXidRep (b # xs) []) \<longleftrightarrow> {b<..x} \<subseteq> set xs"
  by (rule xw.front_run)

text \<open>
  The window stays sorted and the successor of its front is never in it, so the compression
  has removed every run that starts at the front. The order and repetition of the replies after
  the first do not matter to the acknowledgement.
\<close>

theorem window_invariant:
  assumes "set xs = set ys"
  shows "window_ok (fold UpdateXidRep zs []) \<and>
    received_xid (fold UpdateXidRep (b # xs) []) = received_xid (fold UpdateXidRep (b # ys) [])"
  using assms xw.ok_run [OF xw.ok_empty] xw.front_run_cong by blast

theorem window_invariant_witness:
  "window_ok (fold UpdateXidRep [3, 5, 4] []) \<and>
    received_xid (fold UpdateXidRep [2, 5, 4, 3] []) =
    received_xid (fold UpdateXidRep [2, 3, 3, 4, 5] [])"
  by (rule window_invariant [of "[5, 4, 3]" "[3, 3, 4, 5]" "[3, 5, 4]" 2]) auto

end
