(* ===== verification/Rpc_Client.thy ===== *)
theory Rpc_Client
  imports Marshall Xid_Window
begin

text \<open>
  \<open>RpcClient\<close> (\<open>src/include/rpc/rpc_client.h\<close>, \<open>src/rpc/rpc_client.cpp\<close>). The \<open>Caller\<close> objects
  live in an explicit heap, because timers, completion callbacks and \<open>Call\<close> itself keep raw
  pointers to them while \<open>GotPdu\<close> destroys them: a use of a destroyed one is
  \<open>Undefined_behaviour\<close>. Every callback is a function from the client state to the new state
  and the operations it starts, composed of the sections that run between its locks.
\<close>

section \<open>State\<close>

text \<open>
  \<open>std::any\<close>: empty, the nonce that \<open>Bind\<close> expects, or a value of the application's type.
\<close>

datatype 'r any = Empty | Any_uint32 nonce_t | Any_value 'r

fun any_cast_uint32 :: "'r any \<Rightarrow> nonce_t res" where
  "any_cast_uint32 (Any_uint32 w) = ret w"
| "any_cast_uint32 _ = throw Bad_any_cast"

text \<open>\<open>ReplyExtractor\<close> for a reply type with conversion \<open>conv\<close>, packed by \<open>inj\<close>.\<close>

type_synonym 'r extractor = "unmarshall \<Rightarrow> 'r any res"

definition ReplyExtractor :: "(json \<Rightarrow> 'a res) \<Rightarrow> ('a \<Rightarrow> 'r any) \<Rightarrow> 'r extractor" where
  "ReplyExtractor conv pack u = bind_res (Unmarshall_get conv u) (\<lambda>(r, _). ret (pack r))"

text \<open>The callback of a call: the lambda of \<open>Bind\<close>, or one of the application's, by number.\<close>

datatype callback = Bind_callback | User nat

type_synonym caller_ptr = nat   \<comment> \<open>the identity of a \<open>Caller\<close> object\<close>

record 'r Caller =
  c_done :: bool
  c_xid :: xid_t
  c_err :: Err
  c_cb :: callback
  c_re :: "'r extractor"
  c_timer :: int            \<comment> \<open>milliseconds of the deadline timer\<close>
  c_buf :: string

record 'r client =
  next_xid :: xid_t                            \<comment> \<open>\<open>xid_\<close>\<close>
  callers :: "xid_t \<Rightarrow> caller_ptr option"        \<comment> \<open>\<open>callers_\<close>\<close>
  heap :: "caller_ptr \<Rightarrow> 'r Caller option"       \<comment> \<open>the live \<open>Caller\<close> objects\<close>
  fresh :: caller_ptr                           \<comment> \<open>the next object to be allocated\<close>
  cl_nonce :: nonce_t                          \<comment> \<open>\<open>clt_nonce_\<close>\<close>
  cl_srv_nonce :: nonce_t                      \<comment> \<open>\<open>srv_nonce_\<close>\<close>
  bind_done :: bool                            \<comment> \<open>\<open>bind_done_\<close>\<close>
  rep_window :: "xid_t list"                   \<comment> \<open>\<open>xid_rep_window_\<close>\<close>
  host :: string
  port :: string
  num_workers :: nat                           \<comment> \<open>\<open>num_worker_\<close>\<close>
  connected :: bool                            \<comment> \<open>\<open>connected_\<close>\<close>

text \<open>
  Operations started: a send completes with \<open>OnSendFinished\<close> for the transaction, the first
  connect with \<open>OnConnected\<close>, a later one with the lambda of \<open>OnSendFinished\<close>.
\<close>

datatype 'r call_effect =
    SendTo string xid_t
  | ReceiveFrom
  | ConnectFirst string string
  | Reconnect string string caller_ptr
  | ArmTimer caller_ptr int
  | Invoke callback "'r any" Err            \<comment> \<open>\<open>cb_(reply, err)\<close> is called\<close>
  | SleepMs int
  | RunClientWorkers nat
  | CloseClientSocket
  | StopClientContext
  | JoinClientWorkers

section \<open>Construction\<close>

definition RpcClient_new ::
  "bool \<Rightarrow> bool \<Rightarrow> string \<Rightarrow> string \<Rightarrow> nat \<Rightarrow> bool \<Rightarrow> 64 word \<Rightarrow> 'r client res" where
  "RpcClient_new ctx socket h p workers retrans rnd =
     (let nonce = (if retrans then ucast rnd else 0) in
      if \<not> socket \<or> \<not> ctx then throw (Runtime_error ''RpcClient constructor: null socket or ctx'')
      else ret \<lparr>next_xid = 2, callers = Map.empty, heap = Map.empty, fresh = 0, cl_nonce = nonce,
                cl_srv_nonce = 0, bind_done = False, rep_window = [], host = h, port = p,
                num_workers = workers, connected = False\<rparr>)"

definition RpcClient_destroy :: "'r call_effect list" where
  "RpcClient_destroy = [CloseClientSocket, StopClientContext, JoinClientWorkers]"

definition HasBinded :: "'r client \<Rightarrow> bool" where
  "HasBinded v = bind_done v"

text \<open>\<open>WaitUntilConnected\<close>, by the state at the end of the wait.\<close>

definition WaitUntilConnected :: "'r client \<Rightarrow> unit res" where
  "WaitUntilConnected v =
     (if connected v then ret ()
      else throw (Runtime_error ''timeout waiting for connecting to server''))"

definition ListenFromServer :: "'r call_effect list" where
  "ListenFromServer = [ReceiveFrom]"

definition ConnectToServer :: "'r client \<Rightarrow> 'r call_effect list" where
  "ConnectToServer v = [ConnectFirst (host v) (port v), RunClientWorkers (num_workers v)]"

text \<open>The callback of the first connect, with \<open>OnConnected\<close>.\<close>

definition OnConnected :: "Err \<Rightarrow> 'r client \<Rightarrow> 'r call_effect list res \<times> 'r client" where
  "OnConnected e v =
     (if e \<noteq> OK then (throw (Runtime_error ''cannot connect to server''), v)
      else (ret ListenFromServer, v\<lparr>connected := True\<rparr>))"

section \<open>Calls\<close>

text \<open>The destruction of a \<open>Caller\<close>.\<close>

definition free :: "caller_ptr \<Rightarrow> 'r client \<Rightarrow> 'r client" where
  "free p v = v\<lparr>heap := (heap v)(p := None)\<rparr>"

definition update_caller ::
  "caller_ptr \<Rightarrow> ('r Caller \<Rightarrow> 'r Caller) \<Rightarrow> 'r client \<Rightarrow> 'r client" where
  "update_caller p f v = v\<lparr>heap := (heap v)(p := map_option f (heap v p))\<rparr>"

definition Caller_new :: "xid_t \<Rightarrow> callback \<Rightarrow> 'r extractor \<Rightarrow> int \<Rightarrow> 'r Caller" where
  [simp]: "Caller_new xid cb re deadline_timer =
     \<lparr>c_done = False, c_xid = xid, c_err = OK, c_cb = cb, c_re = re, c_timer = deadline_timer, c_buf = []\<rparr>"

text \<open>
  Under \<open>callers_mu_\<close>: the check of the binding, the transaction number, the entry in
  \<open>callers_\<close> (which destroys the object it replaces). A refused call drops its \<open>Caller\<close>.
\<close>

definition call_register ::
  "proc_t \<Rightarrow> callback \<Rightarrow> 'r extractor \<Rightarrow> TimeOut \<Rightarrow> 'r client \<Rightarrow>
     caller_ptr option \<times> 'r client" where
  "call_register proc cb re to v =
     (if (proc \<noteq> BIND \<and> \<not> bind_done v) \<or> (proc = BIND \<and> bind_done v) then (None, v)
      else
        let p = fresh v; x = next_xid v;
            v1 = (case callers v x of None \<Rightarrow> v | Some q \<Rightarrow> free q v)
        in (Some p,
            v1\<lparr>next_xid := x + 1, fresh := Suc p, callers := (callers v1)(x \<mapsto> p),
               heap := (heap v1)(p \<mapsto> (Caller_new 0 cb re (ms to))\<lparr>c_xid := x\<rparr>)\<rparr>))"

text \<open>The header with the acknowledged transaction, the packet, the send.\<close>

definition call_send ::
  "codec \<Rightarrow> proc_t \<Rightarrow> marshall \<Rightarrow> caller_ptr \<Rightarrow> 'r client \<Rightarrow>
     'r call_effect list res \<times> 'r client" where
  "call_send c proc req p v =
     (case heap v p of
        None \<Rightarrow> (throw Undefined_behaviour, v)
      | Some k \<Rightarrow>
          (case bind_res (Marshall_put_req
                   \<lparr>req_xid = c_xid k, req_proc = proc, req_clt_nonce = cl_nonce v,
                    req_srv_nonce = cl_srv_nonce v, req_xid_rep = received_xid (rep_window v)\<rparr> req)
                 (Marshall_Buf c) of
             Inl e \<Rightarrow> (throw e, v)
           | Inr b \<Rightarrow> (ret [SendTo b (c_xid k)], update_caller p (\<lambda>k. k\<lparr>c_buf := b\<rparr>) v)))"

text \<open>\<open>timer_ptr->Wait(..)\<close>, on the timer that the \<open>Caller\<close> owns.\<close>

definition call_wait :: "caller_ptr \<Rightarrow> 'r client \<Rightarrow> 'r call_effect list res" where
  "call_wait p v =
     (case heap v p of
        None \<Rightarrow> throw Undefined_behaviour
      | Some k \<Rightarrow> ret [ArmTimer p (c_timer k)])"

definition Call ::
  "codec \<Rightarrow> proc_t \<Rightarrow> marshall \<Rightarrow> callback \<Rightarrow> 'r extractor \<Rightarrow> TimeOut \<Rightarrow> 'r client \<Rightarrow>
     (Err \<times> 'r call_effect list) res \<times> 'r client" where
  "Call c proc req cb re to v =
     (case call_register proc cb re to v of
        (None, v') \<Rightarrow> (ret (BIND_FAILURE, []), v')
      | (Some p, v1) \<Rightarrow>
          (case call_send c proc req p v1 of
             (Inl e, v2) \<Rightarrow> (throw e, v2)
           | (Inr es, v2) \<Rightarrow>
               (bind_res (call_wait p v2) (\<lambda>es'. ret (OK, es @ es')), v2)))"

text \<open>The template \<open>Call<Args, Reply>\<close>: \<open>args\<close> is converted by the caller's \<open>to_json\<close>.\<close>

definition Call_args ::
  "codec \<Rightarrow> proc_t \<Rightarrow> json \<Rightarrow> (json \<Rightarrow> 'a res) \<Rightarrow> ('a \<Rightarrow> 'r any) \<Rightarrow> callback \<Rightarrow> TimeOut \<Rightarrow>
     'r client \<Rightarrow> (Err \<times> 'r call_effect list) res \<times> 'r client" where
  "Call_args c proc args conv pack cb to v =
     (case Marshall_put args Marshall_new of
        Inl e \<Rightarrow> (throw e, v)
      | Inr m \<Rightarrow> Call c proc m cb (ReplyExtractor conv pack) to v)"

text \<open>\<open>Bind\<close> does not look at the result of its \<open>Call\<close>.\<close>

definition Bind_client ::
  "codec \<Rightarrow> TimeOut \<Rightarrow> 'r client \<Rightarrow> (Err \<times> 'r call_effect list) res \<times> 'r client" where
  "Bind_client c to v =
     (case Call_args c BIND (json_of_int32 0) get_uint32 Any_uint32 Bind_callback to v of
        (Inl e, v') \<Rightarrow> (throw e, v')
      | (Inr (_, es), v') \<Rightarrow> (ret (OK, es), v'))"

text \<open>
  Running the callback of a call. The call of \<open>cb_\<close> is the first operation of the result; for an
  application's callback it is the only one, the lambda of \<open>Bind\<close> follows with its own.
\<close>

definition run_callback ::
  "codec \<Rightarrow> callback \<Rightarrow> 'r any \<Rightarrow> Err \<Rightarrow> 'r client \<Rightarrow> 'r call_effect list res \<times> 'r client" where
  "run_callback c cb reply e v =
     (case cb of
        User n \<Rightarrow> (ret [Invoke cb reply e], v)
      | Bind_callback \<Rightarrow>
          (if e \<noteq> OK then
             (case Bind_client c kToMax v of
                (Inl x, v') \<Rightarrow> (throw x, v')
              | (Inr (_, es), v') \<Rightarrow> (ret (Invoke cb reply e # SleepMs 200 # es), v'))
           else
             (case any_cast_uint32 reply of
                Inl x \<Rightarrow> (throw x, v)
              | Inr w \<Rightarrow> (ret [Invoke cb reply e], v\<lparr>cl_srv_nonce := w, bind_done := True\<rparr>))))"

section \<open>Replies\<close>

text \<open>The sections of \<open>GotPdu\<close>: read the header, note the transaction, take the caller.\<close>

definition got_read :: "codec \<Rightarrow> string \<Rightarrow> (unmarshall \<times> ReplyHeader) res" where
  "got_read c buf =
     bind_res (Unmarshall_of c buf) (\<lambda>u.
     bind_res (Unmarshall_get_rep u) (\<lambda>h. ret (u, h)))"

definition got_update :: "ReplyHeader \<Rightarrow> 'r client \<Rightarrow> 'r client" where
  "got_update h v = v\<lparr>rep_window := UpdateXidRep (rep_xid h) (rep_window v)\<rparr>"

definition got_take :: "ReplyHeader \<Rightarrow> 'r client \<Rightarrow> caller_ptr option \<times> 'r client" where
  "got_take h v =
     (case callers v (rep_xid h) of
        None \<Rightarrow> (None, v)
      | Some p \<Rightarrow> (Some p, v\<lparr>callers := (callers v)(rep_xid h := None)\<rparr>))"

text \<open>Under the mutex of the caller. A caller that is done already is destroyed at once.\<close>

definition got_mark :: "ReplyHeader \<Rightarrow> caller_ptr \<Rightarrow> 'r client \<Rightarrow> bool res \<times> 'r client" where
  "got_mark h p v =
     (case heap v p of
        None \<Rightarrow> (throw Undefined_behaviour, v)
      | Some k \<Rightarrow>
          (if \<not> c_done k then
             (ret True, update_caller p (\<lambda>k. k\<lparr>c_err := rep_err h, c_done := True\<rparr>) v)
           else (ret False, free p v)))"

text \<open>The reply is extracted whatever its error code; \<open>c\<close> is destroyed at the end of the scope.\<close>

definition got_deliver ::
  "codec \<Rightarrow> unmarshall \<Rightarrow> ReplyHeader \<Rightarrow> caller_ptr \<Rightarrow> 'r client \<Rightarrow>
     'r call_effect list res \<times> 'r client" where
  "got_deliver c u h p v =
     (case heap v p of
        None \<Rightarrow> (throw Undefined_behaviour, v)
      | Some k \<Rightarrow>
          (case c_re k u of
             Inl x \<Rightarrow> (throw x, free p v)
           | Inr r \<Rightarrow>
               (case run_callback c (c_cb k) r (rep_err h) v of
                  (es, v') \<Rightarrow> (es, free p v'))))"

definition GotPdu :: "codec \<Rightarrow> string \<Rightarrow> 'r client \<Rightarrow> 'r call_effect list res \<times> 'r client" where
  "GotPdu c buf v =
     (case got_read c buf of
        Inl x \<Rightarrow> (throw x, v)
      | Inr (u, h) \<Rightarrow>
          (case got_take h (got_update h v) of
             (None, v1) \<Rightarrow> (ret [], v1)
           | (Some p, v1) \<Rightarrow>
               (case got_mark h p v1 of
                  (Inl x, v2) \<Rightarrow> (throw x, v2)
                | (Inr True, v2) \<Rightarrow> got_deliver c u h p v2
                | (Inr False, v2) \<Rightarrow> (ret [], v2))))"

definition OnReceiveFinished_client ::
  "codec \<Rightarrow> string \<Rightarrow> nat \<Rightarrow> Err \<Rightarrow> 'r client \<Rightarrow> 'r call_effect list res \<times> 'r client" where
  "OnReceiveFinished_client c data n e v =
     (if e = CANCEL then (ret [], v)
      else if e \<noteq> OK then (ret [], v)
      else GotPdu c (resize n data) v)"

section \<open>Timers and sends\<close>

text \<open>
  The handler of the timer. The code unlocks the caller before it sends again; unlock and send are
  one section here.
\<close>

definition OnTimerExpired ::
  "codec \<Rightarrow> caller_ptr option \<Rightarrow> Err \<Rightarrow> 'r client \<Rightarrow> 'r call_effect list res \<times> 'r client" where
  "OnTimerExpired c ptr e v =
     (case ptr of
        None \<Rightarrow> (ret [], v)
      | Some p \<Rightarrow>
          (case heap v p of
             None \<Rightarrow> (throw Undefined_behaviour, v)
           | Some k \<Rightarrow>
               (if \<not> c_done k then
                  (if cl_nonce v = 0 then
                     run_callback c (c_cb k) Empty TIMEOUT_FAILURE
                       (update_caller p (\<lambda>k. k\<lparr>c_done := True, c_err := TIMEOUT_FAILURE\<rparr>) v)
                   else (ret [SendTo (c_buf k) (c_xid k)], v))
                else (ret [], v))))"

text \<open>
  \<open>OnSendFinished\<close> for a send that failed, after the lookup: a client with a nonce sends
  again, after a new connect for a broken pipe; a client without one gives up the call.
\<close>

definition fail_retry :: "caller_ptr \<Rightarrow> Err \<Rightarrow> 'r client \<Rightarrow> 'r call_effect list res" where
  "fail_retry p e v =
     (if e = BROKEN_PIPE then ret [Reconnect (host v) (port v) p]
      else
        (case heap v p of
           None \<Rightarrow> throw Undefined_behaviour
         | Some k \<Rightarrow> ret [SendTo (c_buf k) (c_xid k)]))"

definition fail_mark :: "caller_ptr \<Rightarrow> Err \<Rightarrow> 'r client \<Rightarrow> unit res \<times> 'r client" where
  "fail_mark p e v =
     (case heap v p of
        None \<Rightarrow> (throw Undefined_behaviour, v)
      | Some k \<Rightarrow> (ret (), update_caller p (\<lambda>k. k\<lparr>c_done := True, c_err := e\<rparr>) v))"

definition fail_deliver ::
  "codec \<Rightarrow> caller_ptr \<Rightarrow> Err \<Rightarrow> 'r client \<Rightarrow> 'r call_effect list res \<times> 'r client" where
  "fail_deliver c p e v =
     (case heap v p of
        None \<Rightarrow> (throw Undefined_behaviour, v)
      | Some k \<Rightarrow> run_callback c (c_cb k) Empty e v)"

definition OnSendFinished_client ::
  "codec \<Rightarrow> xid_t \<Rightarrow> nat \<Rightarrow> Err \<Rightarrow> 'r client \<Rightarrow> 'r call_effect list res \<times> 'r client" where
  "OnSendFinished_client c xid n e v =
     (if e \<noteq> OK then
        (case callers v xid of
           None \<Rightarrow> (ret [], v)
         | Some p \<Rightarrow>
             (if cl_nonce v > 0 then (fail_retry p e v, v)
              else
                (case fail_mark p e v of
                   (Inl x, v1) \<Rightarrow> (throw x, v1)
                 | (Inr _, v1) \<Rightarrow> fail_deliver c p e v1)))
      else (ret ListenFromServer, v))"

text \<open>The callback of the connect that \<open>OnSendFinished\<close> starts.\<close>

definition OnReconnected ::
  "caller_ptr \<Rightarrow> Err \<Rightarrow> 'r client \<Rightarrow> 'r call_effect list res" where
  "OnReconnected p e v =
     (if e \<noteq> OK then throw (Runtime_error ''cannot connect to server'')
      else
        (case heap v p of
           None \<Rightarrow> throw Undefined_behaviour
         | Some k \<Rightarrow> ret [SendTo (c_buf k) (c_xid k)]))"

section \<open>The client invariant\<close>

text \<open>
  An entry of \<open>callers_\<close> points to a live object that carries the transaction of the entry, the
  objects come from the allocator, and the window is in order.
\<close>

definition client_ok :: "'r client \<Rightarrow> bool" where
  "client_ok v \<longleftrightarrow>
     (\<forall>x p. callers v x = Some p \<longrightarrow> (\<exists>k. heap v p = Some k \<and> c_xid k = x)) \<and>
     (\<forall>p. heap v p \<noteq> None \<longrightarrow> p < fresh v) \<and> window_ok (rep_window v)"

lemma client_okD:
  assumes "client_ok v"
  shows "callers v x = Some p \<Longrightarrow> \<exists>k. heap v p = Some k \<and> c_xid k = x"
    and "heap v p = Some k \<Longrightarrow> p < fresh v" and "fresh v \<le> p \<Longrightarrow> heap v p = None"
    and "window_ok (rep_window v)"
  using assms by (auto simp: client_ok_def not_less [symmetric])

lemma callers_inj:
  "client_ok v \<Longrightarrow> callers v x = Some p \<Longrightarrow> callers v y = Some p \<Longrightarrow> x = y"
  by (metis client_okD(1) option.inject)

lemma callers_bound: "client_ok v \<Longrightarrow> callers v x = Some p \<Longrightarrow> p < fresh v"
  by (metis client_okD(1,2))

lemma client_ok_new: "RpcClient_new a b h q w r rnd = ret v \<Longrightarrow> client_ok v"
  by (auto simp: RpcClient_new_def client_ok_def window_ok_def Let_def split: if_splits)

lemma RpcClient_newD:
  assumes "RpcClient_new a b h q w r rnd = ret v"
  shows "callers v = Map.empty" and "heap v = Map.empty" and "rep_window v = []"
    and "next_xid v = 2" and "fresh v = 0" and "\<not> bind_done v"
  using assms by (auto simp: RpcClient_new_def Let_def split: if_splits)

lemma free_simps [simp]:
  "heap (free p v) q = (if q = p then None else heap v q)" "callers (free p v) = callers v"
  "fresh (free p v) = fresh v" "rep_window (free p v) = rep_window v"
  "next_xid (free p v) = next_xid v" "cl_nonce (free p v) = cl_nonce v"
  "cl_srv_nonce (free p v) = cl_srv_nonce v" "bind_done (free p v) = bind_done v"
  by (simp_all add: free_def)

lemma update_caller_simps [simp]:
  "heap (update_caller p f v) q = (if q = p then map_option f (heap v p) else heap v q)"
  "callers (update_caller p f v) = callers v" "fresh (update_caller p f v) = fresh v"
  "rep_window (update_caller p f v) = rep_window v" "next_xid (update_caller p f v) = next_xid v"
  "cl_nonce (update_caller p f v) = cl_nonce v"
  "cl_srv_nonce (update_caller p f v) = cl_srv_nonce v"
  "bind_done (update_caller p f v) = bind_done v"
  "host (update_caller p f v) = host v" "port (update_caller p f v) = port v"
  by (simp_all add: update_caller_def)

lemma client_ok_free [inv_intros]:
  "client_ok v \<Longrightarrow> p \<notin> ran (callers v) \<Longrightarrow> client_ok (free p v)"
  by (auto simp: client_ok_def ran_def)

lemma client_ok_update [inv_intros]:
  "client_ok v \<Longrightarrow> (\<And>k. c_xid (f k) = c_xid k) \<Longrightarrow> client_ok (update_caller p f v)"
  unfolding client_ok_def update_caller_simps
  by (metis (no_types, lifting) option.map_disc_iff option.simps(9))

lemma client_ok_window [inv_intros]: "client_ok v \<Longrightarrow> client_ok (got_update h v)"
  by (auto simp: client_ok_def got_update_def intro: window_ok_UpdateXidRep)

lemma call_register_None: "call_register proc cb re to v = (None, v') \<Longrightarrow> v' = v"
  by (auto simp: call_register_def Let_def split: if_splits)

lemma call_register_Some:
  assumes "call_register proc cb re to v = (Some p, v')" and "client_ok v"
  shows "p = fresh v" and "fresh v' = Suc p" and "next_xid v' = next_xid v + 1"
    and "callers v' = (callers v)(next_xid v \<mapsto> p)"
    and "heap v' p = Some \<lparr>c_done = False, c_xid = next_xid v, c_err = OK, c_cb = cb, c_re = re,
                          c_timer = ms to, c_buf = []\<rparr>"
    and "q \<noteq> p \<Longrightarrow> heap v' q = (if callers v (next_xid v) = Some q then None else heap v q)"
    and "rep_window v' = rep_window v" and "cl_nonce v' = cl_nonce v"
    and "cl_srv_nonce v' = cl_srv_nonce v" and "bind_done v' = bind_done v"
  using assms by (auto simp: call_register_def Let_def split: if_splits option.splits)

lemma client_ok_register [inv_intros]:
  assumes "call_register proc cb re to v = (r, v')" and "client_ok v"
  shows "client_ok v'"
proof (cases r)
  case None
  with assms call_register_None show ?thesis by blast
next
  case (Some p)
  note reg = call_register_Some [OF assms(1) [unfolded Some] assms(2)]
  show ?thesis unfolding client_ok_def
  proof (intro conjI allI impI)
    fix x q assume "callers v' x = Some q"
    then show "\<exists>k. heap v' q = Some k \<and> c_xid k = x"
      using reg client_okD [OF assms(2)] callers_inj [OF assms(2)]
      by (cases "x = next_xid v") (fastforce simp: reg(4) split: if_splits dest: callers_bound)+
  next
    fix q assume "heap v' q \<noteq> None"
    then show "q < fresh v'"
      using reg(1,2,6) client_okD(2) [OF assms(2), of q] by (cases "q = p") (auto split: if_splits)
  qed (simp add: reg(7) client_okD(4) [OF assms(2)])
qed

lemma call_sendD:
  assumes "call_send c proc req p v = (r, v')"
  shows "v' = v \<or> (\<exists>b. v' = update_caller p (\<lambda>k. k\<lparr>c_buf := b\<rparr>) v)"
  using assms by (auto simp: call_send_def split: option.splits sum.splits)

lemma client_ok_send [inv_intros]:
  "call_send c proc req p v = (r, v') \<Longrightarrow> client_ok v \<Longrightarrow> client_ok v'"
  using call_sendD by (fastforce intro: client_ok_update)

lemma client_ok_Call [inv_intros]:
  "Call c proc req cb re to v = (r, v') \<Longrightarrow> client_ok v \<Longrightarrow> client_ok v'"
  by (auto simp: Call_def split: prod.splits option.splits sum.splits
      intro: client_ok_register client_ok_send)

lemma client_ok_Bind [inv_intros]:
  "Bind_client c to v = (r, v') \<Longrightarrow> client_ok v \<Longrightarrow> client_ok v'"
  by (auto simp: Bind_client_def Call_args_def split: prod.splits sum.splits intro: client_ok_Call)

lemma client_ok_callback [inv_intros]:
  assumes "run_callback c cb r e v = (es, v')" and "client_ok v"
  shows "client_ok v'"
proof (cases "cb = Bind_callback \<and> e \<noteq> OK")
  case True
  obtain b v1 where "Bind_client c kToMax v = (b, v1)" by fastforce
  with True assms(1) have "v' = v1" by (auto simp: run_callback_def split: sum.splits)
  with \<open>Bind_client c kToMax v = (b, v1)\<close> assms(2) show ?thesis by (auto intro: client_ok_Bind)
next
  case False
  then have "v' = v \<or> (\<exists>w. v' = v\<lparr>cl_srv_nonce := w, bind_done := True\<rparr>)"
    using assms(1) by (cases cb) (auto simp: run_callback_def split: sum.splits)
  with assms(2) show ?thesis by (auto simp: client_ok_def)
qed

lemma got_takeD:
  assumes "got_take h v = (Some p, v')"
  shows "callers v (rep_xid h) = Some p" and "v' = v\<lparr>callers := (callers v)(rep_xid h := None)\<rparr>"
  using assms by (auto simp: got_take_def split: option.splits)

lemma client_ok_take [inv_intros]: "got_take h v = (r, v') \<Longrightarrow> client_ok v \<Longrightarrow> client_ok v'"
  by (auto simp: got_take_def client_ok_def split: option.splits if_splits)

lemma got_take_not_ran:
  assumes "got_take h v = (Some p, v')" and "client_ok v"
  shows "p \<notin> ran (callers v')"
  using got_takeD [OF assms(1)] callers_inj [OF assms(2)] by (auto simp: ran_def)

lemma client_ok_mark [inv_intros]:
  "got_mark h p v = (r, v') \<Longrightarrow> client_ok v \<Longrightarrow> p \<notin> ran (callers v) \<Longrightarrow> client_ok v'"
  by (auto simp: got_mark_def split: option.splits if_splits intro: inv_intros)

text \<open>A callback, and so a nested \<open>Bind\<close>, adds at most one caller.\<close>

lemma Call_extends:
  assumes "Call c proc req cb re to v = (r, v')" and "client_ok v"
  shows "v' = v \<or> (fresh v' = Suc (fresh v) \<and> callers v' = (callers v)(next_xid v \<mapsto> fresh v) \<and>
    (\<forall>q. q \<noteq> fresh v \<longrightarrow>
       heap v' q = (if callers v (next_xid v) = Some q then None else heap v q)))"
proof (cases "call_register proc cb re to v")
  case (Pair o1 v1)
  show ?thesis
  proof (cases o1)
    case None
    with Pair assms(1) call_register_None show ?thesis by (fastforce simp: Call_def)
  next
    case (Some p)
    note reg = call_register_Some [OF Pair [unfolded Some] assms(2)]
    obtain r2 v2 where s: "call_send c proc req p v1 = (r2, v2)" by fastforce
    with assms(1) Pair Some have "v' = v2" by (auto simp: Call_def split: sum.splits)
    with call_sendD [OF s] reg show ?thesis by auto
  qed
qed

section \<open>What the operations do on each branch\<close>

text \<open>A call that the binding admits: one packet, one timer, one caller.\<close>

definition admits :: "proc_t \<Rightarrow> 'r client \<Rightarrow> bool" where
  "admits proc v \<longleftrightarrow> (proc = BIND \<longleftrightarrow> \<not> bind_done v)"

definition next_header :: "proc_t \<Rightarrow> 'r client \<Rightarrow> RequestHeader" where
  "next_header proc v =
     \<lparr>req_xid = next_xid v, req_proc = proc, req_clt_nonce = cl_nonce v,
      req_srv_nonce = cl_srv_nonce v, req_xid_rep = received_xid (rep_window v)\<rparr>"

lemma call_register_cases:
  assumes "client_ok v"
  shows "admits proc v \<Longrightarrow> \<exists>v1. call_register proc cb re to v = (Some (fresh v), v1)"
    and "\<not> admits proc v \<Longrightarrow> call_register proc cb re to v = (None, v)"
  by (auto simp: call_register_def admits_def Let_def)

lemma Call_refused:
  "\<not> admits proc v \<Longrightarrow> Call c proc req cb re to v = (ret (BIND_FAILURE, []), v)"
  by (auto simp: Call_def call_register_def admits_def)

lemma Call_args_sends:
  fixes v :: "'r client"
  assumes "wire_ok c" and "client_ok v" and "admits proc v" and "plain t"
  obtains b u v' where
    "Call_args c proc t conv pack cb to v =
       (ret (OK, [SendTo b (next_xid v), ArmTimer (fresh v) (ms to)]), v')"
    and "Unmarshall_of c b = ret u" and "Unmarshall_get_req u = ret (next_header proc v)"
    and "\<And>conv' :: json \<Rightarrow> 'x res. Unmarshall_get conv' u =
           bind_res (conv' (canon t)) (\<lambda>x. ret (x, u\<lparr>un_id := 1\<rparr>))"
    and "client_ok v'" and "callers v' = (callers v)(next_xid v \<mapsto> fresh v)"
    and "heap v' (fresh v) = Some \<lparr>c_done = False, c_xid = next_xid v, c_err = OK, c_cb = cb,
           c_re = ReplyExtractor conv pack, c_timer = ms to, c_buf = b\<rparr>"
    and "rep_window v' = rep_window v" and "cl_nonce v' = cl_nonce v"
    and "cl_srv_nonce v' = cl_srv_nonce v" and "bind_done v' = bind_done v"
    and "next_xid v' = next_xid v + 1" and "fresh v' = Suc (fresh v)"
proof -
  have w: "wire c" using assms(1) by (simp add: wire_def)
  let ?h = "next_header proc v"
  obtain m m' b u where m: "Marshall_put t Marshall_new = ret m" "wf_marshall m"
    "Marshall_put_req ?h m = ret m'" "Marshall_Buf c m' = ret b" "Unmarshall_of c b = ret u"
    "Unmarshall_get_req u = ret ?h"
    and g: "\<And>conv' :: json \<Rightarrow> 'x res. Unmarshall_get conv' u =
           bind_res (conv' (canon t)) (\<lambda>x. ret (x, u\<lparr>un_id := 1\<rparr>))"
    using wire.request_read [OF w assms(4), of ?h] by metis
  let ?re = "ReplyExtractor conv pack :: 'r extractor"
  obtain v1 where r: "call_register proc cb ?re to v = (Some (fresh v), v1)"
    using call_register_cases(1) [OF assms(2,3)] by blast
  note reg = call_register_Some [OF r assms(2)]
  let ?v2 = "update_caller (fresh v) (\<lambda>k. k\<lparr>c_buf := b\<rparr>) v1"
  have "\<lparr>req_xid = next_xid v, req_proc = proc, req_clt_nonce = cl_nonce v1,
      req_srv_nonce = cl_srv_nonce v1, req_xid_rep = received_xid (rep_window v1)\<rparr> = ?h"
    by (simp add: next_header_def reg(7-9))
  then have snd: "call_send c proc m (fresh v) v1 = (ret [SendTo b (next_xid v)], ?v2)"
    using m(3,4) reg(5) by (simp add: call_send_def)
  have "Call c proc m cb ?re to v =
      (ret (OK, [SendTo b (next_xid v), ArmTimer (fresh v) (ms to)]), ?v2)"
    using r snd reg(5) by (simp add: Call_def call_wait_def)
  then have "Call_args c proc t conv pack cb to v =
      (ret (OK, [SendTo b (next_xid v), ArmTimer (fresh v) (ms to)]), ?v2)"
    using m(1) by (simp add: Call_args_def)
  moreover have "client_ok ?v2"
    using client_ok_register [OF r assms(2)] by (rule client_ok_update) simp
  ultimately show thesis
    by (rule that [OF _ m(5,6) g]) (simp_all add: reg(2-5,7-10))
qed

lemma got_read_eq:
  "Unmarshall_of c b = ret u \<Longrightarrow> Unmarshall_get_rep u = ret h \<Longrightarrow> got_read c b = ret (u, h)"
  by (simp add: got_read_def)

text \<open>A reply to a pending call runs its callback once and ends the call.\<close>

lemma GotPdu_reply:
  assumes "got_read c b = ret (u, h)" and "callers v (rep_xid h) = Some p"
    and "heap v p = Some k" and "\<not> c_done k" and "c_cb k = User n" and "c_re k u = ret r"
  obtains v' where "GotPdu c b v = (ret [Invoke (User n) r (rep_err h)], v')"
    and "callers v' = (callers v)(rep_xid h := None)" and "heap v' = (heap v)(p := None)"
    and "rep_window v' = UpdateXidRep (rep_xid h) (rep_window v)"
    and "cl_nonce v' = cl_nonce v" and "next_xid v' = next_xid v"
proof -
  let ?v1 = "(got_update h v)\<lparr>callers := (callers v)(rep_xid h := None)\<rparr>"
  have t: "got_take h (got_update h v) = (Some p, ?v1)"
    using assms(2) by (simp add: got_take_def got_update_def)
  let ?f = "\<lambda>k. k\<lparr>c_err := rep_err h, c_done := True\<rparr>"
  have m: "got_mark h p ?v1 = (ret True, update_caller p ?f ?v1)"
    using assms(3,4) by (simp add: got_mark_def got_update_def)
  have "got_deliver c u h p (update_caller p ?f ?v1) =
      (ret [Invoke (User n) r (rep_err h)], free p (update_caller p ?f ?v1))"
    using assms(3,5,6) by (simp add: got_deliver_def run_callback_def got_update_def)
  then have "GotPdu c b v = (ret [Invoke (User n) r (rep_err h)], free p (update_caller p ?f ?v1))"
    using assms(1) t m by (simp add: GotPdu_def)
  then show thesis
    by (rule that) (auto simp: free_def update_caller_def got_update_def)
qed

text \<open>The reply to \<open>Bind\<close> binds the client.\<close>

lemma GotPdu_bind:
  assumes "got_read c b = ret (u, h)" and "callers v (rep_xid h) = Some p"
    and "heap v p = Some k" and "\<not> c_done k" and "c_cb k = Bind_callback"
    and "c_re k u = ret (Any_uint32 w)" and "rep_err h = OK"
  obtains v' where "GotPdu c b v = (ret [Invoke Bind_callback (Any_uint32 w) OK], v')"
    and "callers v' = (callers v)(rep_xid h := None)" and "bind_done v'"
    and "cl_srv_nonce v' = w" and "rep_window v' = UpdateXidRep (rep_xid h) (rep_window v)"
    and "cl_nonce v' = cl_nonce v" and "next_xid v' = next_xid v"
proof -
  let ?v1 = "(got_update h v)\<lparr>callers := (callers v)(rep_xid h := None)\<rparr>"
  have t: "got_take h (got_update h v) = (Some p, ?v1)"
    using assms(2) by (simp add: got_take_def got_update_def)
  let ?f = "\<lambda>k. k\<lparr>c_err := rep_err h, c_done := True\<rparr>"
  let ?v2 = "update_caller p ?f ?v1"
  have m: "got_mark h p ?v1 = (ret True, ?v2)"
    using assms(3,4) by (simp add: got_mark_def got_update_def)
  have "got_deliver c u h p ?v2 =
      (ret [Invoke Bind_callback (Any_uint32 w) OK], free p (?v2\<lparr>cl_srv_nonce := w, bind_done := True\<rparr>))"
    using assms(3,5-7) by (simp add: got_deliver_def run_callback_def got_update_def)
  then have "GotPdu c b v = (ret [Invoke Bind_callback (Any_uint32 w) OK],
      free p (?v2\<lparr>cl_srv_nonce := w, bind_done := True\<rparr>))"
    using assms(1) t m by (simp add: GotPdu_def)
  then show thesis
    by (rule that) (auto simp: free_def update_caller_def got_update_def)
qed

text \<open>A reply whose value the call cannot read throws; the call is gone, its callback never ran.\<close>

lemma GotPdu_unreadable:
  assumes "got_read c b = ret (u, h)" and "callers v (rep_xid h) = Some p"
    and "heap v p = Some k" and "\<not> c_done k" and "c_re k u = throw x"
  obtains v' where "GotPdu c b v = (throw x, v')"
    and "callers v' = (callers v)(rep_xid h := None)" and "heap v' p = None"
proof -
  let ?v1 = "(got_update h v)\<lparr>callers := (callers v)(rep_xid h := None)\<rparr>"
  have t: "got_take h (got_update h v) = (Some p, ?v1)"
    using assms(2) by (simp add: got_take_def got_update_def)
  let ?f = "\<lambda>k. k\<lparr>c_err := rep_err h, c_done := True\<rparr>"
  have m: "got_mark h p ?v1 = (ret True, update_caller p ?f ?v1)"
    using assms(3,4) by (simp add: got_mark_def got_update_def)
  have "got_deliver c u h p (update_caller p ?f ?v1) =
      (throw x, free p (update_caller p ?f ?v1))"
    using assms(3,5) by (simp add: got_deliver_def got_update_def)
  then have "GotPdu c b v = (throw x, free p (update_caller p ?f ?v1))"
    using assms(1) t m by (simp add: GotPdu_def)
  then show thesis
    by (rule that) (auto simp: free_def update_caller_def got_update_def)
qed

text \<open>A reply to a call that is over, or that was never made, runs nothing.\<close>

lemma GotPdu_late:
  assumes "got_read c b = ret (u, h)" and "callers v (rep_xid h) = Some p"
    and "heap v p = Some k" and "c_done k"
  obtains v' where "GotPdu c b v = (ret [], v')"
    and "callers v' = (callers v)(rep_xid h := None)" and "heap v' p = None"
    and "rep_window v' = UpdateXidRep (rep_xid h) (rep_window v)"
proof -
  let ?v1 = "(got_update h v)\<lparr>callers := (callers v)(rep_xid h := None)\<rparr>"
  have t: "got_take h (got_update h v) = (Some p, ?v1)"
    using assms(2) by (simp add: got_take_def got_update_def)
  have "got_mark h p ?v1 = (ret False, free p ?v1)"
    using assms(3,4) by (simp add: got_mark_def got_update_def)
  then have "GotPdu c b v = (ret [], free p ?v1)"
    using assms(1) t by (simp add: GotPdu_def)
  then show thesis by (rule that) (auto simp: free_def got_update_def)
qed

lemma GotPdu_unknown:
  assumes "got_read c b = ret (u, h)" and "callers v (rep_xid h) = None"
  shows "GotPdu c b v = (ret [], got_update h v)"
  using assms by (simp add: GotPdu_def got_take_def got_update_def)

text \<open>Timers: a client with a nonce sends the very same packet again.\<close>

lemma OnTimerExpired_resends:
  assumes "heap v p = Some k" and "\<not> c_done k" and "cl_nonce v \<noteq> 0"
  shows "OnTimerExpired c (Some p) e v = (ret [SendTo (c_buf k) (c_xid k)], v)"
  using assms by (simp add: OnTimerExpired_def)

lemma OnTimerExpired_gives_up:
  assumes "heap v p = Some k" and "\<not> c_done k" and "cl_nonce v = 0" and "c_cb k = User n"
  shows "OnTimerExpired c (Some p) e v =
           (ret [Invoke (User n) Empty TIMEOUT_FAILURE],
            update_caller p (\<lambda>k. k\<lparr>c_done := True, c_err := TIMEOUT_FAILURE\<rparr>) v)"
  using assms by (simp add: OnTimerExpired_def run_callback_def)

lemma OnSendFinished_gives_up:
  assumes "callers v x = Some p" and "heap v p = Some k" and "c_cb k = User n"
    and "cl_nonce v = 0" and "e \<noteq> OK"
  shows "OnSendFinished_client c x i e v =
           (ret [Invoke (User n) Empty e], update_caller p (\<lambda>k. k\<lparr>c_done := True, c_err := e\<rparr>) v)"
  using assms
  by (simp add: OnSendFinished_client_def fail_mark_def fail_deliver_def run_callback_def)

end
