(* ===== verification/Json_Text.thy ===== *)
theory Json_Text
  imports Marshall
begin

text \<open>
  The text of a JSON value as nlohmann's \<open>dump()\<close> writes it and \<open>parse()\<close> reads it
  (\<open>detail/output/serializer.hpp\<close>, \<open>detail/input/lexer.hpp\<close>, \<open>detail/input/parser.hpp\<close>). The
  decimal form of doubles is the C library's and a parameter. The codec built from the two keeps
  the law of the wire, which makes the packet lemmas of \<open>Marshall\<close> facts about it.
\<close>

section \<open>Writing\<close>

fun sequence_res :: "'a res list \<Rightarrow> 'a list res" where
  "sequence_res [] = ret []"
| "sequence_res (r # rs) = bind_res r (\<lambda>x. bind_res (sequence_res rs) (\<lambda>xs. ret (x # xs)))"

text \<open>The elements of a compound value, separated by commas.\<close>

fun commas :: "string list \<Rightarrow> string" where
  "commas [] = []"
| "commas [s] = s"
| "commas (s # ss) = s @ CHR '','' # commas ss"

definition hex_digit :: "nat \<Rightarrow> char" where
  "hex_digit d = char_of (if d < 10 then 48 + d else 87 + d)"

definition escape :: "char \<Rightarrow> string" where
  "escape c =
     (if c = CHR 0x08 then [CHR 0x5C, CHR ''b'']
      else if c = CHR 0x09 then [CHR 0x5C, CHR ''t'']
      else if c = CHR 0x0A then [CHR 0x5C, CHR ''n'']
      else if c = CHR 0x0C then [CHR 0x5C, CHR ''f'']
      else if c = CHR 0x0D then [CHR 0x5C, CHR ''r'']
      else if c = CHR 0x22 then [CHR 0x5C, CHR 0x22]
      else if c = CHR 0x5C then [CHR 0x5C, CHR 0x5C]
      else if of_char c \<le> (0x1F :: nat)
        then [CHR 0x5C, CHR ''u'', CHR ''0'', CHR ''0'', hex_digit (of_char c div 16),
              hex_digit (of_char c mod 16)]
      else [c])"

text \<open>\<open>dump_escaped\<close> with \<open>ensure_ascii\<close> off and the strict error handler.\<close>

function dump_escaped :: "string \<Rightarrow> string res" where
  "dump_escaped [] = ret []"
| "dump_escaped (c # s) =
     (case utf8_ranges (of_char c) of
        None \<Rightarrow> throw (Json_error 316)
      | Some rs \<Rightarrow>
          (case next_byte_in_range rs s of
             None \<Rightarrow> throw (Json_error 316)
           | Some (t, s') \<Rightarrow> bind_res (dump_escaped s') (\<lambda>o1. ret (escape c @ t @ o1))))"
  by pat_completeness auto
termination
  by (relation "measure length") (auto dest: next_byte_in_range_length)

definition dump_string :: "string \<Rightarrow> string res" where
  "dump_string s = bind_res (dump_escaped s) (\<lambda>o1. ret (CHR 0x22 # o1 @ [CHR 0x22]))"

fun dump_value :: "(64 word \<Rightarrow> string) \<Rightarrow> json \<Rightarrow> string res" where
  "dump_value fl JNull = ret ''null''"
| "dump_value fl (JBool b) = ret (if b then ''true'' else ''false'')"
| "dump_value fl (JInt i) = ret (to_string (sint i))"
| "dump_value fl (JUint u) = ret (to_string (uint u))"
| "dump_value fl (JFloat d) = ret (fl d)"
| "dump_value fl (JStr s) = dump_string s"
| "dump_value fl (JArr js) =
     bind_res (sequence_res (map (dump_value fl) js)) (\<lambda>ss.
     ret (CHR ''['' # commas ss @ [CHR '']'']))"
| "dump_value fl (JObj kvs) =
     bind_res (sequence_res (map (\<lambda>(k, v).
       bind_res (dump_string k) (\<lambda>o1.
       bind_res (dump_value fl v) (\<lambda>o2. ret (o1 @ CHR '':'' # o2)))) kvs)) (\<lambda>ss.
     ret (CHR ''{'' # commas ss @ [CHR ''}'']))"

section \<open>Scanning\<close>

datatype token =
    Begin_array
  | Begin_object
  | End_array
  | End_object
  | Name_separator
  | Value_separator
  | Literal json
  | String string
  | Parse_error

text \<open>\<open>get_codepoint\<close>: four hexadecimal digits.\<close>

definition hex_value :: "char \<Rightarrow> nat option" where
  "hex_value c =
     (let b = of_char c :: nat in
      if 48 \<le> b \<and> b \<le> 57 then Some (b - 0x30)
      else if 65 \<le> b \<and> b \<le> 70 then Some (b - 0x37)
      else if 97 \<le> b \<and> b \<le> 102 then Some (b - 0x57)
      else None)"

fun get_codepoint :: "string \<Rightarrow> (nat \<times> string) option" where
  "get_codepoint (a # b # c # d # s) =
     (case (hex_value a, hex_value b, hex_value c, hex_value d) of
        (Some w, Some x, Some y, Some z) \<Rightarrow> Some (w * 4096 + x * 256 + y * 16 + z, s)
      | _ \<Rightarrow> None)"
| "get_codepoint _ = None"

text \<open>After \<open>\u\<close>: a code point of the basic plane, or a surrogate pair.\<close>

definition scan_unicode :: "string \<Rightarrow> (string \<times> string) option" where
  "scan_unicode s =
     (case get_codepoint s of
        None \<Rightarrow> None
      | Some (c1, s1) \<Rightarrow>
          (if 0xD800 \<le> c1 \<and> c1 \<le> 0xDBFF then
             (case s1 of
                b # u # s2 \<Rightarrow>
                  (if b = CHR 0x5C \<and> u = CHR ''u'' then
                     (case get_codepoint s2 of
                        None \<Rightarrow> None
                      | Some (c2, s3) \<Rightarrow>
                          (if 0xDC00 \<le> c2 \<and> c2 \<le> 0xDFFF
                           then Some (utf8_encode (c1 * 1024 + c2 - 0x35FDC00), s3) else None))
                   else None)
              | _ \<Rightarrow> None)
           else if 0xDC00 \<le> c1 \<and> c1 \<le> 0xDFFF then None
           else Some (utf8_encode c1, s1)))"

text \<open>After a backslash.\<close>

fun scan_escape :: "string \<Rightarrow> (string \<times> string) option" where
  "scan_escape [] = None"
| "scan_escape (c # s) =
     (if c = CHR 0x22 \<or> c = CHR 0x5C \<or> c = CHR ''/'' then Some ([c], s)
      else if c = CHR ''b'' then Some ([CHR 0x08], s)
      else if c = CHR ''f'' then Some ([CHR 0x0C], s)
      else if c = CHR ''n'' then Some ([CHR 0x0A], s)
      else if c = CHR ''r'' then Some ([CHR 0x0D], s)
      else if c = CHR ''t'' then Some ([CHR 0x09], s)
      else if c = CHR ''u'' then scan_unicode s
      else None)"

lemma get_codepoint_length: "get_codepoint s = Some (n, s') \<Longrightarrow> length s' < length s"
  by (cases s rule: get_codepoint.cases) (auto split: option.splits)

lemma scan_unicode_length:
  assumes "scan_unicode s = Some (t, s')"
  shows "length s' < length s"
proof -
  obtain c1 s1 where g: "get_codepoint s = Some (c1, s1)"
    using assms by (auto simp: scan_unicode_def split: option.splits)
  have "length s' \<le> length s1"
    using assms g
    by (auto simp: scan_unicode_def split: if_splits list.splits option.splits prod.splits
        dest!: get_codepoint_length)
  with get_codepoint_length [OF g] show ?thesis by simp
qed

lemma scan_escape_length: "scan_escape s = Some (t, s') \<Longrightarrow> length s' < length s"
  by (cases s) (auto split: if_splits dest: scan_unicode_length)

text \<open>\<open>scan_string\<close>, from after the opening quote: the contents and what follows the closing one.\<close>

function scan_string :: "string \<Rightarrow> (string \<times> string) option" where
  "scan_string [] = None"
| "scan_string (c # s) =
     (if c = CHR 0x22 then Some ([], s)
      else if c = CHR 0x5C then
        (case scan_escape s of
           None \<Rightarrow> None
         | Some (t, s') \<Rightarrow> map_option (apfst ((@) t)) (scan_string s'))
      else if of_char c \<le> (0x1F :: nat) then None
      else
        (case utf8_ranges (of_char c) of
           None \<Rightarrow> None
         | Some rs \<Rightarrow>
             (case next_byte_in_range rs s of
                None \<Rightarrow> None
              | Some (t, s') \<Rightarrow> map_option (apfst ((@) (c # t))) (scan_string s'))))"
  by pat_completeness auto
termination
  by (relation "measure length")
     (auto dest: scan_escape_length next_byte_in_range_length)

lemma scan_string_length: "scan_string s = Some (t, s') \<Longrightarrow> length s' < length s"
  by (induction s arbitrary: t rule: scan_string.induct)
     (auto split: if_splits option.splits dest: scan_escape_length next_byte_in_range_length,
      (fastforce dest: scan_escape_length next_byte_in_range_length)+)

text \<open>
  \<open>scan_number\<close>, one function for each of its states: the bytes collected so far, then the rest
  of the input. The result is the type of the number, its bytes and the input after it.
\<close>

datatype number_type = Unsigned | Integer | Float

type_synonym scanned = "(number_type \<times> string \<times> string) option"

fun scan_number_any2 :: "string \<Rightarrow> string \<Rightarrow> scanned" where
  "scan_number_any2 acc [] = Some (Float, acc, [])"
| "scan_number_any2 acc (c # s) =
     (if is_digit c then scan_number_any2 (acc @ [c]) s else Some (Float, acc, c # s))"

fun scan_number_sign :: "string \<Rightarrow> string \<Rightarrow> scanned" where
  "scan_number_sign acc [] = None"
| "scan_number_sign acc (c # s) =
     (if is_digit c then scan_number_any2 (acc @ [c]) s else None)"

fun scan_number_exponent :: "string \<Rightarrow> string \<Rightarrow> scanned" where
  "scan_number_exponent acc [] = None"
| "scan_number_exponent acc (c # s) =
     (if c = CHR ''+'' \<or> c = CHR ''-'' then scan_number_sign (acc @ [c]) s
      else if is_digit c then scan_number_any2 (acc @ [c]) s else None)"

fun scan_number_decimal2 :: "string \<Rightarrow> string \<Rightarrow> scanned" where
  "scan_number_decimal2 acc [] = Some (Float, acc, [])"
| "scan_number_decimal2 acc (c # s) =
     (if is_digit c then scan_number_decimal2 (acc @ [c]) s
      else if c = CHR ''e'' \<or> c = CHR ''E'' then scan_number_exponent (acc @ [c]) s
      else Some (Float, acc, c # s))"

fun scan_number_decimal1 :: "string \<Rightarrow> string \<Rightarrow> scanned" where
  "scan_number_decimal1 acc [] = None"
| "scan_number_decimal1 acc (c # s) =
     (if is_digit c then scan_number_decimal2 (acc @ [c]) s else None)"

fun scan_number_any1 :: "number_type \<Rightarrow> string \<Rightarrow> string \<Rightarrow> scanned" where
  "scan_number_any1 ty acc [] = Some (ty, acc, [])"
| "scan_number_any1 ty acc (c # s) =
     (if is_digit c then scan_number_any1 ty (acc @ [c]) s
      else if c = CHR ''.'' then scan_number_decimal1 (acc @ [c]) s
      else if c = CHR ''e'' \<or> c = CHR ''E'' then scan_number_exponent (acc @ [c]) s
      else Some (ty, acc, c # s))"

fun scan_number_zero :: "number_type \<Rightarrow> string \<Rightarrow> string \<Rightarrow> scanned" where
  "scan_number_zero ty acc [] = Some (ty, acc, [])"
| "scan_number_zero ty acc (c # s) =
     (if c = CHR ''.'' then scan_number_decimal1 (acc @ [c]) s
      else if c = CHR ''e'' \<or> c = CHR ''E'' then scan_number_exponent (acc @ [c]) s
      else Some (ty, acc, c # s))"

fun scan_number_minus :: "string \<Rightarrow> string \<Rightarrow> scanned" where
  "scan_number_minus acc [] = None"
| "scan_number_minus acc (c # s) =
     (if c = CHR ''0'' then scan_number_zero Integer (acc @ [c]) s
      else if is_digit c then scan_number_any1 Integer (acc @ [c]) s else None)"

definition scan_number :: "char \<Rightarrow> string \<Rightarrow> scanned" where
  "scan_number c s =
     (if c = CHR ''-'' then scan_number_minus [c] s
      else if c = CHR ''0'' then scan_number_zero Unsigned [c] s
      else scan_number_any1 Unsigned [c] s)"

text \<open>
  \<open>scan_number_done\<close>: \<open>strtoull\<close> or \<open>strtoll\<close>, and for a number out of their range, as for one
  with a fraction or an exponent, \<open>strtod\<close> (the argument).
\<close>

definition number_value :: "(string \<Rightarrow> 64 word) \<Rightarrow> number_type \<Rightarrow> string \<Rightarrow> json" where
  "number_value strtod ty b =
     (case ty of
        Unsigned \<Rightarrow>
          (if digits_value b < 2 ^ 64 then JUint (of_nat (digits_value b)) else JFloat (strtod b))
      | Integer \<Rightarrow>
          (if digits_value (tl b) \<le> 2 ^ 63 then JInt (word_of_int (- int (digits_value (tl b))))
           else JFloat (strtod b))
      | Float \<Rightarrow> JFloat (strtod b))"

text \<open>\<open>scan_literal\<close>.\<close>

fun scan_literal :: "string \<Rightarrow> string \<Rightarrow> string option" where
  "scan_literal [] s = Some s"
| "scan_literal (l # ls) [] = None"
| "scan_literal (l # ls) (c # s) = (if c = l then scan_literal ls s else None)"

lemma scan_number_length:
  "scan_number_any2 acc s = Some (ty, b, s') \<Longrightarrow> length s' \<le> length s"
  "scan_number_sign acc s = Some (ty, b, s') \<Longrightarrow> length s' \<le> length s"
  "scan_number_exponent acc s = Some (ty, b, s') \<Longrightarrow> length s' \<le> length s"
  "scan_number_decimal2 acc s = Some (ty, b, s') \<Longrightarrow> length s' \<le> length s"
  "scan_number_decimal1 acc s = Some (ty, b, s') \<Longrightarrow> length s' \<le> length s"
  "scan_number_any1 ty0 acc s = Some (ty, b, s') \<Longrightarrow> length s' \<le> length s"
  "scan_number_zero ty0 acc s = Some (ty, b, s') \<Longrightarrow> length s' \<le> length s"
  "scan_number_minus acc s = Some (ty, b, s') \<Longrightarrow> length s' \<le> length s"
proof -
  have a2: "scan_number_any2 acc s = Some (ty, b, s') \<Longrightarrow> length s' \<le> length s" for acc s
    by (induction acc s rule: scan_number_any2.induct) (auto split: if_splits)
  have sg: "scan_number_sign acc s = Some (ty, b, s') \<Longrightarrow> length s' \<le> length s" for acc s
    by (cases s) (auto split: if_splits dest: a2)
  have ex: "scan_number_exponent acc s = Some (ty, b, s') \<Longrightarrow> length s' \<le> length s" for acc s
    by (cases s) (auto split: if_splits dest: a2 sg)
  have d2: "scan_number_decimal2 acc s = Some (ty, b, s') \<Longrightarrow> length s' \<le> length s" for acc s
    by (induction acc s rule: scan_number_decimal2.induct) (auto split: if_splits dest: ex)
  have d1: "scan_number_decimal1 acc s = Some (ty, b, s') \<Longrightarrow> length s' \<le> length s" for acc s
    by (cases s) (auto split: if_splits dest: d2)
  have a1: "scan_number_any1 ty0 acc s = Some (ty, b, s') \<Longrightarrow> length s' \<le> length s" for ty0 acc s
    by (induction ty0 acc s rule: scan_number_any1.induct) (auto split: if_splits dest: ex d1)
  have z: "scan_number_zero ty0 acc s = Some (ty, b, s') \<Longrightarrow> length s' \<le> length s" for ty0 acc s
    by (cases s) (auto split: if_splits dest: ex d1)
  show "scan_number_any2 acc s = Some (ty, b, s') \<Longrightarrow> length s' \<le> length s"
    "scan_number_sign acc s = Some (ty, b, s') \<Longrightarrow> length s' \<le> length s"
    "scan_number_exponent acc s = Some (ty, b, s') \<Longrightarrow> length s' \<le> length s"
    "scan_number_decimal2 acc s = Some (ty, b, s') \<Longrightarrow> length s' \<le> length s"
    "scan_number_decimal1 acc s = Some (ty, b, s') \<Longrightarrow> length s' \<le> length s"
    "scan_number_any1 ty0 acc s = Some (ty, b, s') \<Longrightarrow> length s' \<le> length s"
    "scan_number_zero ty0 acc s = Some (ty, b, s') \<Longrightarrow> length s' \<le> length s"
    by (fact a2 sg ex d2 d1 a1 z)+
  show "scan_number_minus acc s = Some (ty, b, s') \<Longrightarrow> length s' \<le> length s"
    by (cases s) (auto split: if_splits dest: z a1)
qed

lemma scan_number_le: "scan_number c s = Some (ty, b, s') \<Longrightarrow> length s' \<le> length s"
  by (auto simp: scan_number_def split: if_splits dest: scan_number_length)

lemma scan_literal_length: "scan_literal l s = Some s' \<Longrightarrow> length s' \<le> length s"
  by (induction l s rule: scan_literal.induct) (auto split: if_splits)

definition is_space :: "char \<Rightarrow> bool" where
  "is_space c \<longleftrightarrow> c = CHR '' '' \<or> c = CHR 0x09 \<or> c = CHR 0x0A \<or> c = CHR 0x0D"

text \<open>
  \<open>scan\<close> on a byte that is no white space: the token and the input after it, \<open>None\<close> at the end
  of the input, which a NUL byte is too. An error ends the scan.
\<close>

definition literal_token :: "json \<Rightarrow> string option \<Rightarrow> token \<times> string" where
  "literal_token j r = (case r of None \<Rightarrow> (Parse_error, []) | Some s \<Rightarrow> (Literal j, s))"

definition string_token :: "(string \<times> string) option \<Rightarrow> token \<times> string" where
  "string_token r = (case r of None \<Rightarrow> (Parse_error, []) | Some (t, s) \<Rightarrow> (String t, s))"

definition number_token :: "(string \<Rightarrow> 64 word) \<Rightarrow> scanned \<Rightarrow> token \<times> string" where
  "number_token strtod r =
     (case r of
        None \<Rightarrow> (Parse_error, [])
      | Some (ty, b, s) \<Rightarrow> (Literal (number_value strtod ty b), s))"

definition scan_token :: "(string \<Rightarrow> 64 word) \<Rightarrow> char \<Rightarrow> string \<Rightarrow> (token \<times> string) option" where
  "scan_token strtod c s =
     (if c = CHR ''['' then Some (Begin_array, s)
      else if c = CHR '']'' then Some (End_array, s)
      else if c = CHR ''{'' then Some (Begin_object, s)
      else if c = CHR ''}'' then Some (End_object, s)
      else if c = CHR '':'' then Some (Name_separator, s)
      else if c = CHR '','' then Some (Value_separator, s)
      else if c = CHR ''t'' then Some (literal_token (JBool True) (scan_literal ''rue'' s))
      else if c = CHR ''f'' then Some (literal_token (JBool False) (scan_literal ''alse'' s))
      else if c = CHR ''n'' then Some (literal_token JNull (scan_literal ''ull'' s))
      else if c = CHR 0x22 then Some (string_token (scan_string s))
      else if c = CHR ''-'' \<or> is_digit c then Some (number_token strtod (scan_number c s))
      else if c = CHR 0x00 then None
      else Some (Parse_error, []))"

lemma token_length:
  "length (snd (literal_token j (scan_literal l s))) \<le> length s"
  "length (snd (string_token (scan_string s))) \<le> length s"
  "length (snd (number_token strtod (scan_number c s))) \<le> length s"
  by (auto simp: literal_token_def string_token_def number_token_def
      split: option.split prod.split dest: scan_literal_length scan_string_length scan_number_le)

lemma scan_token_length: "scan_token strtod c s = Some (t, s') \<Longrightarrow> length s' \<le> length s"
proof -
  have pick: "pred_option P (if b then x else y)"
    if "pred_option P x" "pred_option P y" for P :: "token \<times> string \<Rightarrow> bool" and b x y
    using that by simp
  have "pred_option (\<lambda>r. length (snd r) \<le> length s) (scan_token strtod c s)"
    unfolding scan_token_def by (intro pick) (simp_all add: token_length)
  then show "scan_token strtod c s = Some (t, s') \<Longrightarrow> length s' \<le> length s" by simp
qed

text \<open>The tokens of an input.\<close>

function lex :: "(string \<Rightarrow> 64 word) \<Rightarrow> string \<Rightarrow> token list" where
  "lex strtod [] = []"
| "lex strtod (c # s) =
     (if is_space c then lex strtod s
      else (case scan_token strtod c s of None \<Rightarrow> [] | Some (t, s') \<Rightarrow> t # lex strtod s'))"
  by pat_completeness auto
termination
  by (relation "measure (\<lambda>(_, s). length s)") (auto simp: less_Suc_eq_le dest: scan_token_length)

declare lex.simps(2) [simp del]

definition skip_bom :: "string \<Rightarrow> string option" where
  "skip_bom s =
     (case s of
        c # s' \<Rightarrow> if c = CHR 0xEF then scan_literal [CHR 0xBB, CHR 0xBF] s' else Some s
      | [] \<Rightarrow> Some [])"

section \<open>Parsing\<close>

text \<open>
  \<open>sax_parse_internal\<close> with \<open>json_sax_dom_parser\<close>: the stack holds the open arrays and objects
  with the elements read so far, an object also the key whose value is being read.
\<close>

datatype frame = In_array "json list" | In_object "(string \<times> json) list" string

datatype mode =
    Want_value
  | First_element
  | First_key
  | Want_key "(string \<times> json) list"
  | Want_colon "(string \<times> json) list" string
  | Have json

fun parse_value :: "frame list \<Rightarrow> token \<Rightarrow> (frame list \<times> mode) res" where
  "parse_value st Begin_object = ret (st, First_key)"
| "parse_value st Begin_array = ret (st, First_element)"
| "parse_value st (Literal j) =
     (case j of
        JFloat d \<Rightarrow>
          (if double_trunc d = None then throw (Json_error 406) else ret (st, Have j))
      | _ \<Rightarrow> ret (st, Have j))"
| "parse_value st (String s) = ret (st, Have (JStr s))"
| "parse_value st _ = throw (Json_error 101)"

fun parse_step :: "frame list \<Rightarrow> mode \<Rightarrow> token \<Rightarrow> (frame list \<times> mode) res" where
  "parse_step st Want_value t = parse_value st t"
| "parse_step st First_element t =
     (if t = End_array then ret (st, Have (JArr [])) else parse_value (In_array [] # st) t)"
| "parse_step st First_key t =
     (case t of
        End_object \<Rightarrow> ret (st, Have (JObj []))
      | String k \<Rightarrow> ret (st, Want_colon [] k)
      | _ \<Rightarrow> throw (Json_error 101))"
| "parse_step st (Want_key kvs) t =
     (case t of String k \<Rightarrow> ret (st, Want_colon kvs k) | _ \<Rightarrow> throw (Json_error 101))"
| "parse_step st (Want_colon kvs k) t =
     (if t = Name_separator then ret (In_object kvs k # st, Want_value)
      else throw (Json_error 101))"
| "parse_step [] (Have j) t = throw (Json_error 101)"
| "parse_step (In_array js # st) (Have j) t =
     (if t = Value_separator then ret (In_array (js @ [j]) # st, Want_value)
      else if t = End_array then ret (st, Have (JArr (js @ [j])))
      else throw (Json_error 101))"
| "parse_step (In_object kvs k # st) (Have j) t =
     (if t = Value_separator then ret (st, Want_key (map_set k j kvs))
      else if t = End_object then ret (st, Have (JObj (map_set k j kvs)))
      else throw (Json_error 101))"

fun parse_tokens :: "frame list \<Rightarrow> mode \<Rightarrow> token list \<Rightarrow> json res" where
  "parse_tokens st m [] =
     (case (st, m) of ([], Have j) \<Rightarrow> ret j | _ \<Rightarrow> throw (Json_error 101))"
| "parse_tokens st m (t # ts) =
     bind_res (parse_step st m t) (\<lambda>(st', m'). parse_tokens st' m' ts)"

definition parse_text :: "(string \<Rightarrow> 64 word) \<Rightarrow> string \<Rightarrow> json res" where
  "parse_text strtod s =
     (case skip_bom s of
        None \<Rightarrow> throw (Json_error 101)
      | Some s' \<Rightarrow> parse_tokens [] Want_value (lex strtod s'))"

text \<open>The codec the program uses; \<open>fl\<close> and \<open>strtod\<close> are the C library's.\<close>

definition json_codec :: "(64 word \<Rightarrow> string) \<Rightarrow> (string \<Rightarrow> 64 word) \<Rightarrow> codec" where
  "json_codec fl strtod = \<lparr>dump = dump_value fl, parse = parse_text strtod\<rparr>"

text \<open>A C library whose doubles all read and write as nothing, for concrete runs without doubles.\<close>

abbreviation demo_codec :: codec where
  "demo_codec \<equiv> json_codec (\<lambda>d. []) (\<lambda>s. 0)"

section \<open>Strings read back\<close>

lemma hex_value_digit [simp]: "d < 16 \<Longrightarrow> hex_value (hex_digit d) = Some d"
  by (auto simp: hex_value_def hex_digit_def Let_def)

lemma hex_value_zero [simp]: "hex_value (CHR ''0'') = Some 0"
  by (simp add: hex_value_def)

lemma of_char_eq_iff: "c = d \<longleftrightarrow> (of_char c :: nat) = of_char d"
  by simp

lemma scan_string_escape:
  assumes "(of_char c :: nat) < 128"
  shows "scan_string (escape c @ t) = map_option (apfst (Cons c)) (scan_string t)"
proof -
  let ?n = "of_char c :: nat"
  let ?special = "{CHR 0x08, CHR 0x09, CHR 0x0A, CHR 0x0C, CHR 0x0D, CHR 0x22, CHR 0x5C}"
  show ?thesis
  proof (cases "c \<in> ?special")
    case True
    then show ?thesis
      by (elim insertE emptyE) (simp_all add: escape_def apfst_def map_prod_def)
  next
    case no: False
    show ?thesis
    proof (cases "?n \<le> 31")
      case True
      with no have "escape c = [CHR 0x5C, CHR ''u'', CHR ''0'', CHR ''0'',
          hex_digit (?n div 16), hex_digit (?n mod 16)]"
        by (simp add: escape_def)
      moreover have "scan_unicode
          (CHR ''0'' # CHR ''0'' # hex_digit (?n div 16) # hex_digit (?n mod 16) # t) = Some ([c], t)"
        using True by (simp add: scan_unicode_def utf8_encode_def)
      ultimately show ?thesis by (simp add: apfst_def map_prod_def)
    next
      case False
      with no have "escape c = [c]" by (simp add: escape_def)
      with no False assms show ?thesis by (simp add: apfst_def map_prod_def)
    qed
  qed
qed

lemma escape_long: "128 \<le> (of_char c :: nat) \<Longrightarrow> escape c = [c]"
  by (auto simp: escape_def)

lemma scan_string_long:
  assumes "128 \<le> (of_char c :: nat)" and "utf8_ranges (of_char c) = Some rs"
    and "next_byte_in_range rs s = Some (t, s')"
  shows "scan_string (c # s) = map_option (apfst ((@) (c # t))) (scan_string s')"
  using assms by auto

text \<open>A UTF-8 string is written without an error, and scanned to itself; any other is an error.\<close>

lemma escaped_utf8:
  "utf8 s \<Longrightarrow> \<exists>o1. dump_escaped s = ret o1 \<and>
     (\<forall>r. scan_string (o1 @ CHR 0x22 # r) = Some (s, r))"
proof (induction s rule: utf8.induct)
  case (2 c s)
  then obtain rs t s' where rs: "utf8_ranges (of_char c) = Some rs"
    "next_byte_in_range rs s = Some (t, s')" "utf8 s'"
    by (auto simp: utf8.simps(2) split: option.splits)
  from "2.IH" [OF rs(1,2) refl rs(3)] obtain o1 where
    o1: "dump_escaped s' = ret o1" "\<And>r. scan_string (o1 @ CHR 0x22 # r) = Some (s', r)" by blast
  note st = next_byte_in_range_append [OF rs(2)]
  have "scan_string (escape c @ t @ o1 @ CHR 0x22 # r) = Some (c # s, r)" for r
  proof (cases "(of_char c :: nat) < 128")
    case True
    with rs have "t = []" "s' = s" by auto
    with True o1 show ?thesis by (simp add: scan_string_escape apfst_def map_prod_def)
  next
    case False
    with rs(1) st o1 show ?thesis
      by (simp add: escape_long scan_string_long [where rs = rs and t = t] apfst_def map_prod_def
          del: scan_string.simps)
  qed
  with rs o1 show ?case by simp
qed simp

lemma not_utf8_throws: "\<not> utf8 s \<Longrightarrow> dump_escaped s = throw (Json_error 316)"
  by (induction s rule: utf8.induct) (auto simp: utf8.simps(2) split: option.splits)

section \<open>Numbers read back\<close>

text \<open>
  What follows a value: a separator in the text that \<open>dump\<close> writes, or the first byte of the next
  packet.
\<close>

definition delim :: "string \<Rightarrow> bool" where
  "delim s \<longleftrightarrow> s = [] \<or> hd s \<in> {CHR '','', CHR '']'', CHR ''}'', CHR ''{'', CHR ''n''}"

lemma delimD:
  assumes "delim (c # s)"
  shows "\<not> is_digit c" and "c \<noteq> CHR ''.''" and "c \<noteq> CHR ''e''" and "c \<noteq> CHR ''E''"
  using assms by (auto simp: delim_def is_digit_def less_eq_char_def)

lemma scan_number_any1_digits:
  "list_all is_digit ds \<Longrightarrow> delim rest \<Longrightarrow>
     scan_number_any1 ty acc (ds @ rest) = Some (ty, acc @ ds, rest)"
proof (induction ds arbitrary: acc)
  case Nil
  then show ?case by (cases rest) (simp_all add: delimD)
qed simp

lemma scan_number_zero_done:
  "delim rest \<Longrightarrow> scan_number_zero ty acc rest = Some (ty, acc, rest)"
  by (cases rest) (simp_all add: delimD)

text \<open>The decimal text of a positive number does not start with a zero.\<close>

lemma nat_digits_hd: "0 < n \<Longrightarrow> hd (nat_digits n) \<noteq> CHR ''0''"
proof (induction n rule: nat_digits.induct)
  case (1 n)
  show ?case
  proof (cases "n < 10")
    case True
    have "(of_char (digit_char n) :: nat) \<noteq> of_char (CHR ''0'')" using True "1.prems" by simp
    then have "digit_char n \<noteq> CHR ''0''" by metis
    with True show ?thesis by (subst nat_digits.simps) simp
  next
    case False
    with "1.IH" have "hd (nat_digits (n div 10)) \<noteq> CHR ''0''" by simp
    with False show ?thesis by (subst nat_digits.simps) simp
  qed
qed

lemma nat_digits_all: "list_all is_digit (nat_digits n)"
  by (auto simp: list_all_iff nat_digits_is_digit)

lemma nat_digits_Cons:
  obtains c s where "nat_digits n = c # s" and "is_digit c" and "list_all is_digit s"
    and "n = 0 \<Longrightarrow> c = CHR ''0'' \<and> s = []" and "0 < n \<Longrightarrow> c \<noteq> CHR ''0''"
proof (cases "nat_digits n")
  case (Cons c s)
  show thesis
    by (rule that [OF Cons]) (use Cons nat_digits_hd [of n] nat_digits_all [of n] nat_digits_0 in auto)
qed simp

lemma digit_not_minus: "is_digit c \<Longrightarrow> c \<noteq> CHR ''-''"
  by (auto simp: is_digit_def less_eq_char_def)

lemma scan_number_unsigned:
  assumes "delim rest" and "nat_digits n = c # s"
  shows "scan_number c (s @ rest) = Some (Unsigned, c # s, rest)"
proof -
  have cs: "is_digit c" "list_all is_digit s" "n = 0 \<Longrightarrow> c = CHR ''0'' \<and> s = []"
    "0 < n \<Longrightarrow> c \<noteq> CHR ''0''"
    using assms(2) by (metis nat_digits_Cons list.inject)+
  with assms show ?thesis
    by (cases "n = 0")
       (auto simp: scan_number_def digit_not_minus scan_number_zero_done scan_number_any1_digits)
qed

lemma scan_number_negative:
  assumes "delim rest" and "0 < n"
  shows "scan_number (CHR ''-'') (nat_digits n @ rest) =
           Some (Integer, CHR ''-'' # nat_digits n, rest)"
proof -
  obtain c s where "nat_digits n = c # s" "is_digit c" "list_all is_digit s" "c \<noteq> CHR ''0''"
    using assms(2) by (metis nat_digits_Cons)
  with assms show ?thesis
    by (simp add: scan_number_def scan_number_any1_digits)
qed

section \<open>Tokens\<close>

fun comma_tokens :: "token list list \<Rightarrow> token list" where
  "comma_tokens [] = []"
| "comma_tokens [t] = t"
| "comma_tokens (t # ts) = t @ Value_separator # comma_tokens ts"

fun tokens :: "json \<Rightarrow> token list" where
  "tokens (JStr s) = [String s]"
| "tokens (JArr js) = Begin_array # comma_tokens (map tokens js) @ [End_array]"
| "tokens (JObj kvs) =
     Begin_object # comma_tokens (map (\<lambda>(k, v). String k # Name_separator # tokens v) kvs) @
     [End_object]"
| "tokens j = [Literal (canon j)]"

text \<open>A text that is scanned to the given tokens wherever a value may stand.\<close>

definition lexes :: "(string \<Rightarrow> 64 word) \<Rightarrow> string \<Rightarrow> token list \<Rightarrow> bool" where
  "lexes sd s ts \<longleftrightarrow> (\<forall>rest. delim rest \<longrightarrow> lex sd (s @ rest) = ts @ lex sd rest)"

lemma lexesD: "lexes sd s ts \<Longrightarrow> delim rest \<Longrightarrow> lex sd (s @ rest) = ts @ lex sd rest"
  by (simp add: lexes_def)

lemma lex_punct [simp]:
  "lex sd (CHR ''['' # s) = Begin_array # lex sd s"
  "lex sd (CHR '']'' # s) = End_array # lex sd s"
  "lex sd (CHR ''{'' # s) = Begin_object # lex sd s"
  "lex sd (CHR ''}'' # s) = End_object # lex sd s"
  "lex sd (CHR '':'' # s) = Name_separator # lex sd s"
  "lex sd (CHR '','' # s) = Value_separator # lex sd s"
  "lex sd (CHR 0x22 # s) =
     (case string_token (scan_string s) of (t, s') \<Rightarrow> t # lex sd s')"
  by (simp_all add: lex.simps(2) is_space_def scan_token_def)

lemma lex_digit: "is_digit c \<Longrightarrow>
    lex sd (c # s) = (case number_token sd (scan_number c s) of (t, s') \<Rightarrow> t # lex sd s')"
proof -
  assume d: "is_digit c"
  then have "c \<notin> {CHR '' '', CHR 0x09, CHR 0x0A, CHR 0x0D, CHR ''['', CHR '']'', CHR ''{'',
      CHR ''}'', CHR '':'', CHR '','', CHR ''t'', CHR ''f'', CHR ''n'', CHR 0x22}"
    by (auto simp: is_digit_def less_eq_char_def)
  with d show ?thesis by (simp add: lex.simps(2) is_space_def scan_token_def)
qed

lemma lex_minus:
  "lex sd (CHR ''-'' # s) =
     (case number_token sd (scan_number (CHR ''-'') s) of (t, s') \<Rightarrow> t # lex sd s')"
  by (simp add: lex.simps(2) is_space_def scan_token_def)

lemma lexes_string:
  assumes "utf8 s"
  obtains o1 where "dump_string s = ret o1"
    and "\<And>rest. lex sd (o1 @ rest) = String s # lex sd rest"
proof -
  from escaped_utf8 [OF assms] obtain o1 where o1: "dump_escaped s = ret o1"
    "\<And>r. scan_string (o1 @ CHR 0x22 # r) = Some (s, r)" by blast
  show thesis
    by (rule that [of "CHR 0x22 # o1 @ [CHR 0x22]"])
       (simp_all add: dump_string_def o1 string_token_def del: scan_string.simps)
qed

lemma lexes_nat:
  assumes "n < 2 ^ 64"
  shows "lexes sd (nat_digits n) [Literal (JUint (of_nat n))]"
  unfolding lexes_def
proof (intro allI impI)
  fix rest assume rest: "delim rest"
  obtain c s where cs: "nat_digits n = c # s" "is_digit c" by (rule nat_digits_Cons)
  have "digits_value (c # s) = n" using cs(1) digits_value_nat_digits by metis
  with assms scan_number_unsigned [OF rest cs(1)] cs
  show "lex sd (nat_digits n @ rest) = [Literal (JUint (of_nat n))] @ lex sd rest"
    by (simp add: lex_digit number_token_def number_value_def)
qed

lemma lexes_negative:
  assumes "0 < n" and "n \<le> 2 ^ 63"
  shows "lexes sd (CHR ''-'' # nat_digits n) [Literal (JInt (word_of_int (- int n)))]"
  unfolding lexes_def
  using assms scan_number_negative [OF _ assms(1)]
  by (simp add: lex_minus number_token_def number_value_def)

lemma lexes_literals:
  "lexes sd ''true'' [Literal (JBool True)]" "lexes sd ''false'' [Literal (JBool False)]"
  "lexes sd ''null'' [Literal JNull]"
  by (simp_all add: lexes_def lex.simps(2) is_space_def scan_token_def literal_token_def)

section \<open>Values read back\<close>

text \<open>The text of a value, and of an entry of an object.\<close>

definition text_of :: "(64 word \<Rightarrow> string) \<Rightarrow> json \<Rightarrow> string" where
  "text_of fl j = (case dump_value fl j of Inl e \<Rightarrow> [] | Inr s \<Rightarrow> s)"

definition text_of_entry :: "(64 word \<Rightarrow> string) \<Rightarrow> string \<times> json \<Rightarrow> string" where
  "text_of_entry fl kv =
     (case dump_string (fst kv) of Inl e \<Rightarrow> [] | Inr s \<Rightarrow> s @ CHR '':'' # text_of fl (snd kv))"

definition entry_tokens :: "string \<times> json \<Rightarrow> token list" where
  "entry_tokens kv = String (fst kv) # Name_separator # tokens (snd kv)"

lemma tokens_JObj: "tokens (JObj kvs) =
    Begin_object # comma_tokens (map entry_tokens kvs) @ [End_object]"
  by (simp add: entry_tokens_def [abs_def] split_def)

lemma sequence_res_map:
  "\<forall>x \<in> set xs. f x = ret (g x) \<Longrightarrow> sequence_res (map f xs) = ret (map g xs)"
  by (induction xs) auto

lemma lexes_commas:
  assumes "list_all2 (lexes sd) ss tss" and "delim rest"
  shows "lex sd (commas ss @ rest) = comma_tokens tss @ lex sd rest"
  using assms(1)
proof (induction ss arbitrary: tss rule: commas.induct)
  case (3 s s' ss)
  then obtain t t' ts where "tss = t # t' # ts" by (auto simp: list_all2_Cons1)
  with 3 have IH: "lex sd (commas (s' # ss) @ rest) = comma_tokens (t' # ts) @ lex sd rest"
    and "lexes sd s t" by auto
  moreover have "delim (CHR '','' # r)" for r by (simp add: delim_def)
  ultimately show ?case
    using \<open>tss = t # t' # ts\<close> by (simp add: lexesD)
qed (auto simp: list_all2_Cons1 assms(2) lexesD)

lemma lexes_JInt: "lexes sd (to_string (sint i)) [Literal (canon (JInt i))]"
proof (cases "0 \<le> sint i")
  case True
  then have "take_bit 64 (sint i) = sint i"
    using sint_less [of i] by (intro take_bit_int_eq_self) simp_all
  then have u: "sint i = uint i" by (simp add: uint_sint)
  have "lexes sd (nat_digits (unat i)) [Literal (JUint (of_nat (unat i)))]"
    by (rule lexes_nat) (use unsigned_less [of i] in simp)
  with True u show ?thesis by (simp add: to_string_def)
next
  case False
  let ?n = "nat (- sint i)"
  have "?n \<le> 2 ^ 63" using sint_ge [of i] by simp
  moreover have "0 < ?n" using False by simp
  ultimately have "lexes sd (CHR ''-'' # nat_digits ?n) [Literal (JInt (word_of_int (- int ?n)))]"
    by (rule lexes_negative [rotated])
  with False show ?thesis by (simp add: to_string_def)
qed

lemma lexes_JUint: "lexes sd (to_string (uint u)) [Literal (JUint u)]"
  using lexes_nat [of "unat u" sd] unsigned_less [of u] by (simp add: to_string_def)

text \<open>A plain value is written without an error, and scanned to its tokens.\<close>

lemma plain_text:
  "plain j \<Longrightarrow> dump_value fl j = ret (text_of fl j) \<and> lexes sd (text_of fl j) (tokens j)"
proof (induction j)
  case (JStr s)
  then obtain o1 where "dump_string s = ret o1" "\<And>rest. lex sd (o1 @ rest) = String s # lex sd rest"
    using lexes_string by (metis plain.simps(2))
  then show ?case by (simp add: text_of_def lexes_def)
next
  case (JArr js)
  then have IH: "\<forall>j \<in> set js. dump_value fl j = ret (text_of fl j) \<and> lexes sd (text_of fl j) (tokens j)"
    by (simp add: list_all_iff)
  then have d: "dump_value fl (JArr js) = ret (CHR ''['' # commas (map (text_of fl) js) @ [CHR '']''])"
    by (simp add: sequence_res_map [where g = "text_of fl"])
  have "list_all2 (lexes sd) (map (text_of fl) js) (map tokens js)"
    using IH by (simp add: list_all2_conv_all_nth)
  then have "lex sd (commas (map (text_of fl) js) @ CHR '']'' # rest) =
      comma_tokens (map tokens js) @ lex sd (CHR '']'' # rest)" for rest
    by (rule lexes_commas) (simp add: delim_def)
  with d show ?case by (simp add: text_of_def lexes_def)
next
  case (JObj kvs)
  have kv: "(case kv of (k, v) \<Rightarrow> bind_res (dump_string k) (\<lambda>o1.
        bind_res (dump_value fl v) (\<lambda>o2. ret (o1 @ CHR '':'' # o2)))) = ret (text_of_entry fl kv) \<and>
      lexes sd (text_of_entry fl kv) (entry_tokens kv)" if "kv \<in> set kvs" for kv
  proof -
    obtain k v where [simp]: "kv = (k, v)" by (cases kv)
    from that JObj.prems have "utf8 k" "plain v" by (auto simp: list_all_iff)
    then have "dump_value fl v = ret (text_of fl v) \<and> lexes sd (text_of fl v) (tokens v)"
      using JObj.IH that by force
    moreover obtain o1 where "dump_string k = ret o1"
      "\<And>rest. lex sd (o1 @ rest) = String k # lex sd rest"
      using lexes_string [OF \<open>utf8 k\<close>, of sd] by blast
    ultimately show ?thesis by (simp add: text_of_entry_def entry_tokens_def lexes_def)
  qed
  have d: "dump_value fl (JObj kvs) =
      ret (CHR ''{'' # commas (map (text_of_entry fl) kvs) @ [CHR ''}''])"
    using kv by (simp add: sequence_res_map [where g = "text_of_entry fl"])
  have "list_all2 (lexes sd) (map (text_of_entry fl) kvs) (map entry_tokens kvs)"
    using kv by (simp add: list_all2_conv_all_nth)
  then have "lex sd (commas (map (text_of_entry fl) kvs) @ CHR ''}'' # rest) =
      comma_tokens (map entry_tokens kvs) @ lex sd (CHR ''}'' # rest)" for rest
    by (rule lexes_commas) (simp add: delim_def)
  with d show ?case by (simp add: text_of_def lexes_def tokens_JObj del: tokens.simps)
qed (use lexes_literals lexes_JInt lexes_JUint in \<open>simp_all add: text_of_def\<close>)

text \<open>The parser rebuilds the value from its tokens.\<close>

lemma map_set_last:
  "sorted_wrt (<) (map fst (kvs @ [(k, v)])) \<Longrightarrow> map_set k v kvs = kvs @ [(k, v)]"
  by (induction kvs) (auto simp: sorted_wrt_append dest: order.asym)

lemma tokens_neq_End [simp]: "tokens j \<noteq> End_array # ts"
  by (cases j) auto

lemma parse_first_element:
  assumes "parse_tokens (In_array [] # st) Want_value (tokens j @ ts) = r"
  shows "parse_tokens st First_element (tokens j @ ts) = r"
  using assms by (cases j) auto

lemma parse_array_elements:
  assumes "\<forall>j \<in> set js. \<forall>st ts. parse_tokens st Want_value (tokens j @ ts) =
      parse_tokens st (Have (canon j)) ts" and "js \<noteq> []"
  shows "parse_tokens (In_array js0 # st) Want_value
      (comma_tokens (map tokens js) @ End_array # ts) =
      parse_tokens st (Have (JArr (js0 @ map canon js))) ts"
  using assms
proof (induction js arbitrary: js0)
  case (Cons j js)
  then show ?case by (cases js) simp_all
qed simp

lemma parse_object_entries:
  assumes "\<forall>(k, j) \<in> set kvs. \<forall>st ts. parse_tokens st Want_value (tokens j @ ts) =
      parse_tokens st (Have (canon j)) ts" and "kvs \<noteq> []"
    and "sorted_wrt (<) (map fst (kvs0 @ kvs))"
  shows "parse_tokens st (Want_key kvs0) (comma_tokens (map entry_tokens kvs) @ End_object # ts) =
      parse_tokens st (Have (JObj (kvs0 @ map (map_prod id canon) kvs))) ts"
  using assms
proof (induction kvs arbitrary: kvs0)
  case (Cons kv kvs)
  obtain k j where [simp]: "kv = (k, j)" by (cases kv)
  have set: "map_set k (canon j) kvs0 = kvs0 @ [(k, canon j)]"
    by (rule map_set_last) (use Cons.prems(3) in \<open>auto simp: sorted_wrt_append\<close>)
  show ?case
  proof (cases kvs)
    case Nil
    with Cons.prems(1) set show ?thesis by (simp add: entry_tokens_def)
  next
    case (Cons kv' kvs')
    have "sorted_wrt (<) (map fst ((kvs0 @ [(k, canon j)]) @ kvs))"
      using Cons.prems(3) by simp
    with Cons Cons.IH [of "kvs0 @ [(k, canon j)]"] Cons.prems(1) set show ?thesis
      by (simp add: entry_tokens_def)
  qed
qed simp

lemma parse_tokens_plain:
  "plain j \<Longrightarrow> parse_tokens st Want_value (tokens j @ ts) = parse_tokens st (Have (canon j)) ts"
proof (induction j arbitrary: st ts)
  case (JArr js)
  then have IH: "\<forall>j \<in> set js. \<forall>st ts. parse_tokens st Want_value (tokens j @ ts) =
      parse_tokens st (Have (canon j)) ts"
    by (simp add: list_all_iff)
  show ?case
  proof (cases js)
    case (Cons j js')
    define rest where "rest = (case map tokens js' of [] \<Rightarrow> [] | tss \<Rightarrow> Value_separator # comma_tokens tss)"
    have split: "comma_tokens (map tokens js) = tokens j @ rest"
      unfolding Cons rest_def by (cases js') simp_all
    from parse_array_elements [OF IH, of "[]" st ts] Cons
    have "parse_tokens (In_array [] # st) Want_value (tokens j @ rest @ End_array # ts) =
        parse_tokens st (Have (canon (JArr js))) ts"
      by (simp add: split [unfolded Cons, simplified] Cons)
    from parse_first_element [OF this] show ?thesis by (simp add: split)
  qed simp
next
  case (JObj kvs)
  then have IH: "\<forall>(k, j) \<in> set kvs. \<forall>st ts. parse_tokens st Want_value (tokens j @ ts) =
      parse_tokens st (Have (canon j)) ts"
    by (fastforce simp: list_all_iff)
  show ?case
  proof (cases kvs)
    case (Cons kv kvs')
    have "parse_tokens st First_key (comma_tokens (map entry_tokens kvs) @ End_object # ts) =
        parse_tokens st (Want_key []) (comma_tokens (map entry_tokens kvs) @ End_object # ts)"
      unfolding Cons by (cases kvs') (simp_all add: entry_tokens_def)
    also have "\<dots> = parse_tokens st (Have (canon (JObj kvs))) ts"
      using parse_object_entries [OF IH, of "[]" st ts] Cons JObj.prems by simp
    finally show ?thesis by (simp add: tokens_JObj del: tokens.simps)
  qed simp
qed (simp_all split: if_splits)

text \<open>The text of a plain value does not start with a byte order mark.\<close>

lemma lex_bom: "lex sd (CHR 0xEF # s) = [Parse_error]"
  by (simp add: lex.simps(2) is_space_def scan_token_def is_digit_def less_eq_char_def)

lemma tokens_no_error: "tokens j \<noteq> [Parse_error]"
  by (cases j) auto

lemma plain_lex: "plain j \<Longrightarrow> lex sd (text_of fl j) = tokens j"
proof -
  assume "plain j"
  then have "lex sd (text_of fl j @ []) = tokens j @ lex sd []"
    using plain_text by (intro lexesD) (auto simp: delim_def)
  then show ?thesis by simp
qed

lemma plain_start: "plain j \<Longrightarrow> text_of fl j \<noteq> CHR 0xEF # s"
  using plain_lex [of j undefined fl] tokens_no_error [of j] by (auto simp: lex_bom)

lemma plain_nonempty: "plain j \<Longrightarrow> text_of fl j \<noteq> []"
  using plain_lex [of j undefined fl] by (cases j) auto

lemma skip_bom_text: "plain j \<Longrightarrow> skip_bom (text_of fl j @ s) = Some (text_of fl j @ s)"
  using plain_start [of j fl] plain_nonempty [of j fl]
  by (cases "text_of fl j") (auto simp: skip_bom_def)

lemma parse_dump: "plain j \<Longrightarrow> \<exists>s. dump_value fl j = ret s \<and> parse_text sd s = ret (canon j)"
proof (intro exI conjI)
  assume j: "plain j"
  show "dump_value fl j = ret (text_of fl j)" using plain_text [OF j] by blast
  show "parse_text sd (text_of fl j) = ret (canon j)"
    using parse_tokens_plain [OF j, of "[]" "[]"] skip_bom_text [OF j, of fl "[]"]
    by (simp add: parse_text_def plain_lex [OF j])
qed

text \<open>Two values one after the other are no JSON text.\<close>

lemma tokens_Cons: obtains t ts where "tokens j = t # ts"
  by (cases j) auto

lemma parse_two:
  assumes "plain j1" and "plain j2" and "is_null j2 \<or> is_object j2"
    and "dump_value fl j1 = ret s1" and "dump_value fl j2 = ret s2"
  shows "parse_text sd (s1 @ s2) = throw (Json_error 101)"
proof -
  have s: "s1 = text_of fl j1" "s2 = text_of fl j2"
    using plain_text [OF assms(1)] plain_text [OF assms(2)] assms(4,5) by auto
  have "delim s2"
    using assms(3,5) by (cases j2) (auto simp: delim_def res_simps)
  then have "lex sd (s1 @ s2) = tokens j1 @ lex sd s2"
    using plain_text [OF assms(1)] unfolding s by (intro lexesD) auto
  then have lx: "lex sd (s1 @ s2) = tokens j1 @ tokens j2"
    by (simp add: s plain_lex [OF assms(2)])
  obtain t ts where "tokens j2 = t # ts" by (rule tokens_Cons)
  with lx skip_bom_text [OF assms(1), of fl s2] show ?thesis
    by (simp add: parse_text_def s(1) parse_tokens_plain [OF assms(1)])
qed

lemma two_packets:
  assumes "wf_marshall m1" and "wf_marshall m2" and "Marshall_Buf (json_codec fl strtod) m1 = ret b1"
    and "Marshall_Buf (json_codec fl strtod) m2 = ret b2"
  shows "Unmarshall_of (json_codec fl strtod) (b1 @ b2) = throw Std_exception"
proof -
  have "parse_text strtod (b1 @ b2) = throw (Json_error 101)"
    by (rule parse_two [where fl = fl]) (use assms in \<open>auto simp: wf_marshall_def Marshall_Buf_def json_codec_def\<close>)
  then show ?thesis
    by (simp add: Unmarshall_of_def Unmarshall_TakeBuf_def json_codec_def)
qed

section \<open>The codec keeps the law of the wire\<close>

interpretation jw: wire "json_codec fl strtod"
  by unfold_locales (simp add: wire_ok_def json_codec_def parse_dump)

section \<open>Properties\<close>

text \<open>
  C23: JSON round trip. A value without doubles and with UTF-8 strings is written without an
  exception, and \<open>parse\<close> reads the text back as the same value, except that a non-negative signed
  number comes back as an unsigned one.
\<close>

theorem json_round_trip:
  assumes "plain j"
  shows "bind_res (dump (json_codec fl strtod) j) (parse (json_codec fl strtod)) = ret (canon j)"
  using parse_dump [OF assms, of fl strtod] by (auto simp: json_codec_def)

theorem json_round_trip_witness:
  "bind_res (dump demo_codec
     (JObj [(''0'', JInt (- 7)), (''req'', JArr [JStr ''a\<newline>'', JBool True, JNull])]))
     (parse demo_codec) =
   ret (JObj [(''0'', JInt (- 7)), (''req'', JArr [JStr ''a\<newline>'', JBool True, JNull])])"
  using json_round_trip [of "JObj [(''0'', JInt (- 7)), (''req'', JArr [JStr ''a\<newline>'', JBool True, JNull])]"
    "\<lambda>d. []" "\<lambda>s. 0"]
  by (simp add: less_list_code)

text \<open>
  C25: requests round trip. Whatever arguments without doubles and with UTF-8 strings a request
  carries, the header and the arguments that the server reads from the packet are the ones the
  client wrote, in their order, up to the two integer types.
\<close>

theorem request_round_trip:
  assumes "list_all plain ts"
  shows "bind_res (request_packet (json_codec fl strtod) ts h)
           (read_request (json_codec fl strtod) (length ts)) = ret (h, map canon ts)"
  by (rule jw.request [OF assms])

theorem request_round_trip_witness:
  "bind_res (request_packet demo_codec [JUint 1, JStr ''x''] RequestHeader_default)
     (read_request demo_codec 2) =
   ret (RequestHeader_default, [JUint 1, JStr ''x''])"
  using request_round_trip [of "[JUint 1, JStr ''x'']" "\<lambda>d. []" "\<lambda>s. 0" RequestHeader_default]
  by (simp add: numeral_2_eq_2)

text \<open>
  C26: replies round trip. The header, with any representable error code, and the values without
  doubles and with UTF-8 strings that the client reads from a reply are the ones the server
  wrote, in their order, up to the two integer types.
\<close>

theorem reply_round_trip:
  assumes "list_all plain ts" and "wf_Err (rep_err r)"
  shows "bind_res (reply_packet (json_codec fl strtod) ts r)
           (read_reply (json_codec fl strtod) (length ts)) = ret (r, map canon ts)"
  by (rule jw.reply [OF assms])

theorem reply_round_trip_witness:
  "bind_res (reply_packet demo_codec [JUint 1] ReplyHeader_default)
     (read_reply demo_codec 1) = ret (ReplyHeader_default, [JUint 1])"
  using reply_round_trip [of "[JUint 1]" ReplyHeader_default "\<lambda>d. []" "\<lambda>s. 0"]
  by (simp add: ReplyHeader_default_def)

text \<open>
  \<open>Reset\<close> does not start over. After \<open>Reset\<close> the counter of a \<open>Marshall\<close> goes on, so the first
  value of the next packet has no key \<open>"0"\<close> and a new \<open>Unmarshall\<close> throws when it reads it.
\<close>

theorem reset_loses_first_value:
  assumes "wf_marshall m" and "0 < m_id m" and "plain t"
  shows "bind_res (bind_res (Marshall_put t (Marshall_Reset m)) (Marshall_Buf (json_codec fl strtod)))
           (\<lambda>s. bind_res (Unmarshall_of (json_codec fl strtod) s) (Unmarshall_get conv)) =
         throw (Json_error 403)"
  by (rule jw.reset_misaligned [OF assms])

theorem reset_loses_first_value_witness:
  "\<exists>m. Marshall_put (JUint 1) Marshall_new = ret m \<and>
     bind_res (bind_res (Marshall_put (JUint 2) (Marshall_Reset m))
       (Marshall_Buf demo_codec))
       (\<lambda>s. bind_res (Unmarshall_of demo_codec s) (Unmarshall_get get_size_t)) =
     throw (Json_error 403)"
proof -
  obtain m where m: "Marshall_put (JUint 1) Marshall_new = ret m" "wf_marshall m"
    "m_id m = m_id Marshall_new + 1"
    by (rule Marshall_put_wf [OF wf_marshall_new, of "JUint 1"]) auto
  then have "0 < m_id m" by (simp add: Marshall_new_def)
  with m reset_loses_first_value [OF m(2) this, of "JUint 2" "\<lambda>d. []" "\<lambda>s. 0" get_size_t] show ?thesis
    by auto
qed

end
