(* ===== verification/Client_Steps.thy ===== *)
theory Client_Steps
  imports Rpc_Client Json_Text "HOL-Library.Multiset"
begin

text \<open>
  The client with its threads. The application calls from any thread, the workers of the I/O
  context run completions, and between two sections of \<open>Rpc_Client\<close> any other thread may
  move. What completes is what was started: a send in flight, a posted receive, a timer that was
  armed. A timer is cancelled with its \<open>Caller\<close> only as long as it has not expired. The packets
  that arrive are arbitrary. The events record what the sections have done; that a callback has
  run is read off the operations that the section has started.
\<close>

section \<open>Configurations\<close>

datatype cpc =
    Registered proc_t marshall caller_ptr        \<comment> \<open>\<open>Call\<close>: the packet is next\<close>
  | Requested caller_ptr                         \<comment> \<open>\<open>Call\<close>: the timer is next\<close>
  | Received unmarshall ReplyHeader              \<comment> \<open>\<open>GotPdu\<close>: the lookup is next\<close>
  | Taken unmarshall ReplyHeader caller_ptr      \<comment> \<open>\<open>GotPdu\<close> owns the caller\<close>
  | Marked unmarshall ReplyHeader caller_ptr     \<comment> \<open>\<open>GotPdu\<close>: the callback is next\<close>
  | Failing caller_ptr Err                       \<comment> \<open>\<open>OnSendFinished\<close> holds the raw pointer\<close>
  | Given_up caller_ptr Err                      \<comment> \<open>\<open>OnSendFinished\<close>: the callback is next\<close>

datatype cevent =
    Made caller_ptr xid_t                        \<comment> \<open>a call was registered\<close>
  | Got xid_t                                    \<comment> \<open>a reply header was read\<close>
  | Delivered caller_ptr "xid_t option" Err      \<comment> \<open>\<open>cb_\<close> was called, for a reply or without one\<close>
  | SendFailed caller_ptr                        \<comment> \<open>a failed send ended a call\<close>
  | TimerRan caller_ptr                          \<comment> \<open>\<open>OnTimerExpired\<close> ran to its end\<close>

record 'r cconfig =
  cl :: "'r client"
  threads :: "cpc multiset"
  armed :: "caller_ptr multiset"       \<comment> \<open>timers that run\<close>
  expired :: "caller_ptr multiset"     \<comment> \<open>timers whose handler is queued\<close>
  sends :: "xid_t multiset"            \<comment> \<open>sends in flight\<close>
  receives :: nat                      \<comment> \<open>receives posted\<close>
  connecting :: nat                    \<comment> \<open>first connects in flight\<close>
  reconnects :: "caller_ptr multiset"  \<comment> \<open>later connects in flight\<close>
  crashed :: "exn option"              \<comment> \<open>undefined behaviour, or an exception left a worker\<close>
  cevents :: "cevent list"

text \<open>Starting operations, and a new client state: destroyed callers cancel their timers.\<close>

fun perform1 :: "'r call_effect \<Rightarrow> 'r cconfig \<Rightarrow> 'r cconfig" where
  "perform1 (SendTo b x) s = s\<lparr>sends := add_mset x (sends s)\<rparr>"
| "perform1 ReceiveFrom s = s\<lparr>receives := receives s + 1\<rparr>"
| "perform1 (ConnectFirst h q) s = s\<lparr>connecting := connecting s + 1\<rparr>"
| "perform1 (Reconnect h q p) s = s\<lparr>reconnects := add_mset p (reconnects s)\<rparr>"
| "perform1 (ArmTimer p n) s = s\<lparr>armed := add_mset p (armed s)\<rparr>"
| "perform1 _ s = s"

definition perform :: "'r call_effect list \<Rightarrow> 'r cconfig \<Rightarrow> 'r cconfig" where
  "perform es s = fold perform1 es s"

definition made :: "'r client \<Rightarrow> 'r client \<Rightarrow> cevent list" where
  "made v v' = (if fresh v < fresh v' then [Made (fresh v) (next_xid v)] else [])"

definition settle :: "'r client \<Rightarrow> cpc multiset \<Rightarrow> cevent list \<Rightarrow> 'r cconfig \<Rightarrow> 'r cconfig" where
  "settle v P es s =
     s\<lparr>cl := v, threads := P, armed := filter_mset (\<lambda>p. heap v p \<noteq> None) (armed s),
       cevents := cevents s @ made (cl s) v @ es\<rparr>"

definition crash :: "exn \<Rightarrow> cpc multiset \<Rightarrow> 'r cconfig \<Rightarrow> 'r cconfig" where
  "crash x P s = s\<lparr>crashed := Some x, threads := P\<rparr>"

text \<open>An exception that leaves \<open>Call\<close> reaches the application, a use of a freed caller does not.\<close>

definition call_throws :: "exn \<Rightarrow> cpc multiset \<Rightarrow> 'r cconfig \<Rightarrow> 'r cconfig" where
  "call_throws x P s = (if x = Undefined_behaviour then crash x P s else s\<lparr>threads := P\<rparr>)"

text \<open>The application has built a client and called \<open>ConnectToServer\<close>.\<close>

definition cconfig_init :: "'r cconfig \<Rightarrow> bool" where
  "cconfig_init s \<longleftrightarrow>
     (\<exists>h q n r rnd. RpcClient_new True True h q n r rnd = ret (cl s)) \<and>
     threads s = {#} \<and> armed s = {#} \<and> expired s = {#} \<and> sends s = {#} \<and> receives s = 0 \<and>
     connecting s = 1 \<and> reconnects s = {#} \<and> crashed s = None \<and> cevents s = []"

text \<open>
  The callbacks that a section has run, read off the operations it started: for the caller \<open>p\<close>, and
  for the reply with the transaction \<open>x\<close>, if there is one.
\<close>

fun invoked1 :: "caller_ptr \<Rightarrow> xid_t option \<Rightarrow> 'r call_effect \<Rightarrow> cevent list" where
  "invoked1 p x (Invoke cb r e) = [Delivered p x e]"
| "invoked1 p x _ = []"

definition invoked :: "caller_ptr \<Rightarrow> xid_t option \<Rightarrow> 'r call_effect list \<Rightarrow> cevent list" where
  "invoked p x es = concat (map (invoked1 p x) es)"

section \<open>Steps\<close>

text \<open>
  Calls come with a \<open>ReplyExtractor\<close>, as the template \<open>Call<Args, Reply>\<close> makes it: a conversion of
  the value of the reply, packed into \<open>std::any\<close>.
\<close>

inductive cstep :: "codec \<Rightarrow> 'r cconfig \<Rightarrow> 'r cconfig \<Rightarrow> bool" for c :: codec where
  refuse: "crashed s = None \<Longrightarrow> call_register proc cb (ReplyExtractor conv id) to (cl s) = (None, v) \<Longrightarrow>
     cstep c s s"
| register: "crashed s = None \<Longrightarrow> call_register proc cb (ReplyExtractor conv id) to (cl s) = (Some p, v) \<Longrightarrow>
     cstep c s (settle v (add_mset (Registered proc req p) (threads s)) [] s)"
| request: "crashed s = None \<Longrightarrow> threads s = add_mset (Registered proc req p) P \<Longrightarrow>
     call_send c proc req p (cl s) = (ret es, v) \<Longrightarrow>
     cstep c s (perform es (settle v (add_mset (Requested p) P) [] s))"
| request_throws: "crashed s = None \<Longrightarrow> threads s = add_mset (Registered proc req p) P \<Longrightarrow>
     call_send c proc req p (cl s) = (throw x, v) \<Longrightarrow> cstep c s (call_throws x P s)"
| wait: "crashed s = None \<Longrightarrow> threads s = add_mset (Requested p) P \<Longrightarrow>
     call_wait p (cl s) = ret es \<Longrightarrow> cstep c s (perform es (s\<lparr>threads := P\<rparr>))"
| wait_throws: "crashed s = None \<Longrightarrow> threads s = add_mset (Requested p) P \<Longrightarrow>
     call_wait p (cl s) = throw x \<Longrightarrow> cstep c s (call_throws x P s)"
| packet: "crashed s = None \<Longrightarrow> receives s = Suc n \<Longrightarrow> got_read c buf = ret (u, h) \<Longrightarrow>
     cstep c s (settle (got_update h (cl s)) (add_mset (Received u h) (threads s))
       [Got (rep_xid h)] (s\<lparr>receives := n\<rparr>))"
| packet_throws: "crashed s = None \<Longrightarrow> receives s = Suc n \<Longrightarrow> got_read c buf = throw x \<Longrightarrow>
     cstep c s (crash x (threads s) (s\<lparr>receives := n\<rparr>))"
| receive_fails: "crashed s = None \<Longrightarrow> receives s = Suc n \<Longrightarrow> cstep c s (s\<lparr>receives := n\<rparr>)"
| take_none: "crashed s = None \<Longrightarrow> threads s = add_mset (Received u h) P \<Longrightarrow>
     got_take h (cl s) = (None, v) \<Longrightarrow> cstep c s (s\<lparr>threads := P\<rparr>)"
| take: "crashed s = None \<Longrightarrow> threads s = add_mset (Received u h) P \<Longrightarrow>
     got_take h (cl s) = (Some p, v) \<Longrightarrow> cstep c s (settle v (add_mset (Taken u h p) P) [] s)"
| mark: "crashed s = None \<Longrightarrow> threads s = add_mset (Taken u h p) P \<Longrightarrow>
     got_mark h p (cl s) = (ret b, v) \<Longrightarrow>
     cstep c s (settle v ((if b then {#Marked u h p#} else {#}) + P) [] s)"
| mark_throws: "crashed s = None \<Longrightarrow> threads s = add_mset (Taken u h p) P \<Longrightarrow>
     got_mark h p (cl s) = (throw x, v) \<Longrightarrow> cstep c s (crash x P s)"
| deliver: "crashed s = None \<Longrightarrow> threads s = add_mset (Marked u h p) P \<Longrightarrow>
     got_deliver c u h p (cl s) = (ret es, v) \<Longrightarrow>
     cstep c s (perform es (settle v P (invoked p (Some (rep_xid h)) es) s))"
| deliver_throws: "crashed s = None \<Longrightarrow> threads s = add_mset (Marked u h p) P \<Longrightarrow>
     got_deliver c u h p (cl s) = (throw x, v) \<Longrightarrow> cstep c s (crash x P s)"
| expire: "crashed s = None \<Longrightarrow> armed s = add_mset p A \<Longrightarrow>
     cstep c s (s\<lparr>armed := A, expired := add_mset p (expired s)\<rparr>)"
| timer: "crashed s = None \<Longrightarrow> expired s = add_mset p X \<Longrightarrow>
     OnTimerExpired c (Some p) e (cl s) = (ret es, v) \<Longrightarrow>
     cstep c s (perform es (settle v (threads s) (invoked p None es @ [TimerRan p]) (s\<lparr>expired := X\<rparr>)))"
| timer_throws: "crashed s = None \<Longrightarrow> expired s = add_mset p X \<Longrightarrow>
     OnTimerExpired c (Some p) e (cl s) = (throw x, v) \<Longrightarrow>
     cstep c s (crash x (threads s) (s\<lparr>expired := X\<rparr>))"
| sent: "crashed s = None \<Longrightarrow> sends s = add_mset x S \<Longrightarrow>
     cstep c s (perform ListenFromServer (s\<lparr>sends := S\<rparr>))"
| send_fails: "crashed s = None \<Longrightarrow> sends s = add_mset x S \<Longrightarrow> e \<noteq> OK \<Longrightarrow>
     cstep c s (s\<lparr>sends := S, threads := (case callers (cl s) x of None \<Rightarrow> {#}
       | Some p \<Rightarrow> {#Failing p e#}) + threads s\<rparr>)"
| retry: "crashed s = None \<Longrightarrow> threads s = add_mset (Failing p e) P \<Longrightarrow> cl_nonce (cl s) > 0 \<Longrightarrow>
     fail_retry p e (cl s) = ret es \<Longrightarrow> cstep c s (perform es (s\<lparr>threads := P\<rparr>))"
| retry_throws: "crashed s = None \<Longrightarrow> threads s = add_mset (Failing p e) P \<Longrightarrow>
     cl_nonce (cl s) > 0 \<Longrightarrow> fail_retry p e (cl s) = throw x \<Longrightarrow> cstep c s (crash x P s)"
| give_up: "crashed s = None \<Longrightarrow> threads s = add_mset (Failing p e) P \<Longrightarrow> cl_nonce (cl s) = 0 \<Longrightarrow>
     fail_mark p e (cl s) = (ret y, v) \<Longrightarrow>
     cstep c s (settle v (add_mset (Given_up p e) P) [SendFailed p] s)"
| give_up_throws: "crashed s = None \<Longrightarrow> threads s = add_mset (Failing p e) P \<Longrightarrow>
     cl_nonce (cl s) = 0 \<Longrightarrow> fail_mark p e (cl s) = (throw x, v) \<Longrightarrow> cstep c s (crash x P s)"
| fail: "crashed s = None \<Longrightarrow> threads s = add_mset (Given_up p e) P \<Longrightarrow>
     fail_deliver c p e (cl s) = (ret es, v) \<Longrightarrow>
     cstep c s (perform es (settle v P (invoked p None es) s))"
| fail_throws: "crashed s = None \<Longrightarrow> threads s = add_mset (Given_up p e) P \<Longrightarrow>
     fail_deliver c p e (cl s) = (throw x, v) \<Longrightarrow> cstep c s (crash x P s)"
| connect: "crashed s = None \<Longrightarrow> connecting s = Suc n \<Longrightarrow>
     OnConnected e (cl s) = (ret es, v) \<Longrightarrow>
     cstep c s (perform es (settle v (threads s) [] (s\<lparr>connecting := n\<rparr>)))"
| connect_throws: "crashed s = None \<Longrightarrow> connecting s = Suc n \<Longrightarrow>
     OnConnected e (cl s) = (throw x, v) \<Longrightarrow>
     cstep c s (crash x (threads s) (s\<lparr>connecting := n\<rparr>))"
| reconnect: "crashed s = None \<Longrightarrow> reconnects s = add_mset p R \<Longrightarrow>
     OnReconnected p e (cl s) = ret es \<Longrightarrow> cstep c s (perform es (s\<lparr>reconnects := R\<rparr>))"
| reconnect_throws: "crashed s = None \<Longrightarrow> reconnects s = add_mset p R \<Longrightarrow>
     OnReconnected p e (cl s) = throw x \<Longrightarrow>
     cstep c s (crash x (threads s) (s\<lparr>reconnects := R\<rparr>))"

abbreviation creach :: "codec \<Rightarrow> 'r cconfig \<Rightarrow> bool" where
  "creach c \<equiv> reach cconfig_init (cstep c)"

text \<open>Every extractor of the template is of this form.\<close>

lemma ReplyExtractor_packed:
  "ReplyExtractor conv pack = ReplyExtractor (\<lambda>j. bind_res (conv j) (\<lambda>r. ret (pack r))) id"
  by (auto simp: fun_eq_iff ReplyExtractor_def Unmarshall_get_def bind_res_assoc)

section \<open>How often the callback runs\<close>

text \<open>A section that runs the callback of a call runs it once.\<close>

lemma invoked_simps [simp]:
  "invoked p x [] = []" "invoked p x (e # es) = invoked1 p x e @ invoked p x es"
  "invoked p x (es @ es') = invoked p x es @ invoked p x es'"
  by (simp_all add: invoked_def)

lemma in_invoked: "ev \<in> set (invoked p x es) \<Longrightarrow> \<exists>e. ev = Delivered p x e"
proof (induction es)
  case (Cons e es)
  then show ?case by (cases e) auto
qed simp

lemma not_invoked [simp]:
  "TimerRan q \<notin> set (invoked p x es)" "Delivered q (Some y) e \<notin> set (invoked p None es)"
  "filter ((=) (TimerRan q)) (invoked p x es) = []"
  using in_invoked [of _ p] by (fastforce simp: filter_empty_conv)+

lemma Call_invokes:
  assumes "Call c proc req cb re to v = (ret (e, es), v')"
  shows "invoked p x es = []"
  using assms
  by (auto simp: Call_def call_send_def call_wait_def res_simps
      split: prod.splits option.splits sum.splits)

lemma callback_invokes:
  assumes "run_callback c cb r e v = (ret es, v')"
  shows "invoked p x es = [Delivered p x e]"
proof (cases "cb = Bind_callback \<and> e \<noteq> OK")
  case True
  then obtain e' es' where "Bind_client c kToMax v = (ret (e', es'), v')"
    "es = Invoke cb r e # SleepMs 200 # es'"
    using assms by (auto simp: run_callback_def split: prod.splits sum.splits)
  moreover from this(1) have "invoked p x es' = []"
    by (auto simp: Bind_client_def Call_args_def split: prod.splits sum.splits intro: Call_invokes)
  ultimately show ?thesis by simp
next
  case False
  with assms show ?thesis by (cases cb) (auto simp: run_callback_def split: sum.splits)
qed

lemma deliver_invokes:
  assumes "got_deliver c u h p v = (ret es, v')"
  shows "invoked q x es = [Delivered q x (rep_err h)]"
  using assms
  by (auto simp: got_deliver_def split: option.splits sum.splits prod.splits intro: callback_invokes)

lemma fail_invokes:
  assumes "fail_deliver c p e v = (ret es, v')"
  shows "invoked q x es = [Delivered q x e]"
  using assms by (auto simp: fail_deliver_def split: option.splits intro: callback_invokes)

section \<open>How the client state evolves\<close>

definition opened :: "'r client \<Rightarrow> caller_ptr \<Rightarrow> bool" where
  "opened v p \<longleftrightarrow> (\<exists>k. heap v p = Some k \<and> \<not> c_done k)"

definition finished :: "'r client \<Rightarrow> caller_ptr \<Rightarrow> bool" where
  "finished v p \<longleftrightarrow> (\<exists>k. heap v p = Some k \<and> c_done k)"

text \<open>
  What every section does to the callers: \<open>S\<close> holds those it may set to done. A nested \<open>Bind\<close>
  may add one caller.
\<close>

definition evolves :: "caller_ptr set \<Rightarrow> 'r client \<Rightarrow> 'r client \<Rightarrow> bool" where
  "evolves S v v' \<longleftrightarrow>
     client_ok v' \<and> cl_nonce v' = cl_nonce v \<and> fresh v \<le> fresh v' \<and>
     (\<forall>q. opened v' q \<longrightarrow> opened v q \<or> fresh v \<le> q) \<and>
     (\<forall>q. finished v' q \<longrightarrow> finished v q \<or> q \<in> S) \<and>
     (\<forall>x q. callers v' x = Some q \<longrightarrow> callers v x = Some q \<or>
        (fresh v < fresh v' \<and> q = fresh v \<and> x = next_xid v)) \<and>
     rep_window v' = rep_window v"

lemma evolvesI:
  assumes "client_ok v'" and "cl_nonce v' = cl_nonce v" and "fresh v' = fresh v"
    and "\<And>q. opened v' q \<Longrightarrow> opened v q" and "\<And>q. finished v' q \<Longrightarrow> finished v q \<or> q \<in> S"
    and "\<And>x q. callers v' x = Some q \<Longrightarrow> callers v x = Some q" and "rep_window v' = rep_window v"
  shows "evolves S v v'"
  using assms by (simp add: evolves_def)

lemma evolves_refl: "client_ok v \<Longrightarrow> evolves S v v"
  by (simp add: evolves_def)

lemma evolvesD:
  assumes "evolves S v v'"
  shows "client_ok v'" and "cl_nonce v' = cl_nonce v" and "fresh v \<le> fresh v'"
    and "opened v' q \<Longrightarrow> opened v q \<or> fresh v \<le> q"
    and "finished v' q \<Longrightarrow> finished v q \<or> q \<in> S"
    and "callers v' x = Some q \<Longrightarrow> callers v x = Some q \<or>
      (fresh v < fresh v' \<and> q = fresh v \<and> x = next_xid v)"
    and "rep_window v' = rep_window v"
  using assms by (auto simp: evolves_def)

text \<open>A caller whose mutable fields change.\<close>

lemma evolves_update:
  assumes "client_ok v" and "\<And>k. c_xid (f k) = c_xid k"
    and "\<And>k. c_done k \<Longrightarrow> c_done (f k)" and "p \<in> S \<or> (\<forall>k. c_done (f k) = c_done k)"
  shows "evolves S v (update_caller p f v)"
proof (rule evolvesI)
  show "client_ok (update_caller p f v)" using assms(1,2) by (rule client_ok_update)
  show "opened (update_caller p f v) q \<Longrightarrow> opened v q" for q
    using assms(3) by (cases "heap v q") (auto simp: opened_def split: if_splits)
  show "finished (update_caller p f v) q \<Longrightarrow> finished v q \<or> q \<in> S" for q
    using assms(4) by (cases "heap v q") (auto simp: finished_def split: if_splits)
qed auto

lemma evolves_free:
  assumes "client_ok v" and "p \<notin> ran (callers v)"
  shows "evolves S v (free p v)"
  by (rule evolvesI)
     (use assms in \<open>auto intro: client_ok_free simp: opened_def finished_def split: if_splits\<close>)

lemma evolves_register:
  assumes "call_register proc cb re to v = (Some p, v')" and "client_ok v"
  shows "evolves {} v v'" and "p = fresh v" and "fresh v' = Suc p"
proof -
  note reg = call_register_Some [OF assms]
  show "p = fresh v" "fresh v' = Suc p" by (fact reg)+
  have "heap v' q = Some k \<Longrightarrow> q = p \<and> \<not> c_done k \<or> heap v q = Some k" for q k
    using reg(5,6) by (cases "q = p") (auto split: if_splits)
  then show "evolves {} v v'"
    unfolding evolves_def opened_def finished_def
    using reg client_ok_register [OF assms] by (fastforce split: if_splits)
qed

lemma evolves_send:
  assumes "call_send c proc req p v = (r, v')" and "client_ok v"
  shows "evolves {} v v'" and "fresh v' = fresh v"
  using call_sendD [OF assms(1)] assms(2) by (auto intro: evolves_update evolves_refl)

lemma evolves_take:
  assumes "got_take h v = (Some p, v')" and "client_ok v"
  shows "evolves {} v v'" and "fresh v' = fresh v" and "p \<notin> ran (callers v')" and "p < fresh v"
proof -
  note tk = got_takeD [OF assms(1)]
  show "p \<notin> ran (callers v')" by (rule got_take_not_ran [OF assms])
  show "fresh v' = fresh v" using tk(2) by simp
  show "p < fresh v" using tk(1) assms(2) by (rule callers_bound [rotated])
  show "evolves {} v v'"
    by (rule evolvesI)
       (use tk client_ok_take [OF assms] in \<open>auto simp: opened_def finished_def split: if_splits\<close>)
qed

lemma evolves_mark:
  assumes "got_mark h p v = (ret b, v')" and "client_ok v" and "p \<notin> ran (callers v)"
  shows "evolves {p} v v'" and "fresh v' = fresh v"
    and "b \<Longrightarrow> opened v p" and "\<not> b \<Longrightarrow> finished v p \<and> heap v' p = None"
    and "\<not> opened v' p"
  using assms
  by (auto simp: got_mark_def opened_def finished_def split: option.splits if_splits
      intro!: evolves_update evolves_free)

lemma evolves_trans_free:
  assumes "evolves S v v'" and "p \<notin> ran (callers v')"
  shows "evolves S v (free p v')"
  using assms unfolding evolves_def opened_def finished_def
  by (auto intro: client_ok_free split: if_splits)

lemma evolves_Call:
  assumes "Call c proc req cb re to v = (r, v')" and "client_ok v"
  shows "evolves {} v v'"
proof (cases "call_register proc cb re to v")
  case (Pair o1 v1)
  show ?thesis
  proof (cases o1)
    case None
    with Pair assms call_register_None show ?thesis
      by (fastforce simp: Call_def intro: evolves_refl)
  next
    case (Some p)
    note reg = evolves_register [OF Pair [unfolded Some] assms(2)]
    obtain r2 v2 where s: "call_send c proc req p v1 = (r2, v2)" by fastforce
    with assms(1) Pair Some have "v' = v2" by (auto simp: Call_def split: sum.splits)
    moreover have "client_ok v1" using reg(1) by (simp add: evolves_def)
    ultimately have snd: "evolves {} v1 v'" "fresh v' = fresh v1"
      using evolves_send [OF s] by auto
    show ?thesis unfolding evolves_def
    proof (intro conjI allI impI)
      show "opened v q \<or> fresh v \<le> q" if "opened v' q" for q
        using that snd reg by (fastforce simp: evolves_def)
      show "finished v q \<or> q \<in> {}" if "finished v' q" for q
        using that snd reg by (fastforce simp: evolves_def)
      show "callers v x = Some q \<or> (fresh v < fresh v' \<and> q = fresh v \<and> x = next_xid v)"
        if "callers v' x = Some q" for x q
        using that snd reg by (fastforce simp: evolves_def)
    qed (use snd reg in \<open>auto simp: evolves_def\<close>)
  qed
qed

lemma evolves_Bind:
  "Bind_client c to v = (r, v') \<Longrightarrow> client_ok v \<Longrightarrow> evolves {} v v'"
  by (auto simp: Bind_client_def Call_args_def split: prod.splits sum.splits
      intro: evolves_Call evolves_refl)

lemma evolves_callback:
  assumes "run_callback c cb r e v = (es, v')" and "client_ok v"
  shows "evolves {} v v'"
proof (cases "cb = Bind_callback \<and> e \<noteq> OK")
  case True
  obtain b v1 where B: "Bind_client c kToMax v = (b, v1)" by fastforce
  with True assms(1) have "v' = v1" by (auto simp: run_callback_def split: sum.splits)
  with evolves_Bind [OF B] assms(2) show ?thesis by simp
next
  case False
  then have "v' = v \<or> (\<exists>w. v' = v\<lparr>cl_srv_nonce := w, bind_done := True\<rparr>)"
    using assms(1) by (cases cb) (auto simp: run_callback_def split: sum.splits)
  with client_ok_callback [OF assms] assms(2) show ?thesis
    by (auto intro!: evolvesI simp: opened_def finished_def)
qed

lemma evolves_deliver:
  assumes "got_deliver c u h p v = (r, v')" and "client_ok v" and "p \<notin> ran (callers v)"
    and "p < fresh v"
  shows "evolves {} v v'"
proof (cases "heap v p")
  case None
  with assms show ?thesis by (auto simp: got_deliver_def intro: evolves_refl)
next
  case (Some k)
  show ?thesis
  proof (cases "c_re k u")
    case (Inl x)
    with Some assms show ?thesis by (auto simp: got_deliver_def intro: evolves_free)
  next
    case (Inr y)
    obtain es v1 where rc: "run_callback c (c_cb k) y (rep_err h) v = (es, v1)" by fastforce
    have ev: "evolves {} v v1" by (rule evolves_callback [OF rc assms(2)])
    then have "p \<notin> ran (callers v1)"
      using assms(3,4) unfolding evolves_def ran_def by fastforce
    with evolves_trans_free [OF ev] show ?thesis
      using assms(1) Some Inr rc by (auto simp: got_deliver_def)
  qed
qed

lemma evolves_timer:
  assumes "OnTimerExpired c (Some p) e v = (ret es, v')" and "client_ok v"
  shows "evolves {p} v v'"
proof -
  obtain k where k: "heap v p = Some k"
    using assms(1) by (auto simp: OnTimerExpired_def split: option.splits)
  show ?thesis
  proof (cases "\<not> c_done k \<and> cl_nonce v = 0")
    case True
    let ?v = "update_caller p (\<lambda>k. k\<lparr>c_done := True, c_err := TIMEOUT_FAILURE\<rparr>) v"
    have up: "evolves {p} v ?v" by (rule evolves_update) (use assms(2) in auto)
    have "run_callback c (c_cb k) Empty TIMEOUT_FAILURE ?v = (ret es, v')"
      using assms(1) k True by (simp add: OnTimerExpired_def)
    then have "evolves {} ?v v'" by (rule evolves_callback) (use up in \<open>simp add: evolves_def\<close>)
    with up show ?thesis by (fastforce simp: evolves_def)
  next
    case False
    then have "v' = v" using assms(1) k by (auto simp: OnTimerExpired_def split: if_splits)
    then show ?thesis using assms(2) by (simp add: evolves_refl)
  qed
qed

lemma evolves_fail_mark:
  assumes "fail_mark p e v = (ret y, v')" and "client_ok v"
  shows "evolves {p} v v'"
  using assms by (auto simp: fail_mark_def split: option.splits intro!: evolves_update)

lemma evolves_fail_deliver:
  "fail_deliver c p e v = (r, v') \<Longrightarrow> client_ok v \<Longrightarrow> evolves {} v v'"
  by (auto simp: fail_deliver_def split: option.splits intro: evolves_callback evolves_refl)

lemma evolves_connected:
  "OnConnected e v = (r, v') \<Longrightarrow> client_ok v \<Longrightarrow> evolves {} v v'"
  by (auto simp: OnConnected_def client_ok_def opened_def finished_def split: if_splits
      intro!: evolvesI)

section \<open>Accounting for the callbacks\<close>

fun delivers :: "caller_ptr \<Rightarrow> cevent \<Rightarrow> bool" where
  "delivers p (Delivered q x e) \<longleftrightarrow> p = q"
| "delivers p _ \<longleftrightarrow> False"

fun pending :: "caller_ptr \<Rightarrow> cpc \<Rightarrow> bool" where
  "pending p (Marked u h q) \<longleftrightarrow> p = q"
| "pending p (Given_up q e) \<longleftrightarrow> p = q"
| "pending p _ \<longleftrightarrow> False"

fun owns_caller :: "cpc \<Rightarrow> (ReplyHeader \<times> caller_ptr) option" where
  "owns_caller (Taken u h p) = Some (h, p)"
| "owns_caller (Marked u h p) = Some (h, p)"
| "owns_caller _ = None"

fun got :: "cevent \<Rightarrow> xid_t list" where
  "got (Got x) = [x]"
| "got _ = []"

definition deliveries :: "'r cconfig \<Rightarrow> caller_ptr \<Rightarrow> nat" where
  "deliveries s p = length (filter (delivers p) (cevents s))"

definition pendings :: "'r cconfig \<Rightarrow> caller_ptr \<Rightarrow> nat" where
  "pendings s p = size (filter_mset (pending p) (threads s))"

text \<open>Callbacks of a caller that have run, or that a thread is certain to run next.\<close>

definition invocations :: "'r cconfig \<Rightarrow> caller_ptr \<Rightarrow> nat" where
  "invocations s p = deliveries s p + pendings s p"

definition send_failures :: "'r cconfig \<Rightarrow> caller_ptr \<Rightarrow> nat" where
  "send_failures s p = length (filter ((=) (SendFailed p)) (cevents s))"

definition replies_got :: "'r cconfig \<Rightarrow> xid_t list" where
  "replies_got s = concat (map got (cevents s))"

lemma fold_perform1 [simp]:
  "cl (fold perform1 es s) = cl s \<and> threads (fold perform1 es s) = threads s \<and>
   cevents (fold perform1 es s) = cevents s \<and> crashed (fold perform1 es s) = crashed s \<and>
   expired (fold perform1 es s) = expired s"
proof (induction es arbitrary: s)
  case (Cons e es)
  then show ?case by (cases e) auto
qed simp

lemma perform_simps [simp]:
  "cl (perform es s) = cl s" "threads (perform es s) = threads s"
  "cevents (perform es s) = cevents s" "crashed (perform es s) = crashed s"
  "expired (perform es s) = expired s"
  by (simp_all add: perform_def)

lemma settle_simps [simp]:
  "cl (settle v P es s) = v" "threads (settle v P es s) = P"
  "cevents (settle v P es s) = cevents s @ made (cl s) v @ es"
  "crashed (settle v P es s) = crashed s"
  by (simp_all add: settle_def)

lemma crash_simps [simp]:
  "cl (crash x P s) = cl s" "threads (crash x P s) = P" "cevents (crash x P s) = cevents s"
  "crashed (crash x P s) = Some x"
  by (simp_all add: crash_def)

lemma call_throws_simps [simp]:
  "cl (call_throws x P s) = cl s" "threads (call_throws x P s) = P"
  "cevents (call_throws x P s) = cevents s"
  by (simp_all add: call_throws_def)

lemma made_no_event [simp]:
  "filter (delivers p) (made v v') = []" "filter ((=) (SendFailed p)) (made v v') = []"
  "concat (map got (made v v')) = []" "TimerRan p \<notin> set (made v v')"
  "Delivered p o1 e \<notin> set (made v v')" "SendFailed p \<notin> set (made v v')"
  by (simp_all add: made_def)

lemmas account_defs = invocations_def pendings_def deliveries_def send_failures_def replies_got_def

section \<open>Ownership\<close>

definition owners_ok :: "'r cconfig \<Rightarrow> bool" where
  "owners_ok s \<longleftrightarrow>
     client_ok (cl s) \<and>
     (\<forall>T h p. T \<in># threads s \<longrightarrow> owns_caller T = Some (h, p) \<longrightarrow>
        p < fresh (cl s) \<and> p \<notin> ran (callers (cl s)))"

lemma owners_okD:
  assumes "owners_ok s"
  shows "client_ok (cl s)"
    and "T \<in># threads s \<Longrightarrow> owns_caller T = Some (h, p) \<Longrightarrow> p < fresh (cl s)"
    and "T \<in># threads s \<Longrightarrow> owns_caller T = Some (h, p) \<Longrightarrow> p \<notin> ran (callers (cl s))"
  using assms by (auto simp: owners_ok_def)

text \<open>A section keeps ownership when the threads that own a caller owned it before.\<close>

lemma owners_ok_evolves:
  assumes "owners_ok s" and "evolves S (cl s) (cl t)"
    and "\<And>T h p. T \<in># threads t \<Longrightarrow> owns_caller T = Some (h, p) \<Longrightarrow>
       (\<exists>T'. T' \<in># threads s \<and> owns_caller T' = Some (h, p)) \<or>
       (p < fresh (cl s) \<and> p \<notin> ran (callers (cl t)))"
  shows "owners_ok t"
  unfolding owners_ok_def
proof (intro conjI allI impI)
  show "client_ok (cl t)" using assms(2) by (simp add: evolves_def)
  fix T h p assume T: "T \<in># threads t" "owns_caller T = Some (h, p)"
  have old: "p < fresh (cl s)" "p \<notin> ran (callers (cl s)) \<or> p \<notin> ran (callers (cl t))"
    using assms(3) [OF T] owners_okD(2,3) [OF assms(1)] by blast+
  from old(1) assms(2) show "p < fresh (cl t)" by (simp add: evolves_def)
  have "callers (cl s) x = Some p" if "callers (cl t) x = Some p" for x
    using that old(1) assms(2) by (auto simp: evolves_def)
  with old(2) show "p \<notin> ran (callers (cl t))" by (auto simp: ran_def)
qed

text \<open>Usually an owner in the new state was a thread of the old one.\<close>

lemma owners_ok_keep:
  assumes "owners_ok s" and "evolves S (cl s) (cl t)"
    and "\<And>T. T \<in># threads t \<Longrightarrow> T \<in># threads s \<or> owns_caller T = None"
  shows "owners_ok t"
  using owners_ok_evolves [OF assms(1,2)] assms(3) by (metis option.distinct(1))

lemma opened_bound: "client_ok v \<Longrightarrow> opened v p \<Longrightarrow> p < fresh v"
  by (auto simp: opened_def dest: client_okD(2))

lemma OnTimerExpired_closes:
  assumes "OnTimerExpired c (Some p) e v = (ret es, v')" and "client_ok v"
    and "opened v p" and "cl_nonce v = 0"
  shows "\<not> opened v' p" and "p < fresh v'"
proof -
  obtain k where k: "heap v p = Some k" "\<not> c_done k" using assms(3) by (auto simp: opened_def)
  let ?v = "update_caller p (\<lambda>k. k\<lparr>c_done := True, c_err := TIMEOUT_FAILURE\<rparr>) v"
  have "run_callback c (c_cb k) Empty TIMEOUT_FAILURE ?v = (ret es, v')"
    using assms(1,4) k by (simp add: OnTimerExpired_def)
  moreover have "client_ok ?v" by (rule client_ok_update) (use assms(2) in auto)
  ultimately have ev: "evolves {} ?v v'" by (rule evolves_callback)
  have p: "p < fresh v" using assms(2,3) by (rule opened_bound)
  with evolvesD(3) [OF ev] show "p < fresh v'" by simp
  have "\<not> opened ?v p" by (simp add: opened_def k)
  with evolvesD(4) [OF ev, of p] p show "\<not> opened v' p" by auto
qed

lemma timer_live: "OnTimerExpired c (Some p) e v = (ret es, v') \<Longrightarrow> opened v p \<or> finished v p"
  by (auto simp: OnTimerExpired_def opened_def finished_def split: option.splits)

lemma timer_again:
  assumes "OnTimerExpired c (Some p) e v = (ret es, v')" and "\<not> (opened v p \<and> cl_nonce v = 0)"
  shows "v' = v"
  using assms by (auto simp: OnTimerExpired_def opened_def split: option.splits if_splits)

text \<open>An expired timer runs the callback of an open caller without a nonce, and only that.\<close>

lemma timer_invokes:
  assumes "OnTimerExpired c (Some p) e v = (ret es, v')"
  shows "invoked q x es =
    (if opened v p \<and> cl_nonce v = 0 then [Delivered q x TIMEOUT_FAILURE] else [])"
  using assms
  by (auto simp: OnTimerExpired_def opened_def split: option.splits if_splits intro: callback_invokes)

lemma cstep_running: "cstep c s t \<Longrightarrow> crashed s = None"
  by (induction rule: cstep.induct)

text \<open>
  What a step does to the callers, the threads that own one or owe a callback, and the events:
  most steps only let the client evolve, the others are the sections of \<open>GotPdu\<close>, a timer that
  ends its call or another one, and the two sections after a failed send.
\<close>

lemma cstep_moves [consumes 2, case_names calm packet take mark deliver timeout timer give_up fail]:
  assumes "cstep c s t" and "owners_ok s"
  obtains "evolves {} (cl s) (cl t)" and "cevents t = cevents s @ made (cl s) (cl t)"
      and "\<And>T. T \<in># threads t \<Longrightarrow> T \<in># threads s \<or> owns_caller T = None"
      and "\<And>p. pendings t p \<le> pendings s p"
      and "\<And>p. crashed t = None \<Longrightarrow> pendings t p = pendings s p"
  | u h where "cl t = got_update h (cl s)" and "threads t = add_mset (Received u h) (threads s)"
      and "cevents t = cevents s @ [Got (rep_xid h)]"
  | u h p P where "got_take h (cl s) = (Some p, cl t)" and "threads s = add_mset (Received u h) P"
      and "threads t = add_mset (Taken u h p) P" and "cevents t = cevents s @ made (cl s) (cl t)"
      and "evolves {} (cl s) (cl t)" and "p < fresh (cl s)" and "p \<notin> ran (callers (cl t))"
  | u h p P b where "got_mark h p (cl s) = (ret b, cl t)" and "threads s = add_mset (Taken u h p) P"
      and "threads t = (if b then {#Marked u h p#} else {#}) + P"
      and "cevents t = cevents s @ made (cl s) (cl t)"
      and "evolves {p} (cl s) (cl t)" and "p < fresh (cl s)" and "\<not> opened (cl t) p"
      and "b \<Longrightarrow> opened (cl s) p" and "\<not> b \<Longrightarrow> finished (cl s) p \<and> \<not> finished (cl t) p"
  | u h p where "threads s = add_mset (Marked u h p) (threads t)"
      and "cevents t = cevents s @ made (cl s) (cl t) @ [Delivered p (Some (rep_xid h)) (rep_err h)]"
      and "evolves {} (cl s) (cl t)"
  | p where "opened (cl s) p" and "cl_nonce (cl s) = 0" and "threads t = threads s"
      and "cevents t = cevents s @ made (cl s) (cl t) @ [Delivered p None TIMEOUT_FAILURE, TimerRan p]"
      and "evolves {p} (cl s) (cl t)" and "\<not> opened (cl t) p" and "p < fresh (cl t)"
  | p where "finished (cl s) p \<or> opened (cl s) p \<and> cl_nonce (cl s) > 0" and "threads t = threads s"
      and "cl t = cl s" and "cevents t = cevents s @ [TimerRan p]"
  | p e P where "threads s = add_mset (Failing p e) P" and "threads t = add_mset (Given_up p e) P"
      and "cevents t = cevents s @ made (cl s) (cl t) @ [SendFailed p]"
      and "evolves {p} (cl s) (cl t)" and "cl_nonce (cl s) = 0"
  | p e where "threads s = add_mset (Given_up p e) (threads t)"
      and "cevents t = cevents s @ made (cl s) (cl t) @ [Delivered p None e]"
      and "evolves {} (cl s) (cl t)"
proof -
  note ok = owners_okD(1) [OF assms(2)]
  note own = owners_okD(2,3) [OF assms(2)]
  note calm = that(1)
  have still: thesis
    if "cl t = cl s" and "cevents t = cevents s"
      and P: "threads t = threads s \<or> (\<exists>T. threads s = add_mset T (threads t) \<and>
        (crashed t = None \<longrightarrow> (\<forall>p. \<not> pending p T)))"
  proof (rule calm)
    show "evolves {} (cl s) (cl t)" using evolves_refl [OF ok] that(1) by simp
    show "pendings t p = pendings s p" if "crashed t = None" for p
      using that P by (auto simp: pendings_def)
    show "pendings t p \<le> pendings s p" for p using P by (auto simp: pendings_def)
  qed (use that in \<open>auto simp: made_def\<close>)
  from assms(1) show thesis
  proof cases
    case (register proc cb re to p v req)
    with evolves_register(1) [OF register(3) ok] show thesis
      by (intro that(1)) (auto simp: pendings_def)
  next
    case (request proc req p P es v)
    with evolves_send(1) [OF request(4) ok] show thesis
      by (intro that(1)) (auto simp: pendings_def)
  next
    case (packet n buf u h)
    then show thesis by (intro that(2)) (auto simp: made_def got_update_def)
  next
    case (take u h P p v)
    with evolves_take [OF take(4) ok] show thesis by (intro that(3)) auto
  next
    case (mark u h p P b v)
    with own [of "Taken u h p" h p] have p: "p < fresh (cl s)" "p \<notin> ran (callers (cl s))" by simp_all
    note ev = evolves_mark [OF mark(4) ok p(2)]
    from ev(4) have "\<not> b \<Longrightarrow> finished (cl s) p \<and> \<not> finished v p" by (simp add: finished_def)
    with mark ev(1,3,5) p(1) show thesis by (intro that(4) [where b = b and P = P]) simp_all
  next
    case (deliver u h p P es v)
    with own [of "Marked u h p" h p] have p: "p < fresh (cl s)" "p \<notin> ran (callers (cl s))" by simp_all
    from deliver evolves_deliver [OF deliver(4) ok p(2,1)] deliver_invokes [OF deliver(4)] show thesis
      by (intro that(5)) auto
  next
    case (timer p X e es v)
    note inv = timer_invokes [OF timer(4), of p None]
    show thesis
    proof (cases "opened (cl s) p \<and> cl_nonce (cl s) = 0")
      case True
      with timer inv evolves_timer [OF timer(4) ok] OnTimerExpired_closes [OF timer(4) ok]
      show thesis by (intro that(6)) auto
    next
      case False
      with timer inv timer_again [OF timer(4) False] timer_live [OF timer(4)] show thesis
        by (intro that(7)) (auto simp: made_def word_gt_0)
    qed
  next
    case (give_up p e P y v)
    with evolves_fail_mark [OF give_up(5) ok] show thesis by (intro that(8)) auto
  next
    case (fail p e P es v)
    with evolves_fail_deliver [OF fail(4) ok] fail_invokes [OF fail(4)] show thesis
      by (intro that(9)) auto
  next
    case (connect n e es v)
    with evolves_connected [OF connect(4) ok] show thesis
      by (intro that(1)) (auto simp: pendings_def)
  next
    case (send_fails x S e)
    with evolves_refl [OF ok] show thesis
      by (intro that(1)) (auto simp: pendings_def made_def split: option.splits)
  qed (rule still; auto simp: call_throws_def)+
qed

lemma owners_ok_cstep:
  assumes "cstep c s t" and "owners_ok s"
  shows "owners_ok t"
  using assms
proof (cases rule: cstep_moves)
  case calm
  then show ?thesis by (intro owners_ok_keep [OF assms(2)])
next
  case (packet u h)
  with assms(2) show ?thesis
    by (auto simp: owners_ok_def got_update_def client_ok_def intro: window_ok_UpdateXidRep)
next
  case (take u h p P)
  then show ?thesis by (intro owners_ok_evolves [OF assms(2) take(5)]) (auto split: if_splits)
next
  case (mark u h p P b)
  then show ?thesis by (intro owners_ok_evolves [OF assms(2) mark(5)]) (auto split: if_splits)
next
  case (deliver u h p)
  then show ?thesis by (intro owners_ok_keep [OF assms(2) deliver(3)]) auto
next
  case (timeout p)
  then show ?thesis by (intro owners_ok_keep [OF assms(2) timeout(5)]) auto
next
  case (timer p)
  with assms(2) show ?thesis by (simp add: owners_ok_def)
next
  case (give_up p e P)
  then show ?thesis by (intro owners_ok_keep [OF assms(2) give_up(4)]) auto
next
  case (fail p e)
  then show ?thesis by (intro owners_ok_keep [OF assms(2) fail(3)]) auto
qed

section \<open>At most one callback, and one more for each failed send\<close>

definition account_ok :: "'r cconfig \<Rightarrow> bool" where
  "account_ok s \<longleftrightarrow>
     (\<forall>p. invocations s p \<le>
        send_failures s p + (if opened (cl s) p \<or> fresh (cl s) \<le> p then 0 else 1))"

lemma account_ok_keep:
  assumes "account_ok s" and "\<And>p. invocations t p \<le> invocations s p"
    and "\<And>p. send_failures s p \<le> send_failures t p" and "fresh (cl s) \<le> fresh (cl t)"
    and "\<And>p. opened (cl t) p \<Longrightarrow> opened (cl s) p \<or> fresh (cl s) \<le> p"
  shows "account_ok t"
  unfolding account_ok_def
proof
  fix p
  have "invocations s p \<le>
      send_failures s p + (if opened (cl s) p \<or> fresh (cl s) \<le> p then 0 else 1)"
    using assms(1) by (simp add: account_ok_def)
  with assms(2) [of p] assms(3) [of p] assms(4) assms(5) [of p]
  show "invocations t p \<le>
      send_failures t p + (if opened (cl t) p \<or> fresh (cl t) \<le> p then 0 else 1)"
    by (auto split: if_splits)
qed

text \<open>A caller that stops being open may gain one invocation.\<close>

lemma account_ok_close:
  assumes "account_ok s" and "\<And>q. invocations t q \<le> invocations s q + (if q = p then 1 else 0)"
    and "\<And>q. send_failures s q \<le> send_failures t q" and "fresh (cl s) \<le> fresh (cl t)"
    and "\<And>q. opened (cl t) q \<Longrightarrow> opened (cl s) q \<or> fresh (cl s) \<le> q"
    and "opened (cl s) p" and "\<not> opened (cl t) p" and "p < fresh (cl t)"
  shows "account_ok t"
  unfolding account_ok_def
proof
  fix q
  have "invocations s q \<le>
      send_failures s q + (if opened (cl s) q \<or> fresh (cl s) \<le> q then 0 else 1)"
    using assms(1) by (simp add: account_ok_def)
  with assms(2) [of q] assms(3) [of q] assms(4) assms(5) [of q] assms(6-8)
  show "invocations t q \<le>
      send_failures t q + (if opened (cl t) q \<or> fresh (cl t) \<le> q then 0 else 1)"
    by (cases "q = p") (auto split: if_splits)
qed

text \<open>A failed send may add one invocation.\<close>

lemma account_ok_fail:
  assumes "account_ok s" and "\<And>q. invocations t q \<le> invocations s q + (if q = p then 1 else 0)"
    and "\<And>q. send_failures t q = send_failures s q + (if q = p then 1 else 0)"
    and "fresh (cl s) \<le> fresh (cl t)"
    and "\<And>q. opened (cl t) q \<Longrightarrow> opened (cl s) q \<or> fresh (cl s) \<le> q"
  shows "account_ok t"
  unfolding account_ok_def
proof
  fix q
  have "invocations s q \<le>
      send_failures s q + (if opened (cl s) q \<or> fresh (cl s) \<le> q then 0 else 1)"
    using assms(1) by (simp add: account_ok_def)
  with assms(2,3) [of q] assms(4) assms(5) [of q]
  show "invocations t q \<le>
      send_failures t q + (if opened (cl t) q \<or> fresh (cl t) \<le> q then 0 else 1)"
    by (auto split: if_splits)
qed

lemma finished_not_opened: "finished v p \<Longrightarrow> \<not> opened v p"
  by (auto simp: opened_def finished_def)

lemma opened_got_update [simp]: "opened (got_update h v) = opened v"
  "finished (got_update h v) = finished v" "fresh (got_update h v) = fresh v"
  "cl_nonce (got_update h v) = cl_nonce v" "callers (got_update h v) = callers v"
  by (auto simp: opened_def finished_def got_update_def fun_eq_iff)

lemma account_ok_cstep:
  assumes "cstep c s t" and "owners_ok s" and "account_ok s"
  shows "account_ok t"
  using assms(1,2)
proof (cases rule: cstep_moves)
  case calm
  with evolvesD(3,4) [OF calm(1)] show ?thesis
    by (intro account_ok_keep [OF assms(3)]) (auto simp: account_defs)
next
  case (packet u h)
  then show ?thesis by (intro account_ok_keep [OF assms(3)]) (auto simp: account_defs)
next
  case (take u h p P)
  with evolvesD(3,4) [OF take(5)] show ?thesis
    by (intro account_ok_keep [OF assms(3)]) (auto simp: account_defs)
next
  case (mark u h p P b)
  with evolvesD(3,4) [OF mark(5)] show ?thesis
    by (cases b; intro account_ok_close [OF assms(3), of _ p] account_ok_keep [OF assms(3)])
       (auto simp: account_defs)
next
  case (deliver u h p)
  with evolvesD(3,4) [OF deliver(3)] show ?thesis
    by (intro account_ok_keep [OF assms(3)]) (auto simp: account_defs)
next
  case (timeout p)
  with evolvesD(3,4) [OF timeout(5)] show ?thesis
    by (intro account_ok_close [OF assms(3), of _ p]) (auto simp: account_defs)
next
  case (timer p)
  then show ?thesis by (intro account_ok_keep [OF assms(3)]) (auto simp: account_defs)
next
  case (give_up p e P)
  with evolvesD(3,4) [OF give_up(4)] show ?thesis
    by (intro account_ok_fail [OF assms(3), of _ p]) (auto simp: account_defs)
next
  case (fail p e)
  with evolvesD(3,4) [OF fail(3)] show ?thesis
    by (intro account_ok_keep [OF assms(3)]) (auto simp: account_defs)
qed

section \<open>At least one callback for a caller that is done\<close>

definition served_ok :: "'r cconfig \<Rightarrow> bool" where
  "served_ok s \<longleftrightarrow>
     (crashed s = None \<longrightarrow>
        (\<forall>p. finished (cl s) p \<or> (TimerRan p \<in> set (cevents s) \<and> cl_nonce (cl s) = 0) \<longrightarrow>
          1 \<le> invocations s p))"

lemma served_ok_keep:
  assumes "served_ok s" and "crashed s = None"
    and "\<And>q. invocations s q + (if q = p \<and> b then 1 else 0) \<le> invocations t q"
    and "\<And>q. finished (cl t) q \<Longrightarrow> finished (cl s) q \<or> (q = p \<and> b)"
    and "cl_nonce (cl t) = cl_nonce (cl s)"
    and "\<And>q. TimerRan q \<in> set (cevents t) \<Longrightarrow> cl_nonce (cl s) = 0 \<Longrightarrow>
       TimerRan q \<in> set (cevents s) \<or> finished (cl s) q \<or> (q = p \<and> b)"
  shows "served_ok t"
  unfolding served_ok_def
proof (intro impI allI)
  fix q
  assume q: "finished (cl t) q \<or> (TimerRan q \<in> set (cevents t) \<and> cl_nonce (cl t) = 0)"
  then have "(q = p \<and> b) \<or> finished (cl s) q \<or>
      (TimerRan q \<in> set (cevents s) \<and> cl_nonce (cl s) = 0)"
    using assms(4) [of q] assms(5) assms(6) [of q] by auto
  then show "1 \<le> invocations t q"
    using assms(1,2) assms(3) [of q] unfolding served_ok_def by fastforce
qed

lemma served_ok_cstep:
  assumes "cstep c s t" and "owners_ok s" and "served_ok s"
  shows "served_ok t"
proof -
  note keep = served_ok_keep [OF assms(3) cstep_running [OF assms(1)]]
  from assms(1,2) show ?thesis
  proof (cases rule: cstep_moves)
    case calm
    then show ?thesis
    proof (cases "crashed t = None")
      case True
      with calm evolvesD(2,5) [OF calm(1)] show ?thesis
        by (intro keep [of 0 False]) (auto simp: invocations_def deliveries_def)
    qed (auto simp: served_ok_def)
  next
    case (packet u h)
    then show ?thesis by (intro keep [of 0 False]) (auto simp: account_defs)
  next
    case (take u h p P)
    with evolvesD(2,5) [OF take(5)] show ?thesis
      by (intro keep [of p False]) (auto simp: account_defs)
  next
    case (mark u h p P b)
    with evolvesD(2,5) [OF mark(5)] show ?thesis by (intro keep [of p b]) (auto simp: account_defs)
  next
    case (deliver u h p)
    with evolvesD(2,5) [OF deliver(3)] show ?thesis
      by (intro keep [of p False]) (auto simp: account_defs)
  next
    case (timeout p)
    with evolvesD(2,5) [OF timeout(5)] show ?thesis
      by (intro keep [of p True]) (auto simp: account_defs)
  next
    case (timer p)
    then show ?thesis by (intro keep [of p False]) (auto simp: account_defs)
  next
    case (give_up p e P)
    with evolvesD(2,5) [OF give_up(4)] show ?thesis
      by (intro keep [of p True]) (auto simp: account_defs)
  next
    case (fail p e)
    with evolvesD(2,5) [OF fail(3)] show ?thesis
      by (intro keep [of p False]) (auto simp: account_defs)
  qed
qed

section \<open>Origin of the replies, and the window\<close>

text \<open>
  A caller in \<open>callers_\<close> was registered under its transaction, and a reply reaches only the
  caller of its transaction. Failed sends end calls only of a client without a nonce. The
  window is the result of the headers read so far.
\<close>

definition origin_ok :: "'r cconfig \<Rightarrow> bool" where
  "origin_ok s \<longleftrightarrow>
     (\<forall>x p. callers (cl s) x = Some p \<longrightarrow> Made p x \<in> set (cevents s)) \<and>
     (\<forall>T h p. T \<in># threads s \<longrightarrow> owns_caller T = Some (h, p) \<longrightarrow>
        Made p (rep_xid h) \<in> set (cevents s)) \<and>
     (\<forall>p x e. Delivered p (Some x) e \<in> set (cevents s) \<longrightarrow> Made p x \<in> set (cevents s))"

definition nonce_ok :: "'r cconfig \<Rightarrow> bool" where
  "nonce_ok s \<longleftrightarrow> (\<forall>p. SendFailed p \<in> set (cevents s) \<longrightarrow> cl_nonce (cl s) = 0)"

definition window_of_replies :: "'r cconfig \<Rightarrow> bool" where
  "window_of_replies s \<longleftrightarrow> rep_window (cl s) = fold UpdateXidRep (replies_got s) []"

lemma origin_ok_keep:
  assumes "origin_ok s" and "evolves S (cl s) (cl t)"
    and "set (cevents t) = set (cevents s) \<union> set (made (cl s) (cl t)) \<union> set es"
    and "\<And>T h p. T \<in># threads t \<Longrightarrow> owns_caller T = Some (h, p) \<Longrightarrow>
       (\<exists>T' h'. T' \<in># threads s \<and> owns_caller T' = Some (h', p) \<and> rep_xid h = rep_xid h') \<or>
       callers (cl s) (rep_xid h) = Some p"
    and "\<And>p x e. Delivered p (Some x) e \<in> set es \<Longrightarrow>
       \<exists>T h. T \<in># threads s \<and> owns_caller T = Some (h, p) \<and> rep_xid h = x"
  shows "origin_ok t"
  unfolding origin_ok_def
proof (intro conjI allI impI)
  fix x p assume "callers (cl t) x = Some p"
  then show "Made p x \<in> set (cevents t)"
    using evolvesD(6) [OF assms(2), of x p] assms(1,3) by (auto simp: origin_ok_def made_def)
next
  fix T h p assume "T \<in># threads t" "owns_caller T = Some (h, p)"
  from assms(4) [OF this] show "Made p (rep_xid h) \<in> set (cevents t)"
    using assms(1,3) unfolding origin_ok_def by fastforce
next
  fix p x e assume "Delivered p (Some x) e \<in> set (cevents t)"
  then have "Delivered p (Some x) e \<in> set (cevents s) \<or> Delivered p (Some x) e \<in> set es"
    using assms(3) by auto
  then show "Made p x \<in> set (cevents t)"
    using assms(1,3) assms(5) [of p x e] unfolding origin_ok_def by blast
qed

text \<open>The common case: the owners of the new state owned the same before.\<close>

lemma origin_ok_same:
  assumes "origin_ok s" and "evolves S (cl s) (cl t)"
    and "set (cevents t) = set (cevents s) \<union> set (made (cl s) (cl t)) \<union> set es"
    and "\<And>T. T \<in># threads t \<Longrightarrow> T \<in># threads s \<or> owns_caller T = None"
    and "\<And>p x e. Delivered p (Some x) e \<notin> set es"
  shows "origin_ok t"
  by (rule origin_ok_keep [OF assms(1-3)]) (use assms(4,5) in fastforce)+

lemma origin_ok_cstep:
  assumes "cstep c s t" and "owners_ok s" and "origin_ok s"
  shows "origin_ok t"
  using assms(1,2)
proof (cases rule: cstep_moves)
  case calm
  then show ?thesis by (intro origin_ok_same [OF assms(3) calm(1), of "[]"]) auto
next
  case (packet u h)
  with assms(3) show ?thesis by (auto simp: origin_ok_def)
next
  case (take u h p P)
  with got_takeD(1) [OF take(1)] show ?thesis
    by (intro origin_ok_keep [OF assms(3) take(5), of "[]"]) (auto split: if_splits)
next
  case (mark u h p P b)
  then show ?thesis
    by (intro origin_ok_keep [OF assms(3) mark(5), of "[]"]) (auto split: if_splits)
next
  case (deliver u h p)
  then show ?thesis
    by (intro origin_ok_keep [OF assms(3) deliver(3),
          of "[Delivered p (Some (rep_xid h)) (rep_err h)]"]) auto
next
  case (timeout p)
  then show ?thesis
    by (intro origin_ok_same [OF assms(3) timeout(5),
          of "[Delivered p None TIMEOUT_FAILURE, TimerRan p]"]) auto
next
  case (timer p)
  with assms(3) show ?thesis by (simp add: origin_ok_def)
next
  case (give_up p e P)
  then show ?thesis by (intro origin_ok_same [OF assms(3) give_up(4), of "[SendFailed p]"]) auto
next
  case (fail p e)
  then show ?thesis by (intro origin_ok_same [OF assms(3) fail(3), of "[Delivered p None e]"]) auto
qed

text \<open>What the steps do to the nonce, the window and the events that count for them.\<close>

lemma cstep_frame:
  assumes "cstep c s t" and "owners_ok s"
  shows "cl_nonce (cl t) = cl_nonce (cl s)" and "fresh (cl s) \<le> fresh (cl t)"
    and "nonce_ok s \<Longrightarrow> nonce_ok t" and "window_of_replies s \<Longrightarrow> window_of_replies t"
proof -
  have evolving: "cl_nonce (cl t) = cl_nonce (cl s) \<and> fresh (cl s) \<le> fresh (cl t) \<and>
      (nonce_ok s \<longrightarrow> nonce_ok t) \<and> (window_of_replies s \<longrightarrow> window_of_replies t)"
    if "evolves S (cl s) (cl t)" and "cevents t = cevents s @ made (cl s) (cl t) @ es"
      and "concat (map got es) = []" and "\<And>p. SendFailed p \<in> set es \<Longrightarrow> cl_nonce (cl s) = 0" for S es
    using evolvesD(2,3,7) [OF that(1)] that(2)
    by (auto simp: nonce_ok_def window_of_replies_def replies_got_def that(3) dest: that(4))
  from assms have "cl_nonce (cl t) = cl_nonce (cl s) \<and> fresh (cl s) \<le> fresh (cl t) \<and>
      (nonce_ok s \<longrightarrow> nonce_ok t) \<and> (window_of_replies s \<longrightarrow> window_of_replies t)"
  proof (cases rule: cstep_moves)
    case calm
    then show ?thesis by (intro evolving [of "{}" "[]"]) auto
  next
    case (packet u h)
    then show ?thesis
      by (auto simp: nonce_ok_def window_of_replies_def replies_got_def got_update_def)
  next
    case (take u h p P)
    then show ?thesis by (intro evolving [of "{}" "[]"]) auto
  next
    case (mark u h p P b)
    then show ?thesis by (intro evolving [of "{p}" "[]"]) auto
  next
    case (timer p)
    then show ?thesis by (simp add: nonce_ok_def window_of_replies_def replies_got_def)
  qed (erule (1) evolving; simp)+
  then show "cl_nonce (cl t) = cl_nonce (cl s)" "fresh (cl s) \<le> fresh (cl t)"
    "nonce_ok s \<Longrightarrow> nonce_ok t" "window_of_replies s \<Longrightarrow> window_of_replies t" by blast+
qed

section \<open>The invariant of the client\<close>

definition cconfig_inv :: "'r cconfig \<Rightarrow> bool" where
  "cconfig_inv s \<longleftrightarrow>
     owners_ok s \<and> account_ok s \<and> served_ok s \<and> origin_ok s \<and> nonce_ok s \<and> window_of_replies s"

interpretation csys: invariant_system cconfig_init "cstep c" "cconfig_inv"
proof unfold_locales
  fix s :: "'a cconfig"
  assume "cconfig_init s"
  then obtain h q n r rnd where new: "RpcClient_new True True h q n r rnd = ret (cl s)"
    and e: "threads s = {#}" "cevents s = []" by (auto simp: cconfig_init_def)
  from RpcClient_newD [OF new] e client_ok_new [OF new] show "cconfig_inv s"
    by (simp add: cconfig_inv_def owners_ok_def account_ok_def served_ok_def origin_ok_def
        nonce_ok_def window_of_replies_def account_defs finished_def)
next
  fix s t :: "'a cconfig"
  assume "cconfig_inv s" "cstep c s t"
  then show "cconfig_inv t"
    unfolding cconfig_inv_def
    by (blast intro: owners_ok_cstep account_ok_cstep served_ok_cstep origin_ok_cstep cstep_frame)
qed

lemma creach_inv: "creach c s \<Longrightarrow> cconfig_inv s"
  by (rule csys.reach_inv)

section \<open>Consequences of the invariant\<close>

lemmas cconfig_invD = csys.reach_inv [unfolded cconfig_inv_def]

lemma deliveries_bound:
  assumes "creach c s"
  shows "deliveries s p \<le> send_failures s p + 1"
proof -
  have "invocations s p \<le>
      send_failures s p + (if opened (cl s) p \<or> fresh (cl s) \<le> p then 0 else 1)"
    using cconfig_invD [OF assms] by (simp add: account_ok_def)
  then show ?thesis by (auto simp: invocations_def split: if_splits)
qed

lemma no_failures_with_nonce:
  assumes "creach c s" and "cl_nonce (cl s) > 0"
  shows "send_failures s p = 0"
proof -
  have "SendFailed p \<notin> set (cevents s)"
    using cconfig_invD [OF assms(1)] assms(2) by (auto simp: nonce_ok_def)
  then show ?thesis by (auto simp: send_failures_def filter_empty_conv)
qed

lemma served_by_timer:
  assumes "creach c s" and "crashed s = None" and "cl_nonce (cl s) = 0"
    and "TimerRan p \<in> set (cevents s)"
  shows "1 \<le> invocations s p"
  using cconfig_invD [OF assms(1)] assms(2-4) by (simp add: served_ok_def)

lemma window_of_client:
  "creach c s \<Longrightarrow> rep_window (cl s) = fold UpdateXidRep (replies_got s) []"
  using cconfig_invD by (auto simp: window_of_replies_def)

lemma delivered_origin:
  "creach c s \<Longrightarrow> Delivered p (Some x) e \<in> set (cevents s) \<Longrightarrow> Made p x \<in> set (cevents s)"
  using cconfig_invD by (fastforce simp: origin_ok_def)

section \<open>Example runs\<close>

text \<open>
  One call on a new client: transaction \<open>2\<close>, caller \<open>0\<close>. Its reply may come before the call has
  armed the timer, before the timer expires, while the handler of the expired timer is queued,
  or never.
\<close>

definition demo_v0 :: "nonce_t \<Rightarrow> unit client" where
  "demo_v0 n =
     \<lparr>next_xid = 2, callers = Map.empty, heap = Map.empty, fresh = 0, cl_nonce = n,
      cl_srv_nonce = 0, bind_done = False, rep_window = [], host = [], port = [],
      num_workers = 2, connected = False\<rparr>"

text \<open>The argument of the call is \<open>0\<close>, and its reply is converted to \<open>()\<close>.\<close>

definition demo_req :: marshall where
  "demo_req = (case Marshall_put (JUint 0) Marshall_new of Inl _ \<Rightarrow> Marshall_new | Inr m \<Rightarrow> m)"

definition demo_re :: "unit extractor" where
  "demo_re = ReplyExtractor (\<lambda>j. ret (Any_value ())) id"

lemma demo_arg: "plain (JUint 0)" "wf_Err (rep_err \<lparr>rep_xid = 2, rep_err = OK\<rparr>)"
  by simp_all

lemma demo_req_put: "Marshall_put (JUint 0) Marshall_new = ret m \<Longrightarrow> demo_req = m"
  by (simp add: demo_req_def)

definition demo_caller :: "bool \<Rightarrow> Err \<Rightarrow> string \<Rightarrow> unit Caller" where
  "demo_caller d e b =
     \<lparr>c_done = d, c_xid = 2, c_err = e, c_cb = User 1, c_re = demo_re, c_timer = 12000,
      c_buf = b\<rparr>"

definition demo_v1 :: "nonce_t \<Rightarrow> bool \<Rightarrow> Err \<Rightarrow> string \<Rightarrow> unit client" where
  "demo_v1 n d e b =
     (demo_v0 n)\<lparr>next_xid := 3, callers := [2 \<mapsto> 0], heap := [0 \<mapsto> demo_caller d e b], fresh := 1\<rparr>"

definition demo_s :: "unit client \<Rightarrow> cpc multiset \<Rightarrow> caller_ptr multiset \<Rightarrow> caller_ptr multiset \<Rightarrow>
    xid_t multiset \<Rightarrow> nat \<Rightarrow> cevent list \<Rightarrow> unit cconfig" where
  "demo_s v T A X S n E =
     \<lparr>cl = v, threads = T, armed = A, expired = X, sends = S, receives = n, connecting = 1,
      reconnects = {#}, crashed = None, cevents = E\<rparr>"

lemma demo_s_simps [simp]:
  "cl (demo_s v T A X S n E) = v" "threads (demo_s v T A X S n E) = T"
  "armed (demo_s v T A X S n E) = A" "expired (demo_s v T A X S n E) = X"
  "sends (demo_s v T A X S n E) = S" "receives (demo_s v T A X S n E) = n"
  "crashed (demo_s v T A X S n E) = None" "cevents (demo_s v T A X S n E) = E"
  by (simp_all add: demo_s_def)

lemma demo_v_simps [simp]:
  "cl_nonce (demo_v0 n) = n" "callers (demo_v0 n) = Map.empty" "heap (demo_v0 n) = Map.empty"
  "next_xid (demo_v0 n) = 2" "fresh (demo_v0 n) = 0" "\<not> bind_done (demo_v0 n)"
  "cl_nonce (demo_v1 n d e b) = n" "callers (demo_v1 n d e b) = [2 \<mapsto> 0]"
  "heap (demo_v1 n d e b) = [0 \<mapsto> demo_caller d e b]" "fresh (demo_v1 n d e b) = 1"
  "next_xid (demo_v1 n d e b) = 3"
  "c_done (demo_caller d e b) = d" "c_cb (demo_caller d e b) = User 1"
  "c_xid (demo_caller d e b) = 2" "c_re (demo_caller d e b) = demo_re"
  "c_buf (demo_caller d e b) = b" "c_timer (demo_caller d e b) = 12000"
  by (simp_all add: demo_v0_def demo_v1_def demo_caller_def)

lemma creach_step: "creach c s \<Longrightarrow> cstep c s t \<Longrightarrow> creach c t"
  by (rule reach_step)

lemma demo_init: "creach c (demo_s (demo_v0 (if r then 5 else 0)) {#} {#} {#} {#} 0 [])"
proof (rule reach_init)
  have "\<exists>h q n r' rnd. RpcClient_new True True h q n r' rnd = ret (demo_v0 (if r then 5 else 0))"
    by (intro exI [of _ "[]"] exI [of _ 2] exI [of _ r] exI [of _ 5])
       (simp add: RpcClient_new_def demo_v0_def)
  then show "cconfig_init (demo_s (demo_v0 (if r then 5 else 0)) {#} {#} {#} {#} 0 [])"
    unfolding cconfig_init_def by (simp add: demo_s_def)
qed

text \<open>The call up to its send.\<close>

lemma demo_request_steps:
  obtains b m u where
    "cstep demo_codec (demo_s (demo_v0 n) {#} {#} {#} {#} 0 [])
       (demo_s (demo_v1 n False OK []) {#Registered BIND demo_req 0#} {#} {#} {#} 0 [Made 0 2])"
    and "cstep demo_codec
       (demo_s (demo_v1 n False OK []) {#Registered BIND demo_req 0#} {#} {#} {#} 0 [Made 0 2])
       (demo_s (demo_v1 n False OK b) {#Requested 0#} {#} {#} {#2#} 0 [Made 0 2])"
    and "Marshall_Buf demo_codec m = ret b" and "Unmarshall_of demo_codec b = ret u"
    and "Unmarshall_get_req u = ret \<lparr>req_xid = 2, req_proc = BIND, req_clt_nonce = n,
           req_srv_nonce = 0, req_xid_rep = 0\<rparr>"
    and "Unmarshall_get (\<lambda>j. ret ()) u = ret ((), u\<lparr>un_id := 1\<rparr>)"
proof -
  let ?h = "\<lparr>req_xid = 2, req_proc = BIND, req_clt_nonce = n, req_srv_nonce = 0,
      req_xid_rep = 0\<rparr>"
  obtain m0 m b u where m0: "Marshall_put (JUint 0) Marshall_new = ret m0"
    and m: "Marshall_put_req ?h m0 = ret m" and b: "Marshall_Buf demo_codec m = ret b"
    and u: "Unmarshall_of demo_codec b = ret u" "Unmarshall_get_req u = ret ?h"
    and g: "\<And>conv :: json \<Rightarrow> unit res. Unmarshall_get conv u =
      bind_res (conv (canon (JUint 0))) (\<lambda>x. ret (x, u\<lparr>un_id := 1\<rparr>))"
    by (rule jw.request_read [where t = "JUint 0" and h = ?h and fl = "\<lambda>d. []" and
          strtod = "\<lambda>s. 0", OF demo_arg(1)]) (rule that; assumption)
  note m = m [folded demo_req_put [OF m0]]
  let ?s0 = "demo_s (demo_v0 n) {#} {#} {#} {#} 0 []"
  let ?s1 = "demo_s (demo_v1 n False OK []) {#Registered BIND demo_req 0#} {#} {#} {#} 0 [Made 0 2]"
  let ?s2 = "demo_s (demo_v1 n False OK b) {#Requested 0#} {#} {#} {#2#} 0 [Made 0 2]"
  have "call_register BIND (User 1) demo_re kToMax (demo_v0 n) =
      (Some 0, demo_v1 n False OK [])"
    by (simp add: call_register_def demo_v1_def demo_v0_def demo_caller_def kToMax_def fun_upd_def
        Let_def fun_eq_iff)
  then have s01: "cstep demo_codec ?s0 ?s1"
    using cstep.register [of ?s0 BIND "User 1" "\<lambda>j. ret (Any_value ())" kToMax 0 _ demo_codec demo_req]
    by (simp add: settle_def made_def flip: demo_re_def) (simp add: demo_s_def)
  have "call_send demo_codec BIND demo_req 0 (demo_v1 n False OK []) =
      (ret [SendTo b 2], demo_v1 n False OK b)"
    using m b
    by (simp add: call_send_def demo_v1_def demo_v0_def demo_caller_def received_xid_def
        update_caller_def fun_upd_def fun_eq_iff)
  then have "cstep demo_codec ?s1 ?s2"
    using cstep.request [of ?s1 BIND demo_req 0 "{#}" demo_codec]
    by (simp add: settle_def made_def perform_def) (simp add: demo_s_def)
  from that [OF s01 this b u] g show thesis by simp
qed

lemma demo_request:
  obtains b where
    "creach demo_codec (demo_s (demo_v1 (if r then 5 else 0) False OK b) {#Requested 0#} {#} {#}
       {#2#} 0 [Made 0 2])"
proof (rule demo_request_steps [of "if r then 5 else 0"])
  fix b m u
  assume "cstep demo_codec (demo_s (demo_v0 (if r then 5 else 0)) {#} {#} {#} {#} 0 [])
      (demo_s (demo_v1 (if r then 5 else 0) False OK []) {#Registered BIND demo_req 0#} {#} {#}
        {#} 0 [Made 0 2])"
    "cstep demo_codec (demo_s (demo_v1 (if r then 5 else 0) False OK [])
        {#Registered BIND demo_req 0#} {#} {#} {#} 0 [Made 0 2])
      (demo_s (demo_v1 (if r then 5 else 0) False OK b) {#Requested 0#} {#} {#} {#2#} 0 [Made 0 2])"
  from creach_step [OF creach_step [OF demo_init this(1)] this(2)] show thesis by (rule that)
qed

text \<open>A reply to the call, taken from the wire and delivered, from any state that expects it.\<close>

lemma demo_packet:
  obtains buf u where "got_read demo_codec buf = ret (u, \<lparr>rep_xid = 2, rep_err = OK\<rparr>)"
    and "demo_re u = ret (Any_value ())"
proof -
  let ?h = "\<lparr>rep_xid = 2, rep_err = OK\<rparr>"
  obtain b u where u: "Unmarshall_of demo_codec b = ret u" "Unmarshall_get_rep u = ret ?h"
    and g: "\<And>conv :: json \<Rightarrow> unit any res. Unmarshall_get conv u =
      bind_res (conv (canon (JUint 0))) (\<lambda>x. ret (x, u\<lparr>un_id := 1\<rparr>))"
    by (rule jw.reply_read [where t = "JUint 0" and r = ?h and fl = "\<lambda>d. []" and
          strtod = "\<lambda>s. 0", OF demo_arg]) (rule that; assumption)
  have "demo_re u = ret (Any_value ())" by (simp add: demo_re_def ReplyExtractor_def g)
  then show thesis by (rule that [OF got_read_eq [OF u]])
qed

definition demo_v2 :: "nonce_t \<Rightarrow> unit client" where
  "demo_v2 n = (demo_v0 n)\<lparr>next_xid := 3, fresh := 1, rep_window := [2]\<rparr>"

lemma settle_demo [simp]:
  "settle v P es (demo_s w T A X S n E) =
     demo_s v P (filter_mset (\<lambda>p. heap v p \<noteq> None) A) X S n (E @ made w v @ es)"
  by (simp add: settle_def demo_s_def)

lemma perform_demo [simp]:
  "perform [] s = s"
  "perform [ReceiveFrom] (demo_s w T A X S n E) = demo_s w T A X S (n + 1) E"
  "perform [ArmTimer p i] (demo_s w T A X S n E) = demo_s w T (add_mset p A) X S n E"
  "perform [Invoke k r e] s = s"
  by (simp_all add: perform_def demo_s_def)

lemma update_demo [simp]:
  "(demo_s w T A X S n E)\<lparr>threads := T'\<rparr> = demo_s w T' A X S n E"
  "(demo_s w T A X S n E)\<lparr>sends := S'\<rparr> = demo_s w T A X S' n E"
  "(demo_s w T A X S n E)\<lparr>receives := n'\<rparr> = demo_s w T A X S n' E"
  "(demo_s w T A X S n E)\<lparr>expired := X'\<rparr> = demo_s w T A X' S n E"
  "(demo_s w T A X S n E)\<lparr>armed := A'\<rparr> = demo_s w T A' X S n E"
  by (simp_all add: demo_s_def)

lemma demo_answer_steps:
  fixes n :: nonce_t and b :: string and T :: "cpc multiset" and h :: ReplyHeader
    and v1 :: "unit client"
  defines "h \<equiv> \<lparr>rep_xid = 2, rep_err = OK\<rparr>" and "v1 \<equiv> got_update h (demo_v1 n False OK b)"
  assumes rd: "got_read demo_codec buf = ret (u, h)" and "A = {#} \<or> A = {#0#}"
    and re: "demo_re u = ret (Any_value ())"
  obtains v3 where
    "cstep demo_codec (demo_s (demo_v1 n False OK b) T A X S 1 E)
       (demo_s v1 (add_mset (Received u h) T) A X S 0 (E @ [Got 2]))"
    and "cstep demo_codec (demo_s v1 (add_mset (Received u h) T) A X S 0 (E @ [Got 2]))
       (demo_s (v1\<lparr>callers := Map.empty\<rparr>) (add_mset (Taken u h 0) T) A X S 0 (E @ [Got 2]))"
    and "cstep demo_codec
       (demo_s (v1\<lparr>callers := Map.empty\<rparr>) (add_mset (Taken u h 0) T) A X S 0 (E @ [Got 2]))
       (demo_s v3 (add_mset (Marked u h 0) T) A X S 0 (E @ [Got 2]))"
    and "cstep demo_codec (demo_s v3 (add_mset (Marked u h 0) T) A X S 0 (E @ [Got 2]))
       (demo_s (demo_v2 n) T {#} X S 0 (E @ [Got 2, Delivered 0 (Some 2) OK]))"
proof -
  let ?c = demo_codec
  let ?v2 = "v1\<lparr>callers := Map.empty\<rparr>"
  let ?v3 = "?v2\<lparr>heap := [0 \<mapsto> demo_caller True OK b]\<rparr>"
  have h1: "heap v1 = [0 \<mapsto> demo_caller False OK b]" "callers v1 = [2 \<mapsto> 0]" "fresh v1 = 1"
    by (simp_all add: v1_def got_update_def)
  have keep: "filter_mset (\<lambda>p. v p \<noteq> None) A = A" if "v 0 \<noteq> None" for v :: "nat \<Rightarrow> 'x option"
    using assms(4) that by auto
  let ?s0 = "demo_s (demo_v1 n False OK b) T A X S 1 E"
  let ?s1 = "demo_s v1 (add_mset (Received u h) T) A X S 0 (E @ [Got 2])"
  let ?s2 = "demo_s ?v2 (add_mset (Taken u h 0) T) A X S 0 (E @ [Got 2])"
  let ?s3 = "demo_s ?v3 (add_mset (Marked u h 0) T) A X S 0 (E @ [Got 2])"
  let ?s4 = "demo_s (demo_v2 n) T {#} X S 0 (E @ [Got 2, Delivered 0 (Some 2) OK])"
  have x: "rep_xid h = 2" "rep_err h = OK" by (simp_all add: h_def)
  have s01: "cstep ?c ?s0 ?s1"
    using cstep.packet [of ?s0 0 ?c buf u h] rd keep [of "heap v1"] h1 x
    by (simp add: made_def v1_def)
  have "got_take h v1 = (Some 0, ?v2)" by (simp add: got_take_def h1 x)
  then have s12: "cstep ?c ?s1 ?s2"
    using cstep.take [of ?s1 u h T 0 ?v2 ?c] keep [of "heap v1"] h1 by (simp add: made_def)
  have "got_mark h 0 ?v2 = (ret True, ?v3)"
    by (simp add: got_mark_def h1 x update_caller_def demo_caller_def fun_upd_def fun_eq_iff)
  then have s23: "cstep ?c ?s2 ?s3"
    using cstep.mark [of ?s2 u h 0 T True ?v3 ?c] keep [of "heap ?v3"] h1 by (simp add: made_def)
  have "got_deliver ?c u h 0 ?v3 = (ret [Invoke (User 1) (Any_value ()) OK], demo_v2 n)"
    by (simp add: got_deliver_def run_callback_def free_def demo_v2_def v1_def got_update_def
        demo_v1_def demo_v0_def UpdateXidRep_def fun_upd_def fun_eq_iff x re)
  then have "cstep ?c ?s3 ?s4"
    using cstep.deliver [of ?s3 u h 0 T ?c] h1 x by (simp add: made_def demo_v2_def)
  from that [OF s01 s12 s23 this] show thesis .
qed

lemma demo_answer_run:
  assumes "A = {#} \<or> A = {#0#}"
  shows "(cstep demo_codec)\<^sup>*\<^sup>* (demo_s (demo_v1 n False OK b) T A X S 1 E)
    (demo_s (demo_v2 n) T {#} X S 0 (E @ [Got 2, Delivered 0 (Some 2) OK]))"
proof -
  obtain buf u where rd: "got_read demo_codec buf = ret (u, \<lparr>rep_xid = 2, rep_err = OK\<rparr>)"
    and re: "demo_re u = ret (Any_value ())"
    by (rule demo_packet)
  note steps = converse_rtranclp_into_rtranclp
  show ?thesis
    using steps [OF _ steps [OF _ steps [OF _ r_into_rtranclp]]]
    by (rule demo_answer_steps [OF rd assms re, of n b T X S E])
qed

lemma creach_run: "(cstep c)\<^sup>*\<^sup>* s t \<Longrightarrow> creach c s \<Longrightarrow> creach c t"
  by (induction rule: rtranclp_induct) (simp_all add: creach_step)

lemma demo_answer:
  assumes "creach demo_codec (demo_s (demo_v1 n False OK b) T A X S 1 E)"
    and "A = {#} \<or> A = {#0#}"
  shows "creach demo_codec
    (demo_s (demo_v2 n) T {#} X S 0 (E @ [Got 2, Delivered 0 (Some 2) OK]))"
  using demo_answer_run [OF assms(2)] assms(1) by (rule creach_run)

text \<open>The timer armed, and then expired.\<close>

lemma demo_wait:
  obtains b where
    "creach demo_codec (demo_s (demo_v1 (if r then 5 else 0) False OK b) {#} {#0#} {#} {#2#} 0
       [Made 0 2])"
proof -
  define n where "n = (if r then 5 else 0 :: nonce_t)"
  obtain b where s: "creach demo_codec (demo_s (demo_v1 n False OK b) {#Requested 0#} {#} {#}
      {#2#} 0 [Made 0 2])" (is "creach _ ?s")
    using demo_request [of r] unfolding n_def by blast
  have "cstep demo_codec ?s (demo_s (demo_v1 n False OK b) {#} {#0#} {#} {#2#} 0 [Made 0 2])"
    using cstep.wait [of ?s 0 "{#}" "[ArmTimer 0 12000]" demo_codec] by (simp add: call_wait_def)
  with s show thesis using that creach_step unfolding n_def by blast
qed

lemma demo_expire:
  "creach c (demo_s v T {#0#} {#} S n E) \<Longrightarrow> creach c (demo_s v T {#} {#0#} S n E)"
  using cstep.expire [of "demo_s v T {#0#} {#} S n E" 0 "{#}" c] creach_step by fastforce

lemma demo_sent:
  "creach c (demo_s v T A X {#2#} n E) \<Longrightarrow> creach c (demo_s v T A X {#} (Suc n) E)"
  using cstep.sent [of "demo_s v T A X {#2#} n E" 2 "{#}" c] creach_step
  by (fastforce simp: ListenFromServer_def)

text \<open>The reply comes in time, then the queued handler finds its caller destroyed.\<close>

lemma demo_late_timer:
  "creach demo_codec (demo_s (demo_v2 (if r then 5 else 0)) {#} {#} {#0#} {#} 0
     [Made 0 2, Got 2, Delivered 0 (Some 2) OK])"
proof -
  obtain b where "creach demo_codec
      (demo_s (demo_v1 (if r then 5 else 0) False OK b) {#} {#0#} {#} {#2#} 0 [Made 0 2])"
    by (rule demo_wait)
  from demo_answer [OF demo_sent [OF demo_expire [OF this], unfolded One_nat_def [symmetric]]] show ?thesis by simp
qed

lemma demo_early_reply:
  "creach demo_codec (demo_s (demo_v2 (if r then 5 else 0)) {#Requested 0#} {#} {#} {#} 0
     [Made 0 2, Got 2, Delivered 0 (Some 2) OK])"
proof -
  obtain b where "creach demo_codec (demo_s (demo_v1 (if r then 5 else 0) False OK b)
      {#Requested 0#} {#} {#} {#2#} 0 [Made 0 2])"
    by (rule demo_request)
  from demo_answer [OF demo_sent [OF this, unfolded One_nat_def [symmetric]]] show ?thesis by simp
qed

text \<open>No reply: without a nonce the timer delivers.\<close>

lemma demo_timeout_step:
  obtains b where
    "creach demo_codec (demo_s (demo_v1 0 False OK b) {#} {#} {#0#} {#2#} 0 [Made 0 2])"
    and "OnTimerExpired demo_codec (Some 0) OK (demo_v1 0 False OK b) =
      (ret [Invoke (User 1) Empty TIMEOUT_FAILURE], demo_v1 0 True TIMEOUT_FAILURE b)"
    and "cstep demo_codec (demo_s (demo_v1 0 False OK b) {#} {#} {#0#} {#2#} 0 [Made 0 2])
      (demo_s (demo_v1 0 True TIMEOUT_FAILURE b) {#} {#} {#} {#2#} 0
        [Made 0 2, Delivered 0 None TIMEOUT_FAILURE, TimerRan 0])"
proof -
  obtain b where "creach demo_codec
      (demo_s (demo_v1 0 False OK b) {#} {#0#} {#} {#2#} 0 [Made 0 2])"
    using demo_wait [of False] by auto
  from demo_expire [OF this] have s: "creach demo_codec
      (demo_s (demo_v1 0 False OK b) {#} {#} {#0#} {#2#} 0 [Made 0 2])" (is "creach _ ?s") .
  have o: "OnTimerExpired demo_codec (Some 0) OK (demo_v1 0 False OK b) =
      (ret [Invoke (User 1) Empty TIMEOUT_FAILURE], demo_v1 0 True TIMEOUT_FAILURE b)"
    by (simp add: OnTimerExpired_def run_callback_def update_caller_def demo_v1_def demo_v0_def
        demo_caller_def fun_upd_def fun_eq_iff)
  then have "cstep demo_codec ?s (demo_s (demo_v1 0 True TIMEOUT_FAILURE b) {#} {#} {#} {#2#} 0
      [Made 0 2, Delivered 0 None TIMEOUT_FAILURE, TimerRan 0])"
    using cstep.timer [of ?s 0 "{#}" demo_codec OK] by (simp add: made_def)
  from that [OF s o this] show thesis .
qed

lemma demo_timeout:
  obtains b where "creach demo_codec (demo_s (demo_v1 0 True TIMEOUT_FAILURE b) {#} {#} {#} {#2#} 0
     [Made 0 2, Delivered 0 None TIMEOUT_FAILURE, TimerRan 0])"
  by (rule demo_timeout_step) (rule that, rule creach_step)

text \<open>Then the send fails after all, and the callback runs again.\<close>

lemma demo_twice:
  fixes b :: string
  defines "v \<equiv> demo_v1 0 True TIMEOUT_FAILURE b" and "v' \<equiv> demo_v1 0 True SEND_FAILURE b"
  shows "cstep demo_codec (demo_s v {#} {#} {#} {#2#} 0 E)
      (demo_s v {#Failing 0 SEND_FAILURE#} {#} {#} {#} 0 E)"
    and "cstep demo_codec (demo_s v {#Failing 0 SEND_FAILURE#} {#} {#} {#} 0 E)
      (demo_s v' {#Given_up 0 SEND_FAILURE#} {#} {#} {#} 0 (E @ [SendFailed 0]))"
    and "fail_deliver demo_codec 0 SEND_FAILURE v' = (ret [Invoke (User 1) Empty SEND_FAILURE], v')"
    and "cstep demo_codec
      (demo_s v' {#Given_up 0 SEND_FAILURE#} {#} {#} {#} 0 (E @ [SendFailed 0]))
      (demo_s v' {#} {#} {#} {#} 0 (E @ [SendFailed 0, Delivered 0 None SEND_FAILURE]))"
proof -
  let ?c = demo_codec
  let ?s = "demo_s v {#} {#} {#} {#2#} 0 E"
  let ?s1 = "demo_s v {#Failing 0 SEND_FAILURE#} {#} {#} {#} 0 E"
  let ?s2 = "demo_s v' {#Given_up 0 SEND_FAILURE#} {#} {#} {#} 0 (E @ [SendFailed 0])"
  show "cstep ?c ?s ?s1"
    using cstep.send_fails [of ?s 2 "{#}" SEND_FAILURE ?c] by (simp add: v_def)
  have "fail_mark 0 SEND_FAILURE v = (ret (), v')"
    by (simp add: v_def v'_def fail_mark_def update_caller_def demo_v1_def demo_v0_def
        demo_caller_def fun_upd_def fun_eq_iff)
  then show "cstep ?c ?s1 ?s2"
    using cstep.give_up [of ?s1 0 SEND_FAILURE "{#}" "()" v' ?c] by (simp add: made_def v_def v'_def)
  show d: "fail_deliver ?c 0 SEND_FAILURE v' = (ret [Invoke (User 1) Empty SEND_FAILURE], v')"
    by (simp add: fail_deliver_def run_callback_def v'_def)
  show "cstep ?c ?s2
      (demo_s v' {#} {#} {#} {#} 0 (E @ [SendFailed 0, Delivered 0 None SEND_FAILURE]))"
    using cstep.fail [of ?s2 0 SEND_FAILURE "{#}" ?c] d by (simp add: made_def)
qed

section \<open>Properties\<close>

text \<open>
  C7: callbacks are bounded. Whatever arrives and however timers, replies, failures and calls
  interleave, the sections invoke the callback of a call at most once, plus once for each failed
  send that ended the call; a client with a nonce never ends a call for a failed send, so there it runs
  at most once.
\<close>

theorem callback_bound:
  assumes "creach c s"
  shows "deliveries s p \<le> send_failures s p + 1 \<and>
    (cl_nonce (cl s) > 0 \<longrightarrow> deliveries s p \<le> 1)"
  using deliveries_bound [OF assms, of p] no_failures_with_nonce [OF assms, of p] by auto

theorem callback_bound_witness:
  "\<exists>s :: unit cconfig. creach demo_codec s \<and> cl_nonce (cl s) > 0 \<and>
     Delivered 0 (Some 2) OK \<in> set (cevents s) \<and> deliveries s 0 \<le> 1"
proof (intro exI conjI)
  let ?s = "demo_s (demo_v2 5) {#} {#} {#0#} {#} 0 [Made 0 2, Got 2, Delivered 0 (Some 2) OK]"
  show r: "creach demo_codec ?s" using demo_late_timer [of True] by simp
  show n: "cl_nonce (cl ?s) > 0" by (simp add: demo_v2_def demo_v0_def)
  show "Delivered 0 (Some 2) OK \<in> set (cevents ?s)" by simp
  show "deliveries ?s 0 \<le> 1" using callback_bound [OF r, of 0] n by blast
qed

text \<open>
  C9: exactly one callback. On a client without a nonce, once the timer handler of a call has
  run and no thread is about to run its callback, the sections have invoked the callback exactly
  once, provided no failed send ended the call.
\<close>

theorem callback_exactly_once:
  assumes "creach c s" and "crashed s = None" and "cl_nonce (cl s) = 0"
    and "TimerRan p \<in> set (cevents s)" and "\<forall>T \<in># threads s. \<not> pending p T"
    and "SendFailed p \<notin> set (cevents s)"
  shows "deliveries s p = 1"
proof -
  have "filter_mset (pending p) (threads s) = {#}"
    using assms(5) by (simp add: filter_mset_eq_conv)
  with served_by_timer [OF assms(1-4)] have "1 \<le> deliveries s p"
    by (simp add: invocations_def pendings_def)
  moreover have "send_failures s p = 0"
    using assms(6) by (auto simp: send_failures_def filter_empty_conv)
  ultimately show ?thesis using deliveries_bound [OF assms(1), of p] by simp
qed

theorem callback_exactly_once_witness:
  "\<exists>s :: unit cconfig. creach demo_codec s \<and> TimerRan 0 \<in> set (cevents s) \<and> deliveries s 0 = 1"
proof -
  obtain b where r: "creach demo_codec (demo_s (demo_v1 0 True TIMEOUT_FAILURE b) {#} {#} {#} {#2#} 0
      [Made 0 2, Delivered 0 None TIMEOUT_FAILURE, TimerRan 0])" (is "creach _ ?s")
    by (rule demo_timeout)
  have "deliveries ?s 0 = 1" by (rule callback_exactly_once [OF r]) simp_all
  with r show ?thesis by (intro exI [of _ ?s]) simp
qed

text \<open>
  C22: replies reach their own call. A callback that runs for a reply with transaction \<open>x\<close>
  belongs to a call that was registered under \<open>x\<close>.
\<close>

theorem reply_reaches_its_call:
  assumes "creach c s" and "Delivered p (Some x) e \<in> set (cevents s)"
  shows "Made p x \<in> set (cevents s)"
  by (rule delivered_origin [OF assms])

theorem reply_reaches_its_call_witness:
  "Made 0 2 \<in> set (cevents (demo_s (demo_v2 0) {#} {#} {#0#} {#} 0
     [Made 0 2, Got 2, Delivered 0 (Some 2) OK]))"
  by (rule reply_reaches_its_call [of demo_codec _ _ _ OK])
     (use demo_late_timer [of False] in simp_all)

text \<open>
  C14: \<open>callers_\<close> never dangles. In every interleaving an entry of \<open>callers_\<close> points to a live
  \<open>Caller\<close> that carries the transaction of the entry, and no two entries share one.
\<close>

theorem callers_never_dangle:
  assumes "creach c s" and "callers (cl s) x = Some p"
  shows "(\<exists>k. heap (cl s) p = Some k \<and> c_xid k = x) \<and> {y. callers (cl s) y = Some p} = {x}"
proof -
  have "owners_ok s" using creach_inv [OF assms(1)] by (simp add: cconfig_inv_def)
  note ok = owners_okD(1) [OF this]
  have "{y. callers (cl s) y = Some p} = {x}"
    using callers_inj [OF ok _ assms(2)] assms(2) by blast
  with client_okD(1) [OF ok assms(2)] show ?thesis by simp
qed

theorem callers_never_dangle_witness:
  "\<exists>s :: unit cconfig. creach demo_codec s \<and> callers (cl s) 2 = Some 0 \<and> heap (cl s) 0 \<noteq> None"
proof -
  obtain b where "creach demo_codec (demo_s (demo_v1 (if False then 5 else 0) False OK b)
      {#Requested 0#} {#} {#} {#2#} 0 [Made 0 2])" (is "creach _ ?s")
    by (rule demo_request)
  with callers_never_dangle [OF this, of 2 0] show ?thesis by (intro exI [of _ ?s]) auto
qed

text \<open>
  C15: what a client acknowledges. In every reachable state the transaction that the next request
  acknowledges is determined by the reply headers read so far: with \<open>b\<close> the first of them, \<open>x\<close> is
  acknowledged exactly when each number in \<open>(b, x]\<close> has had a reply. Before the first reply only
  \<open>0\<close> is. So above \<open>b\<close> the server never forgets a reply that the client still waits for.
\<close>

theorem client_acknowledges:
  assumes "creach c s"
  shows "x \<le> req_xid_rep (next_header proc (cl s)) \<longleftrightarrow>
    (case replies_got s of [] \<Rightarrow> x = 0 | b # xs \<Rightarrow> {b<..x} \<subseteq> set xs)"
  using xw.front_run [of x]
  by (cases "replies_got s")
     (simp_all add: next_header_def window_of_client [OF assms] xw.front_new del: fold.simps(2))

theorem client_acknowledges_witness:
  "2 \<le> req_xid_rep (next_header 7 (demo_v2 5))"
  using client_acknowledges [of demo_codec _ 2 7, OF demo_late_timer [of True]]
  by (simp add: replies_got_def)

text \<open>
  C33: a timer outlives its caller. When a timer expires before the reply of its call is
  delivered, its queued handler runs on a \<open>Caller\<close> that \<open>GotPdu\<close> has destroyed: from a reachable
  state in which nothing has gone wrong, the handler's step is undefined behaviour.
\<close>

theorem timer_outlives_caller:
  "\<exists>s t :: unit cconfig. creach demo_codec s \<and> crashed s = None \<and> expired s = {#0#} \<and>
     cevents s = [Made 0 2, Got 2, Delivered 0 (Some 2) OK] \<and>
     OnTimerExpired demo_codec (Some 0) OK (cl s) = (throw Undefined_behaviour, cl s) \<and>
     cstep demo_codec s t \<and> crashed t = Some Undefined_behaviour"
proof (intro exI conjI)
  let ?s = "demo_s (demo_v2 5) {#} {#} {#0#} {#} 0 [Made 0 2, Got 2, Delivered 0 (Some 2) OK]"
  show "creach demo_codec ?s" using demo_late_timer [of True] by simp
  show u: "OnTimerExpired demo_codec (Some 0) OK (cl ?s) = (throw Undefined_behaviour, cl ?s)"
    by (simp add: OnTimerExpired_def demo_v2_def demo_v0_def)
  show "cstep demo_codec ?s (crash Undefined_behaviour (threads ?s) (?s\<lparr>expired := {#}\<rparr>))"
    by (rule cstep.timer_throws [OF _ _ u]) simp_all
qed simp_all

text \<open>
  C38: a fast reply frees the timer under \<open>Call\<close>. When the reply is delivered between the send and
  the \<open>Wait\<close> of \<open>Call\<close>, the timer that \<open>Call\<close> then starts is destroyed already.
\<close>

theorem reply_before_wait:
  "\<exists>s t :: unit cconfig. creach demo_codec s \<and> crashed s = None \<and> threads s = {#Requested 0#} \<and>
     cevents s = [Made 0 2, Got 2, Delivered 0 (Some 2) OK] \<and>
     call_wait 0 (cl s) = throw Undefined_behaviour \<and>
     cstep demo_codec s t \<and> crashed t = Some Undefined_behaviour"
proof (intro exI conjI)
  let ?s = "demo_s (demo_v2 5) {#Requested 0#} {#} {#} {#} 0
    [Made 0 2, Got 2, Delivered 0 (Some 2) OK]"
  show "creach demo_codec ?s" using demo_early_reply [of True] by simp
  show u: "call_wait 0 (cl ?s) = throw Undefined_behaviour"
    by (simp add: call_wait_def demo_v2_def demo_v0_def)
  show "cstep demo_codec ?s (call_throws Undefined_behaviour {#} ?s)"
    by (rule cstep.wait_throws [OF _ _ u]) simp_all
qed (simp_all add: call_throws_def)

text \<open>
  C39: a failed send after a timeout calls back twice. \<open>OnSendFinished\<close> does not look at \<open>done_\<close>:
  the timer of a client without a nonce runs the callback of a call with the timeout, then its
  send fails, and the same callback runs again with the failure of the send, so the bound on
  the callbacks is reached.
\<close>

theorem callback_twice:
  "\<exists>s s1 s2 s3 t :: unit cconfig. creach demo_codec s \<and> expired s = {#0#} \<and> sends s = {#2#} \<and>
     OnTimerExpired demo_codec (Some 0) OK (cl s) =
       (ret [Invoke (User 1) Empty TIMEOUT_FAILURE], cl s1) \<and>
     cstep demo_codec s s1 \<and> cstep demo_codec s1 s2 \<and>
     threads s2 = {#Failing 0 SEND_FAILURE#} \<and> sends s2 = {#} \<and>
     cstep demo_codec s2 s3 \<and> threads s3 = {#Given_up 0 SEND_FAILURE#} \<and>
     fail_deliver demo_codec 0 SEND_FAILURE (cl s3) =
       (ret [Invoke (User 1) Empty SEND_FAILURE], cl t) \<and>
     cstep demo_codec s3 t \<and> crashed t = None \<and> threads t = {#} \<and>
     deliveries t 0 = 2 \<and> send_failures t 0 = 1"
proof -
  let ?E = "[Made 0 2, Delivered 0 None TIMEOUT_FAILURE, TimerRan 0]"
  obtain b where s: "creach demo_codec (demo_s (demo_v1 0 False OK b) {#} {#} {#0#} {#2#} 0 [Made 0 2])"
      (is "creach _ ?s")
    and o: "OnTimerExpired demo_codec (Some 0) OK (demo_v1 0 False OK b) =
      (ret [Invoke (User 1) Empty TIMEOUT_FAILURE], demo_v1 0 True TIMEOUT_FAILURE b)"
    and s1: "cstep demo_codec (demo_s (demo_v1 0 False OK b) {#} {#} {#0#} {#2#} 0 [Made 0 2])
      (demo_s (demo_v1 0 True TIMEOUT_FAILURE b) {#} {#} {#} {#2#} 0 ?E)" (is "cstep _ _ ?s1")
    by (rule demo_timeout_step)
  note t = demo_twice(1,2,4) [where b = b and E = ?E]
  let ?v = "demo_v1 0 True TIMEOUT_FAILURE b" and ?v' = "demo_v1 0 True SEND_FAILURE b"
  let ?s2 = "demo_s ?v {#Failing 0 SEND_FAILURE#} {#} {#} {#} 0 ?E"
  let ?s3 = "demo_s ?v' {#Given_up 0 SEND_FAILURE#} {#} {#} {#} 0 (?E @ [SendFailed 0])"
  let ?t = "demo_s ?v' {#} {#} {#} {#} 0 (?E @ [SendFailed 0, Delivered 0 None SEND_FAILURE])"
  have "OnTimerExpired demo_codec (Some 0) OK (cl ?s) =
      (ret [Invoke (User 1) Empty TIMEOUT_FAILURE], cl ?s1)" using o by (simp only: demo_s_simps)
  moreover have "fail_deliver demo_codec 0 SEND_FAILURE (cl ?s3) =
      (ret [Invoke (User 1) Empty SEND_FAILURE], cl ?t)" using demo_twice(3) by (simp only: demo_s_simps)
  moreover have "deliveries ?t 0 = 2" "send_failures ?t 0 = 1" by (simp_all add: account_defs)
  moreover have "expired ?s = {#0#}" "sends ?s = {#2#}" "threads ?s2 = {#Failing 0 SEND_FAILURE#}"
    "sends ?s2 = {#}" "threads ?s3 = {#Given_up 0 SEND_FAILURE#}" "crashed ?t = None" "threads ?t = {#}"
    by simp_all
  ultimately show ?thesis using s s1 t by blast
qed

end
