(* ===== verification/Reply_Window.thy ===== *)
theory Reply_Window
  imports Rpc_Types
begin

text \<open>
  The at-most-once bookkeeping of \<open>RpcServer\<close> (\<open>rpc_server.h\<close> and \<open>rpc_server.cpp\<close>): the
  window of replies per client, the highest acknowledged transaction per client,
  \<open>CheckDuplicateAndUpdate\<close> and \<open>AddReply\<close>. The window is related to an abstract status per
  request, and the contract the dispatcher relies on is the locale \<open>reply_store\<close>.
\<close>

section \<open>State\<close>

datatype State = NEW | INPROGRESS | DONE | FORGOTTEN

record ReplyT =
  rp_xid :: xid_t
  cb_present :: bool
  rp_buf :: string

definition ReplyT_new :: "xid_t \<Rightarrow> ReplyT" where
  "ReplyT_new xid = \<lparr>rp_xid = xid, cb_present = False, rp_buf = []\<rparr>"

record windows =
  reply_window :: "nonce_t \<rightharpoonup> ReplyT list"
  max_ackowledged_rep :: "nonce_t \<rightharpoonup> xid_t"

definition windows_new :: windows where
  "windows_new = \<lparr>reply_window = Map.empty, max_ackowledged_rep = Map.empty\<rparr>"

text \<open>\<open>operator[]\<close> of an \<open>unordered_map\<close> reads a default for an absent key.\<close>

definition acked :: "windows \<Rightarrow> nonce_t \<Rightarrow> xid_t" where
  "acked w clt = (case max_ackowledged_rep w clt of None \<Rightarrow> 0 | Some x \<Rightarrow> x)"

definition window_of :: "windows \<Rightarrow> nonce_t \<Rightarrow> ReplyT list" where
  "window_of w clt = (case reply_window w clt of None \<Rightarrow> [] | Some rs \<Rightarrow> rs)"

section \<open>Operations\<close>

text \<open>
  The first section of \<open>Dispatch\<close> under the lock: an unknown client gets an empty window.
\<close>

definition EnsureWindow :: "nonce_t \<Rightarrow> windows \<Rightarrow> windows" where
  "EnsureWindow clt w =
     (if reply_window w clt = None then w\<lparr>reply_window := (reply_window w)(clt \<mapsto> [])\<rparr> else w)"

text \<open>The loop that erases acknowledged entries from the front, run on scope exit.\<close>

fun trim :: "xid_t \<Rightarrow> ReplyT list \<Rightarrow> ReplyT list" where
  "trim ack [] = []"
| "trim ack (r # rs) = (if rp_xid r \<le> ack then trim ack rs else r # rs)"

text \<open>The search loop: found, insertion point, or end of the list.\<close>

fun scan :: "xid_t \<Rightarrow> ReplyT list \<Rightarrow> State \<times> ReplyT list" where
  "scan xid [] = (NEW, [ReplyT_new xid])"
| "scan xid (r # rs) =
     (if rp_xid r = xid then (if cb_present r then (DONE, r # rs) else (INPROGRESS, r # rs))
      else if rp_xid r > xid then (NEW, ReplyT_new xid # r # rs)
      else (case scan xid rs of (s, rs') \<Rightarrow> (s, r # rs')))"

definition CheckDuplicateAndUpdate ::
  "nonce_t \<Rightarrow> xid_t \<Rightarrow> xid_t \<Rightarrow> windows \<Rightarrow> State \<times> windows" where
  "CheckDuplicateAndUpdate clt xid xid_rep w =
     (let ack = (if xid_rep > acked w clt then xid_rep else acked w clt);
          w1 = w\<lparr>max_ackowledged_rep := (max_ackowledged_rep w)(clt \<mapsto> ack)\<rparr>;
          (st, rs) = (if xid \<le> ack then (FORGOTTEN, window_of w1 clt)
                      else scan xid (window_of w1 clt))
      in (st, w1\<lparr>reply_window := (reply_window w1)(clt \<mapsto> trim ack rs)\<rparr>))"

text \<open>The loop of \<open>AddReply\<close>: the first entry of the transaction gets the reply.\<close>

fun set_reply :: "xid_t \<Rightarrow> string \<Rightarrow> ReplyT list \<Rightarrow> ReplyT list option" where
  "set_reply xid b [] = None"
| "set_reply xid b (r # rs) =
     (if rp_xid r = xid then Some (r\<lparr>cb_present := True, rp_buf := b\<rparr> # rs)
      else map_option ((#) r) (set_reply xid b rs))"

definition AddReply :: "nonce_t \<Rightarrow> xid_t \<Rightarrow> string \<Rightarrow> windows \<Rightarrow> windows res" where
  "AddReply clt xid b w =
     (case reply_window w clt of
        None \<Rightarrow> throw (Runtime_error ''add to on-existed reply'')
      | Some rs \<Rightarrow>
          (case set_reply xid b rs of
             None \<Rightarrow> throw (Runtime_error ''unreachable'')
           | Some rs' \<Rightarrow> ret (w\<lparr>reply_window := (reply_window w)(clt \<mapsto> rs')\<rparr>)))"

text \<open>
  \<open>rep_buf\<close> points into the list node of a transaction; the node is valid while the entry is
  in the window.
\<close>

definition read_rep_buf :: "nonce_t \<Rightarrow> xid_t \<Rightarrow> windows \<Rightarrow> string res" where
  "read_rep_buf clt xid w =
     (case find (\<lambda>r. rp_xid r = xid) (window_of w clt) of
        None \<Rightarrow> throw Undefined_behaviour
      | Some r \<Rightarrow> ret (rp_buf r))"

section \<open>Invariant\<close>

text \<open>
  A window is strictly ascending and holds no acknowledged transaction.
\<close>

definition windows_ok :: "windows \<Rightarrow> bool" where
  "windows_ok w \<longleftrightarrow>
     (\<forall>clt. sorted_wrt (<) (map rp_xid (window_of w clt)) \<and>
            (\<forall>r \<in> set (window_of w clt). acked w clt < rp_xid r))"

lemma acked_new [simp]: "acked windows_new clt = 0"
  by (simp add: acked_def windows_new_def)

lemma windows_ok_new [inv_intros]: "windows_ok windows_new"
  by (simp add: windows_ok_def windows_new_def window_of_def)

lemma window_of_EnsureWindow [frame_simps]: "window_of (EnsureWindow clt w) = window_of w"
  by (auto simp: EnsureWindow_def window_of_def fun_eq_iff)

lemma acked_EnsureWindow [frame_simps]: "acked (EnsureWindow clt w) = acked w"
  by (auto simp: EnsureWindow_def acked_def fun_eq_iff)

lemma windows_ok_EnsureWindow [inv_intros]: "windows_ok w \<Longrightarrow> windows_ok (EnsureWindow clt w)"
  by (simp add: windows_ok_def frame_simps)

lemma trim_eq_filter:
  "sorted_wrt (<) (map rp_xid rs) \<Longrightarrow> trim ack rs = filter (\<lambda>r. ack < rp_xid r) rs"
proof (induction rs)
  case Nil
  then show ?case by simp
next
  case (Cons r rs)
  show ?case
  proof (cases "rp_xid r \<le> ack")
    case True
    with Cons show ?thesis by simp
  next
    case False
    with Cons.prems have "\<forall>r' \<in> set rs. ack < rp_xid r'" by auto
    then have "filter (\<lambda>r'. ack < rp_xid r') rs = rs" by (simp add: filter_id_conv)
    moreover have "ack < rp_xid r" using False by simp
    ultimately show ?thesis using False by (simp only: trim.simps filter.simps if_True if_False)
  qed
qed

lemma sorted_filter_xids:
  "sorted_wrt (<) (map rp_xid rs) \<Longrightarrow> sorted_wrt (<) (map rp_xid (filter P rs))"
  by (induction rs) auto

lemma rp_xid_ReplyT_new [simp]: "rp_xid (ReplyT_new x) = x"
  and cb_present_ReplyT_new [simp]: "\<not> cb_present (ReplyT_new x)"
  by (simp_all add: ReplyT_new_def)

lemma scan_Cons_less:
  "rp_xid r < xid \<Longrightarrow> scan xid (r # rs) = (fst (scan xid rs), r # snd (scan xid rs))"
  by (simp add: case_prod_beta less_not_sym less_imp_neq)

lemma scan_Cons_greater:
  "xid < rp_xid r \<Longrightarrow> scan xid (r # rs) = (NEW, ReplyT_new xid # r # rs)"
  by auto

lemma scan_Cons_equal:
  "rp_xid r = xid \<Longrightarrow> scan xid (r # rs) = (if cb_present r then DONE else INPROGRESS, r # rs)"
  by simp

lemmas scan_cases = scan_Cons_less scan_Cons_greater scan_Cons_equal

declare scan.simps(2) [simp del]

lemma set_snd_scan:
  "set (snd (scan xid rs)) =
     (if fst (scan xid rs) = NEW then insert (ReplyT_new xid) (set rs) else set rs)"
proof (induction rs)
  case (Cons r rs)
  then show ?case by (cases "rp_xid r" xid rule: linorder_cases) (auto simp: scan_cases)
qed simp

lemma sorted_snd_scan:
  "sorted_wrt (<) (map rp_xid rs) \<Longrightarrow> sorted_wrt (<) (map rp_xid (snd (scan xid rs)))"
proof (induction rs)
  case (Cons r rs)
  show ?case
  proof (cases "rp_xid r" xid rule: linorder_cases)
    case less
    with Cons show ?thesis by (auto simp: scan_cases set_snd_scan)
  next
    case equal
    with Cons.prems show ?thesis by (simp add: scan_cases)
  next
    case greater
    with Cons.prems show ?thesis
      by (auto simp: scan_cases dest: order.strict_trans)
  qed
qed simp

section \<open>The abstract ledger\<close>

text \<open>
  What the window promises, request by request: not seen, being executed, answered with a
  reply, or acknowledged and forgotten.
\<close>

datatype rstatus = Unseen | Running | Replied string | Forgotten

type_synonym ledger = "(nonce_t \<Rightarrow> xid_t) \<times> (nonce_t \<Rightarrow> xid_t \<Rightarrow> rstatus)"

abbreviation find_xid :: "xid_t \<Rightarrow> ReplyT list \<Rightarrow> ReplyT option" where
  "find_xid x \<equiv> find (\<lambda>r. rp_xid r = x)"

fun entry_status :: "ReplyT option \<Rightarrow> rstatus" where
  "entry_status None = Unseen"
| "entry_status (Some r) = (if cb_present r then Replied (rp_buf r) else Running)"

definition status :: "windows \<Rightarrow> nonce_t \<Rightarrow> xid_t \<Rightarrow> rstatus" where
  "status w clt x =
     (if x \<le> acked w clt then Forgotten else entry_status (find_xid x (window_of w clt)))"

definition ledger_of :: "windows \<Rightarrow> ledger" where
  "ledger_of w = (acked w, status w)"

fun answer :: "rstatus \<Rightarrow> State" where
  "answer Unseen = NEW"
| "answer Running = INPROGRESS"
| "answer (Replied b) = DONE"
| "answer Forgotten = FORGOTTEN"

definition forget_upto :: "nonce_t \<Rightarrow> xid_t \<Rightarrow> ledger \<Rightarrow> ledger" where
  "forget_upto clt a l =
     ((fst l)(clt := a), \<lambda>k x. if k = clt \<and> x \<le> a then Forgotten else snd l k x)"

definition mark :: "nonce_t \<Rightarrow> xid_t \<Rightarrow> rstatus \<Rightarrow> ledger \<Rightarrow> ledger" where
  "mark clt x r l = (fst l, (snd l)(clt := (snd l clt)(x := r)))"

definition ledger_check :: "nonce_t \<Rightarrow> xid_t \<Rightarrow> xid_t \<Rightarrow> ledger \<Rightarrow> State \<times> ledger" where
  "ledger_check clt xid xid_rep l =
     (let l' = forget_upto clt (max xid_rep (fst l clt)) l; s = snd l' clt xid
      in (answer s, if s = Unseen then mark clt xid Running l' else l'))"

definition ledger_add :: "nonce_t \<Rightarrow> xid_t \<Rightarrow> string \<Rightarrow> ledger \<Rightarrow> ledger option" where
  "ledger_add clt xid b l =
     (case snd l clt xid of
        Unseen \<Rightarrow> None | Forgotten \<Rightarrow> None | _ \<Rightarrow> Some (mark clt xid (Replied b) l))"

section \<open>The window implements the ledger\<close>

lemma find_xid_notin: "x \<notin> rp_xid ` set rs \<Longrightarrow> find_xid x rs = None"
  by (auto simp: find_None_iff)

lemma find_xid_trim:
  "sorted_wrt (<) (map rp_xid rs) \<Longrightarrow> ack < x \<Longrightarrow> find_xid x (trim ack rs) = find_xid x rs"
  by (induction rs) auto

lemma find_xid_sorted_Cons:
  "\<forall>r \<in> set rs. x < rp_xid r \<Longrightarrow> find_xid x rs = None"
  by (rule find_xid_notin) auto

lemma find_xid_scan:
  assumes "sorted_wrt (<) (map rp_xid rs)"
  shows "find_xid x (snd (scan xid rs)) =
           (if x = xid \<and> fst (scan xid rs) = NEW then Some (ReplyT_new xid) else find_xid x rs)"
  using assms
proof (induction rs)
  case (Cons r rs)
  then show ?case by (cases "rp_xid r" xid rule: linorder_cases) (auto simp: scan_cases)
qed simp

lemma fst_scan:
  assumes "sorted_wrt (<) (map rp_xid rs)"
  shows "fst (scan xid rs) = answer (entry_status (find_xid xid rs))"
  using assms
proof (induction rs)
  case (Cons r rs)
  show ?case
  proof (cases "rp_xid r" xid rule: linorder_cases)
    case greater
    with Cons.prems have "find_xid xid (r # rs) = None"
      by (intro find_xid_sorted_Cons) (auto dest: order.strict_trans)
    with greater show ?thesis by (simp add: scan_cases)
  qed (use Cons in \<open>auto simp: scan_cases\<close>)
qed simp

text \<open>The effect of \<open>CheckDuplicateAndUpdate\<close> on the two maps it writes.\<close>

lemma Check_acked:
  "acked (snd (CheckDuplicateAndUpdate clt xid xid_rep w)) =
     (acked w)(clt := max xid_rep (acked w clt))"
  by (auto simp: CheckDuplicateAndUpdate_def acked_def fun_eq_iff Let_def case_prod_beta max_def)

lemma Check_window:
  "window_of (snd (CheckDuplicateAndUpdate clt xid xid_rep w)) =
     (window_of w)(clt :=
        let a = max xid_rep (acked w clt) in
        trim a (if xid \<le> a then window_of w clt else snd (scan xid (window_of w clt))))"
  by (auto simp: CheckDuplicateAndUpdate_def window_of_def fun_eq_iff Let_def case_prod_beta max_def)

lemma Check_answer:
  "fst (CheckDuplicateAndUpdate clt xid xid_rep w) =
     (if xid \<le> max xid_rep (acked w clt) then FORGOTTEN else fst (scan xid (window_of w clt)))"
  by (auto simp: CheckDuplicateAndUpdate_def window_of_def Let_def case_prod_beta max_def)

lemma windows_ok_Check [inv_intros]:
  assumes "windows_ok w"
  shows "windows_ok (snd (CheckDuplicateAndUpdate clt xid xid_rep w))"
proof -
  let ?a = "max xid_rep (acked w clt)"
  let ?rs = "if xid \<le> ?a then window_of w clt else snd (scan xid (window_of w clt))"
  have "sorted_wrt (<) (map rp_xid ?rs)"
    using assms sorted_snd_scan by (auto simp: windows_ok_def)
  then have "sorted_wrt (<) (map rp_xid (trim ?a ?rs))" "\<forall>r \<in> set (trim ?a ?rs). ?a < rp_xid r"
    by (simp_all only: trim_eq_filter sorted_filter_xids) simp
  then show ?thesis
    using assms by (auto simp: windows_ok_def Check_acked Check_window Let_def split: if_splits)
qed

lemma status_Check:
  assumes "windows_ok w" and a_def: "a = max xid_rep (acked w clt)"
  shows "status (snd (CheckDuplicateAndUpdate clt xid xid_rep w)) k x =
           (if k = clt \<and> x \<le> a then Forgotten
            else if k = clt \<and> x = xid \<and> status w clt xid = Unseen then Running
            else status w k x)"
proof (cases "k = clt \<and> a < x")
  case True
  let ?rs = "window_of w clt"
  have srt: "sorted_wrt (<) (map rp_xid ?rs)" using assms(1) by (simp add: windows_ok_def)
  have ack: "\<not> x \<le> acked w clt" "\<not> x \<le> a"
    using True by (auto simp: a_def le_max_iff_disj)
  have "find_xid x (window_of (snd (CheckDuplicateAndUpdate clt xid xid_rep w)) clt) =
      (if x = xid \<and> find_xid x ?rs = None then Some (ReplyT_new xid) else find_xid x ?rs)"
  proof (cases "xid \<le> a")
    case True': True
    with True srt show ?thesis by (auto simp: Check_window a_def [symmetric] find_xid_trim)
  next
    case False
    have "answer (entry_status (find_xid xid ?rs)) = NEW \<longleftrightarrow> find_xid xid ?rs = None"
      by (cases "find_xid xid ?rs") auto
    with False True srt sorted_snd_scan [OF srt] show ?thesis
      by (auto simp: Check_window a_def [symmetric] find_xid_trim find_xid_scan fst_scan)
  qed
  moreover have "entry_status (find_xid x ?rs) = Unseen \<longleftrightarrow> find_xid x ?rs = None"
    by (cases "find_xid x ?rs") auto
  ultimately show ?thesis
    using True ack by (auto simp: status_def Check_acked a_def [symmetric])
next
  case False
  then show ?thesis by (auto simp: status_def Check_acked Check_window a_def le_max_iff_disj)
qed

lemma answer_Check:
  assumes "windows_ok w"
  shows "fst (CheckDuplicateAndUpdate clt xid xid_rep w) =
           answer (if xid \<le> max xid_rep (acked w clt) then Forgotten else status w clt xid)"
  using assms by (auto simp: Check_answer status_def fst_scan windows_ok_def le_max_iff_disj)

lemma ledger_Check:
  assumes "windows_ok w"
  shows "map_prod id ledger_of (CheckDuplicateAndUpdate clt xid xid_rep w) =
           ledger_check clt xid xid_rep (ledger_of w)"
proof (rule prod_eqI)
  show "fst (map_prod id ledger_of (CheckDuplicateAndUpdate clt xid xid_rep w)) =
          fst (ledger_check clt xid xid_rep (ledger_of w))"
    by (simp add: answer_Check [OF assms] ledger_check_def ledger_of_def forget_upto_def Let_def)
  show "snd (map_prod id ledger_of (CheckDuplicateAndUpdate clt xid xid_rep w)) =
          snd (ledger_check clt xid xid_rep (ledger_of w))"
    by (auto simp: ledger_check_def ledger_of_def forget_upto_def mark_def Let_def fun_eq_iff
        status_Check [OF assms refl] Check_acked)
qed

lemma set_reply_Some:
  "set_reply xid b rs = Some rs' \<Longrightarrow>
     map rp_xid rs' = map rp_xid rs \<and>
     (\<forall>x. entry_status (find_xid x rs') =
            (if x = xid then Replied b else entry_status (find_xid x rs))) \<and>
     find_xid xid rs \<noteq> None"
  by (induction rs arbitrary: rs') (auto split: if_splits)

lemma set_reply_None: "set_reply xid b rs = None \<longleftrightarrow> find_xid xid rs = None"
  by (induction rs) auto

lemma find_xid_acked:
  assumes "windows_ok w" and "x \<le> acked w clt"
  shows "find_xid x (window_of w clt) = None"
  using assms by (intro find_xid_sorted_Cons) (auto simp: windows_ok_def dest: order.strict_trans1)

lemma AddReply_window:
  "AddReply clt xid b w = ret w' \<Longrightarrow>
     acked w' = acked w \<and>
     (\<exists>rs. set_reply xid b (window_of w clt) = Some rs \<and>
           window_of w' = (window_of w)(clt := rs))"
  by (auto simp: AddReply_def window_of_def acked_def fun_eq_iff split: option.splits)

lemma windows_ok_AddReply [inv_intros]:
  assumes "AddReply clt xid b w = ret w'" and "windows_ok w"
  shows "windows_ok w'"
proof -
  from AddReply_window [OF assms(1)] obtain rs where
    a: "acked w' = acked w" and rs: "set_reply xid b (window_of w clt) = Some rs"
    and w: "window_of w' = (window_of w)(clt := rs)" by blast
  from set_reply_Some [OF rs] have m: "map rp_xid rs = map rp_xid (window_of w clt)" by blast
  then have "rp_xid ` set rs = rp_xid ` set (window_of w clt)" by (metis list.set_map)
  with m a w assms(2) show ?thesis
    unfolding windows_ok_def by (auto simp: image_iff set_eq_iff Ball_def) metis
qed

lemma status_AddReply:
  assumes "AddReply clt xid b w = ret w'" and "windows_ok w"
  shows "status w' = (status w)(clt := (status w clt)(xid := Replied b))"
    and "status w clt xid \<notin> {Unseen, Forgotten}"
proof -
  from AddReply_window [OF assms(1)] obtain rs where
    a: "acked w' = acked w" and rs: "set_reply xid b (window_of w clt) = Some rs"
    and w: "window_of w' = (window_of w)(clt := rs)" by blast
  note r = set_reply_Some [OF rs]
  have ack: "\<not> xid \<le> acked w clt"
    using r find_xid_acked [OF assms(2)] by auto
  with r a w show "status w' = (status w)(clt := (status w clt)(xid := Replied b))"
    by (auto simp: status_def fun_eq_iff)
  show "status w clt xid \<notin> {Unseen, Forgotten}"
    using r ack by (auto simp: status_def split: if_splits)
qed

lemma AddReply_throws:
  assumes "windows_ok w"
  shows "(\<exists>e. AddReply clt xid b w = throw e) \<longleftrightarrow> status w clt xid \<in> {Unseen, Forgotten}"
proof -
  have "(\<exists>e. AddReply clt xid b w = throw e) \<longleftrightarrow> find_xid xid (window_of w clt) = None"
    using set_reply_None [of xid b "window_of w clt"]
    by (auto simp: AddReply_def window_of_def split: option.splits)
  also have "\<dots> \<longleftrightarrow> status w clt xid \<in> {Unseen, Forgotten}"
    using find_xid_acked [OF assms] by (cases "find_xid xid (window_of w clt)") (auto simp: status_def)
  finally show ?thesis .
qed

lemma read_rep_buf_status:
  "status w clt xid = Replied b \<Longrightarrow> read_rep_buf clt xid w = ret b"
  by (auto simp: status_def read_rep_buf_def split: if_splits option.splits elim: entry_status.elims)

section \<open>The contract of the dispatcher\<close>

text \<open>
  What \<open>Dispatch\<close> relies on: a status per request that moves only forward (\<open>Unseen\<close>,
  \<open>Running\<close>, \<open>Replied\<close>, \<open>Forgotten\<close>), answers that tell the status, and replies that are
  kept as they were recorded.
\<close>

fun rank :: "rstatus \<Rightarrow> nat" where
  "rank Unseen = 0"
| "rank Running = 1"
| "rank (Replied b) = 2"
| "rank Forgotten = 3"

text \<open>The order in which a request moves through its life.\<close>

instantiation rstatus :: preorder
begin

definition less_eq_rstatus :: "rstatus \<Rightarrow> rstatus \<Rightarrow> bool" where
  "less_eq_rstatus s t \<longleftrightarrow> rank s \<le> rank t"

definition less_rstatus :: "rstatus \<Rightarrow> rstatus \<Rightarrow> bool" where
  "less_rstatus s t \<longleftrightarrow> rank s < rank t"

instance
  by standard (auto simp: less_eq_rstatus_def less_rstatus_def)

end

locale reply_store =
  fixes ok :: "'w \<Rightarrow> bool"
    and st :: "'w \<Rightarrow> nonce_t \<Rightarrow> xid_t \<Rightarrow> rstatus"
    and known :: "nonce_t \<Rightarrow> 'w \<Rightarrow> 'w"
    and check :: "nonce_t \<Rightarrow> xid_t \<Rightarrow> xid_t \<Rightarrow> 'w \<Rightarrow> State \<times> 'w"
    and add :: "nonce_t \<Rightarrow> xid_t \<Rightarrow> string \<Rightarrow> 'w \<Rightarrow> 'w res"
  assumes ok_known: "ok w \<Longrightarrow> ok (known c w)"
    and st_known: "st (known c w) = st w"
    and ok_check: "ok w \<Longrightarrow> check c x r w = (s, w') \<Longrightarrow> ok w'"
    and st_check: "ok w \<Longrightarrow> check c x r w = (s, w') \<Longrightarrow>
          st w' d y =
            (if d = c \<and> y = x \<and> s = NEW then Running
             else if d = c \<and> y \<le> r then Forgotten else st w d y)"
    and answer_check: "ok w \<Longrightarrow> check c x r w = (s, w') \<Longrightarrow>
          s = answer (if x \<le> r then Forgotten else st w c x)"
    and ok_add: "ok w \<Longrightarrow> add c x b w = ret w' \<Longrightarrow> ok w'"
    and st_add: "ok w \<Longrightarrow> add c x b w = ret w' \<Longrightarrow>
          st w' = (st w)(c := (st w c)(x := Replied b))"
    and add_ret: "ok w \<Longrightarrow>
          (\<exists>w'. add c x b w = ret w') \<longleftrightarrow> st w c x \<notin> {Unseen, Forgotten}"
begin

lemma check_NEW_iff:
  assumes "ok w" and "check c x r w = (s, w')"
  shows "s = NEW \<longleftrightarrow> \<not> x \<le> r \<and> st w c x = Unseen"
  using answer_check [OF assms] by (cases "st w c x") auto

lemma check_DONE:
  assumes "ok w" and "check c x r w = (DONE, w')"
  obtains b where "st w c x = Replied b" and "st w' c x = Replied b"
proof -
  have "\<not> x \<le> r" using answer_check [OF assms] by auto
  with answer_check [OF assms] st_check [OF assms, of c x] that show thesis
    by (cases "st w c x") auto
qed

text \<open>No operation moves a status back.\<close>

lemma rank_known: "rank (st w d y) \<le> rank (st (known c w) d y)"
  by (simp add: st_known)

lemma rank_check:
  assumes "ok w" and "check c x r w = (s, w')"
  shows "rank (st w d y) \<le> rank (st w' d y)"
proof (cases "d = c \<and> y = x \<and> s = NEW")
  case True
  then have "st w d y = Unseen" using check_NEW_iff [OF assms] by simp
  then show ?thesis by simp
next
  case False
  then have "st w' d y = Forgotten \<or> st w' d y = st w d y"
    using st_check [OF assms, of d y] by (auto split: if_splits)
  moreover have "rank s' \<le> 3" for s' by (cases s') simp_all
  ultimately show ?thesis by auto
qed

lemma rank_add:
  assumes "ok w" and "add c x b w = ret w'"
  shows "rank (st w d y) \<le> rank (st w' d y)"
proof (cases "d = c \<and> y = x")
  case True
  have "st w c x \<notin> {Unseen, Forgotten}" using add_ret [OF assms(1)] assms(2) by blast
  then have "rank (st w c x) \<le> 2" by (cases "st w c x") auto
  with True show ?thesis using st_add [OF assms] by simp
next
  case False
  then show ?thesis using st_add [OF assms] by auto
qed

lemma seen_check:
  assumes "ok w" and "check c x r w = (s, w')"
  shows "st w' c x \<noteq> Unseen"
  using st_check [OF assms, of c x] answer_check [OF assms] by (auto split: if_splits)

lemmas store_rules = ok_known ok_check ok_add rank_known rank_check rank_add

end

interpretation rw: reply_store windows_ok status EnsureWindow CheckDuplicateAndUpdate AddReply
proof
  fix w w' :: windows and c d x y r s b
  show "windows_ok w \<Longrightarrow> windows_ok (EnsureWindow c w)"
    by (rule windows_ok_EnsureWindow)
  show "status (EnsureWindow c w) = status w"
    by (simp add: status_def fun_eq_iff frame_simps)
  show "windows_ok w \<Longrightarrow> CheckDuplicateAndUpdate c x r w = (s, w') \<Longrightarrow> windows_ok w'"
    using windows_ok_Check [of w c x r] by simp
  show "windows_ok w \<Longrightarrow> CheckDuplicateAndUpdate c x r w = (s, w') \<Longrightarrow>
      status w' d y = (if d = c \<and> y = x \<and> s = NEW then Running
                       else if d = c \<and> y \<le> r then Forgotten else status w d y)"
    using status_Check [of w "max r (acked w c)" r c x d y] answer_Check [of w c x r]
    by (cases "status w c x") (auto simp: le_max_iff_disj status_def)
  show "windows_ok w \<Longrightarrow> CheckDuplicateAndUpdate c x r w = (s, w') \<Longrightarrow>
      s = answer (if x \<le> r then Forgotten else status w c x)"
    using answer_Check [of w c x r] by (auto simp: le_max_iff_disj status_def)
  show "windows_ok w \<Longrightarrow> AddReply c x b w = ret w' \<Longrightarrow> windows_ok w'"
    using windows_ok_AddReply by blast
  show "windows_ok w \<Longrightarrow> AddReply c x b w = ret w' \<Longrightarrow>
      status w' = (status w)(c := (status w c)(x := Replied b))"
    using status_AddReply(1) by blast
  show "windows_ok w \<Longrightarrow>
      (\<exists>w'. AddReply c x b w = ret w') \<longleftrightarrow> status w c x \<notin> {Unseen, Forgotten}"
    using AddReply_throws [of w c x b] by (cases "AddReply c x b w") auto
qed

section \<open>Properties\<close>

text \<open>
  C12: the window implements the ledger. \<open>CheckDuplicateAndUpdate\<close> and \<open>AddReply\<close> on the sorted
  lists do what the ledger does on a status for each request: the check raises the acknowledged
  transaction, forgets what it covers, tells the status and admits an unseen request; a reply is
  recorded for exactly the requests that were admitted and not forgotten, and refused with an
  exception for the others.
\<close>

theorem window_refines_ledger:
  assumes "windows_ok w"
  shows "map_prod id ledger_of (CheckDuplicateAndUpdate clt xid xid_rep w) =
           ledger_check clt xid xid_rep (ledger_of w) \<and>
         (case AddReply clt xid b w of
            Inl e \<Rightarrow> ledger_add clt xid b (ledger_of w) = None
          | Inr w' \<Rightarrow> ledger_add clt xid b (ledger_of w) = Some (ledger_of w'))"
proof (intro conjI)
  show "map_prod id ledger_of (CheckDuplicateAndUpdate clt xid xid_rep w) =
      ledger_check clt xid xid_rep (ledger_of w)"
    by (rule ledger_Check [OF assms])
  show "case AddReply clt xid b w of
            Inl e \<Rightarrow> ledger_add clt xid b (ledger_of w) = None
          | Inr w' \<Rightarrow> ledger_add clt xid b (ledger_of w) = Some (ledger_of w')"
  proof (cases "AddReply clt xid b w")
    case (Inl e)
    with AddReply_throws [OF assms, of clt xid b] show ?thesis
      by (auto simp: ledger_add_def ledger_of_def)
  next
    case (Inr w')
    from status_AddReply [OF Inr assms] AddReply_window [OF Inr] Inr show ?thesis
      by (auto simp: ledger_add_def ledger_of_def mark_def split: rstatus.split)
  qed
qed

theorem window_refines_ledger_witness:
  "\<exists>w. windows_ok w \<and> fst (CheckDuplicateAndUpdate 5 7 3 w) = FORGOTTEN \<and>
     map_prod id ledger_of (CheckDuplicateAndUpdate 5 7 3 w) = ledger_check 5 7 3 (ledger_of w) \<and>
     ledger_add 5 7 ''r'' (ledger_of w) = None"
proof (intro exI conjI)
  let ?w = "snd (CheckDuplicateAndUpdate 5 9 8 windows_new)"
  show ok: "windows_ok ?w" by (intro inv_intros)
  show "fst (CheckDuplicateAndUpdate 5 7 3 ?w) = FORGOTTEN"
    by (simp add: Check_answer Check_acked)
  have f: "status ?w 5 7 = Forgotten"
    by (simp add: status_def Check_acked)
  from window_refines_ledger [OF ok, of 5 7 3 "''r''"]
  show "map_prod id ledger_of (CheckDuplicateAndUpdate 5 7 3 ?w) = ledger_check 5 7 3 (ledger_of ?w)"
    and "ledger_add 5 7 ''r'' (ledger_of ?w) = None"
    by (simp_all add: ledger_add_def ledger_of_def f split: sum.splits)
qed

text \<open>
  The windows stay in order. Every operation keeps each client's window strictly ascending
  and free of acknowledged transactions, so a transaction has one entry at most.
\<close>

theorem window_invariant_server:
  assumes "windows_ok w"
  shows "windows_ok (EnsureWindow clt w) \<and>
    windows_ok (snd (CheckDuplicateAndUpdate clt xid xid_rep w)) \<and>
    (case AddReply clt xid b w of Inl e \<Rightarrow> True | Inr w' \<Rightarrow> windows_ok w')"
  using assms windows_ok_AddReply
  by (auto intro: windows_ok_EnsureWindow windows_ok_Check split: sum.split)

theorem window_invariant_server_witness:
  "windows_ok (snd (CheckDuplicateAndUpdate 5 7 3 (EnsureWindow 5 windows_new)))"
  using window_invariant_server [of "EnsureWindow 5 windows_new" 5 7 3]
    window_invariant_server [OF windows_ok_new, of 5] by blast

end
