(* ===== verification/Rpc_Server.thy ===== *)
theory Rpc_Server
  imports Json_Text Reply_Window
begin

text \<open>
  \<open>RpcServer\<close> (\<open>src/include/rpc/rpc_server.h\<close>, \<open>src/rpc/rpc_server.cpp\<close>). Every callback is a
  function from the server state to the new state and the socket operations it starts, or the
  exception that leaves it. \<open>Dispatch\<close> is cut into the sections its locks delimit, so that the
  interleaving of worker threads (\<open>Server_Steps\<close>) uses the very same functions.
\<close>

section \<open>State\<close>

type_synonym sock = nat   \<comment> \<open>the identity of a \<open>Socket\<close> object\<close>

text \<open>
  A handler reads its arguments from the request, writes its result into the reply and may
  change the objects it is bound to (the type \<open>'s\<close>).
\<close>

type_synonym 's handler = "unmarshall \<Rightarrow> marshall \<Rightarrow> 's \<Rightarrow> (Err \<times> marshall) res \<times> 's"

record 's server =
  srv_nonce :: nonce_t                      \<comment> \<open>\<open>nonce_\<close>\<close>
  procs :: "proc_t \<Rightarrow> 's handler option"    \<comment> \<open>\<open>procs_\<close>\<close>
  wins :: windows                           \<comment> \<open>\<open>reply_window_\<close>, \<open>max_ackowledged_rep_\<close>\<close>
  client_sockets :: "sock list"             \<comment> \<open>\<open>client_sockets_\<close>, raw pointers\<close>
  alive :: "sock list"                      \<comment> \<open>sockets a pending callback still owns\<close>
  stoped :: bool                            \<comment> \<open>\<open>stoped_\<close>\<close>
  num_worker :: nat                         \<comment> \<open>\<open>num_worker_\<close>\<close>
  app :: 's                                 \<comment> \<open>the objects behind the handlers\<close>

text \<open>
  Operations started on the sockets, the acceptor and the I/O context. A completed send calls
  \<open>OnSendFinished\<close> (\<open>Checked\<close>) or, for a repeated or forgotten request, reads on whatever the
  error (\<open>Unchecked\<close>).
\<close>

datatype after_send = Checked | Unchecked

datatype effect =
    Send sock string after_send
  | Receive sock
  | Accept
  | CloseSocket sock
  | CloseAcceptor
  | StopContext
  | RunWorkers nat
  | JoinWorkers

fun owns :: "sock \<Rightarrow> effect \<Rightarrow> bool" where
  "owns s (Send s' _ _) = (s = s')"
| "owns s (Receive s') = (s = s')"
| "owns s _ = False"

text \<open>
  The \<open>shared_ptr\<close> of a connection lives in the callback of its pending operation; a callback
  that starts no further operation destroys the socket.
\<close>

definition release :: "sock \<Rightarrow> effect list \<Rightarrow> 's server \<Rightarrow> 's server" where
  "release s es v = (if list_ex (owns s) es then v else v\<lparr>alive := removeAll s (alive v)\<rparr>)"

section \<open>Construction and registration\<close>

text \<open>The wrapper \<open>Register\<close> makes around a method \<open>Err M(const Args &, R &)\<close>.\<close>

definition make_handler ::
  "(json \<Rightarrow> 'a res) \<Rightarrow> ('r \<Rightarrow> json) \<Rightarrow> ('a \<Rightarrow> 's \<Rightarrow> (Err \<times> 'r) res \<times> 's) \<Rightarrow> 's handler" where
  "make_handler conv to_json meth = (\<lambda>req rep s.
     case Unmarshall_get conv req of
       Inl e \<Rightarrow> (throw e, s)
     | Inr (args, _) \<Rightarrow>
         (case meth args s of
            (Inl e, s') \<Rightarrow> (throw e, s')
          | (Inr (err, r), s') \<Rightarrow>
              (bind_res (Marshall_put (to_json r) rep) (\<lambda>rep'. ret (err, rep')), s')))"

definition Register :: "proc_t \<Rightarrow> 's handler \<Rightarrow> 's server \<Rightarrow> 's server res" where
  "Register proc handler v =
     (if procs v proc \<noteq> None then throw Assertion_failed
      else ret (v\<lparr>procs := (procs v)(proc \<mapsto> handler)\<rparr>))"

definition Bind :: "nonce_t \<Rightarrow> 32 word \<Rightarrow> 's \<Rightarrow> (Err \<times> nonce_t) res \<times> 's" where
  "Bind nonce a s = (ret (OK, nonce), s)"

text \<open>The constructor; \<open>rnd\<close> is the result of \<open>random()\<close>, a \<open>long\<close>.\<close>

definition RpcServer_new :: "64 word \<Rightarrow> nat \<Rightarrow> 's \<Rightarrow> 's server res" where
  "RpcServer_new rnd workers s =
     (let nonce = ucast rnd in
      Register BIND (make_handler get_int32 json_of_uint32 (Bind nonce))
        \<lparr>srv_nonce = nonce, procs = Map.empty, wins = windows_new, client_sockets = [],
         alive = [], stoped = False, num_worker = workers, app = s\<rparr>)"

section \<open>Connections\<close>

definition AcceptNewConnection :: "effect list" where
  "AcceptNewConnection = [Accept]"

definition ReadIncomingPacket :: "sock \<Rightarrow> effect list" where
  "ReadIncomingPacket s = [Receive s]"

definition OnNewConnection :: "sock \<Rightarrow> Err \<Rightarrow> 's server \<Rightarrow> 's server \<times> effect list" where
  "OnNewConnection s e v =
     (if e \<noteq> OK then (v, [])
      else (v\<lparr>client_sockets := client_sockets v @ [s], alive := s # alive v\<rparr>,
            ReadIncomingPacket s @ AcceptNewConnection))"

definition OnSendFinished :: "sock \<Rightarrow> Err \<Rightarrow> 's server \<Rightarrow> 's server \<times> effect list" where
  "OnSendFinished s e v =
     (let es = (if e \<noteq> OK then [] else ReadIncomingPacket s) in (release s es v, es))"

text \<open>The callback of a send after \<open>DONE\<close> and \<open>FORGOTTEN\<close>.\<close>

definition OnRepeatSent :: "sock \<Rightarrow> Err \<Rightarrow> 's server \<Rightarrow> 's server \<times> effect list" where
  "OnRepeatSent s e v = (v, ReadIncomingPacket s)"

definition Start :: "'s server \<Rightarrow> effect list" where
  "Start v = AcceptNewConnection @ [RunWorkers (num_worker v)]"

text \<open>A raw pointer to a destroyed socket must not be used.\<close>

definition CloseAllClientSockets :: "'s server \<Rightarrow> effect list res" where
  "CloseAllClientSockets v =
     (if list_all (\<lambda>s. s \<in> set (alive v)) (client_sockets v)
      then ret (map CloseSocket (client_sockets v)) else throw Undefined_behaviour)"

definition Stop :: "'s server \<Rightarrow> ('s server \<times> effect list) res" where
  "Stop v =
     (if stoped v then ret (v, [])
      else bind_res (CloseAllClientSockets v) (\<lambda>es.
        ret (v\<lparr>stoped := True\<rparr>, CloseAcceptor # StopContext # es @ [JoinWorkers])))"

section \<open>Dispatch\<close>

text \<open>A request whose procedure is found: what the rest of \<open>Dispatch\<close> works on.\<close>

record 's job =
  job_sock :: sock
  job_req :: unmarshall
  job_hdr :: RequestHeader
  job_handler :: "'s handler"

abbreviation job_clt :: "'s job \<Rightarrow> nonce_t" where
  "job_clt j \<equiv> req_clt_nonce (job_hdr j)"

abbreviation job_xid :: "'s job \<Rightarrow> xid_t" where
  "job_xid j \<equiv> req_xid (job_hdr j)"

datatype 's start = Rejected "effect list" | Found "'s job"

text \<open>A reply that carries a header only.\<close>

definition header_reply :: "codec \<Rightarrow> sock \<Rightarrow> xid_t \<Rightarrow> Err \<Rightarrow> after_send \<Rightarrow> effect list res" where
  "header_reply c s xid err k =
     bind_res (Marshall_put_rep \<lparr>rep_xid = xid, rep_err = err\<rparr> Marshall_new) (\<lambda>rep.
     bind_res (Marshall_Buf c rep) (\<lambda>b. ret [Send s b k]))"

text \<open>Up to the lookup of the handler under \<open>procs_mu_\<close>.\<close>

definition dispatch_lookup :: "codec \<Rightarrow> sock option \<Rightarrow> string \<Rightarrow> 's server \<Rightarrow> 's start res" where
  "dispatch_lookup c socket buf v =
     (case socket of
        None \<Rightarrow> throw (Runtime_error ''dispatch with null socket'')
      | Some s \<Rightarrow>
          bind_res (Unmarshall_of c buf) (\<lambda>req.
          bind_res (Unmarshall_get_req req) (\<lambda>h.
          if req_srv_nonce h \<noteq> 0 \<and> req_srv_nonce h \<noteq> srv_nonce v then
            bind_res (header_reply c s (req_xid h) OLDSERVER_FAILURE Checked) (\<lambda>es.
            ret (Rejected es))
          else
            (case procs v (req_proc h) of
               None \<Rightarrow> throw (Runtime_error ''rpcs: dispatch: unknown proc'')
             | Some handler \<Rightarrow>
                 ret (Found \<lparr>job_sock = s, job_req = req, job_hdr = h,
                             job_handler = handler\<rparr>)))))"

text \<open>The two sections under \<open>rep_window_mu_\<close>, taken when the client wants at-most-once.\<close>

definition dispatch_known :: "'s job \<Rightarrow> 's server \<Rightarrow> 's server" where
  "dispatch_known j v = v\<lparr>wins := EnsureWindow (job_clt j) (wins v)\<rparr>"

definition dispatch_check :: "'s job \<Rightarrow> 's server \<Rightarrow> State \<times> 's server" where
  "dispatch_check j v =
     (case CheckDuplicateAndUpdate (job_clt j) (job_xid j) (req_xid_rep (job_hdr j)) (wins v) of
        (st, w) \<Rightarrow> (st, v\<lparr>wins := w\<rparr>))"

text \<open>The handler call and the reply header.\<close>

definition dispatch_execute :: "'s job \<Rightarrow> 's server \<Rightarrow> marshall res \<times> 's server" where
  "dispatch_execute j v =
     (case job_handler j (job_req j) Marshall_new (app v) of
        (Inl e, s) \<Rightarrow> (throw e, v\<lparr>app := s\<rparr>)
      | (Inr (err, rep), s) \<Rightarrow>
          (Marshall_put_rep \<lparr>rep_xid = job_xid j, rep_err = err\<rparr> rep, v\<lparr>app := s\<rparr>))"

definition dispatch_record :: "codec \<Rightarrow> 's job \<Rightarrow> marshall \<Rightarrow> 's server \<Rightarrow> 's server res" where
  "dispatch_record c j rep v =
     bind_res (Marshall_Buf c rep) (\<lambda>b.
     bind_res (AddReply (job_clt j) (job_xid j) b (wins v)) (\<lambda>w. ret (v\<lparr>wins := w\<rparr>)))"

definition dispatch_send :: "codec \<Rightarrow> 's job \<Rightarrow> marshall \<Rightarrow> effect list res" where
  "dispatch_send c j rep = bind_res (Marshall_Buf c rep) (\<lambda>b. ret [Send (job_sock j) b Checked])"

definition dispatch_resend :: "'s job \<Rightarrow> 's server \<Rightarrow> effect list res" where
  "dispatch_resend j v =
     bind_res (read_rep_buf (job_clt j) (job_xid j) (wins v)) (\<lambda>b.
     ret [Send (job_sock j) b Unchecked])"

definition dispatch_forgotten :: "codec \<Rightarrow> 's job \<Rightarrow> effect list res" where
  "dispatch_forgotten c j = header_reply c (job_sock j) (job_xid j) ATMOST_ONCE_FAILURE Unchecked"

text \<open>The switch over the state, with no other thread in between.\<close>

definition dispatch_new :: "codec \<Rightarrow> 's job \<Rightarrow> 's server \<Rightarrow> effect list res \<times> 's server" where
  "dispatch_new c j v =
     (case dispatch_execute j v of
        (Inl e, v1) \<Rightarrow> (throw e, v1)
      | (Inr rep, v1) \<Rightarrow>
          (if job_clt j > 0 then
             (case dispatch_record c j rep v1 of
                Inl e \<Rightarrow> (throw e, v1)
              | Inr v2 \<Rightarrow> (dispatch_send c j rep, v2))
           else (dispatch_send c j rep, v1)))"

definition dispatch_state ::
  "codec \<Rightarrow> 's job \<Rightarrow> State \<Rightarrow> 's server \<Rightarrow> effect list res \<times> 's server" where
  "dispatch_state c j st v =
     (case st of
        NEW \<Rightarrow> dispatch_new c j v
      | INPROGRESS \<Rightarrow> (ret (ReadIncomingPacket (job_sock j)), v)
      | DONE \<Rightarrow> (dispatch_resend j v, v)
      | FORGOTTEN \<Rightarrow> (dispatch_forgotten c j, v))"

definition Dispatch ::
  "codec \<Rightarrow> sock option \<Rightarrow> string \<Rightarrow> 's server \<Rightarrow> effect list res \<times> 's server" where
  "Dispatch c socket buf v =
     (case dispatch_lookup c socket buf v of
        Inl e \<Rightarrow> (throw e, v)
      | Inr (Rejected es) \<Rightarrow> (ret es, v)
      | Inr (Found j) \<Rightarrow>
          (if job_clt j > 0 then
             (case dispatch_check j (dispatch_known j v) of
                (st, v') \<Rightarrow> dispatch_state c j st v')
           else dispatch_state c j NEW v))"

text \<open>The callback of a receive.\<close>

definition OnReceiveFinished ::
  "codec \<Rightarrow> sock \<Rightarrow> string \<Rightarrow> nat \<Rightarrow> Err \<Rightarrow> 's server \<Rightarrow> effect list res \<times> 's server" where
  "OnReceiveFinished c s data n e v =
     (if e = CANCEL then (ret [], release s [] v)
      else if e \<noteq> OK then (ret [], release s [] v)
      else Dispatch c (Some s) (resize n data) v)"

section \<open>What each section keeps\<close>

text \<open>
  The server invariant: the windows are in order, and the nonce and the handlers are never
  written by a packet.
\<close>

abbreviation server_ok :: "'s server \<Rightarrow> bool" where
  "server_ok v \<equiv> windows_ok (wins v)"

abbreviation request_status :: "'s server \<Rightarrow> nonce_t \<Rightarrow> xid_t \<Rightarrow> rstatus" where
  "request_status v \<equiv> status (wins v)"

lemma dispatch_known_frame [frame_simps]:
  "procs (dispatch_known j v) = procs v" "srv_nonce (dispatch_known j v) = srv_nonce v"
  "num_worker (dispatch_known j v) = num_worker v"
  "app (dispatch_known j v) = app v" "wins (dispatch_known j v) = EnsureWindow (job_clt j) (wins v)"
  by (simp_all add: dispatch_known_def)

lemma dispatch_checkD:
  assumes "dispatch_check j v = (st, v')"
  shows "CheckDuplicateAndUpdate (job_clt j) (job_xid j) (req_xid_rep (job_hdr j)) (wins v) =
           (st, wins v')"
    and "procs v' = procs v" and "srv_nonce v' = srv_nonce v" and "app v' = app v"
    and "num_worker v' = num_worker v"
  using assms by (auto simp: dispatch_check_def split: prod.splits)

lemma dispatch_executeD:
  assumes "dispatch_execute j v = (r, v')"
  shows "wins v' = wins v" and "procs v' = procs v" and "srv_nonce v' = srv_nonce v"
    and "num_worker v' = num_worker v"
  using assms by (auto simp: dispatch_execute_def split: prod.splits sum.splits)

lemma dispatch_recordD:
  assumes "dispatch_record c j rep v = ret v'"
  obtains b where "Marshall_Buf c rep = ret b"
    and "AddReply (job_clt j) (job_xid j) b (wins v) = ret (wins v')"
    and "procs v' = procs v" and "srv_nonce v' = srv_nonce v" and "app v' = app v"
  using assms by (auto simp: dispatch_record_def bind_res_Inr_iff)

lemma dispatch_record_frame:
  assumes "dispatch_record c j rep v = ret v'"
  shows "procs v' = procs v" and "srv_nonce v' = srv_nonce v" and "app v' = app v"
    and "num_worker v' = num_worker v"
  using assms by (auto simp: dispatch_record_def bind_res_Inr_iff)

lemma server_ok_known [inv_intros]: "server_ok v \<Longrightarrow> server_ok (dispatch_known j v)"
  by (simp add: frame_simps rw.ok_known)

lemma server_ok_check [inv_intros]:
  "dispatch_check j v = (st, v') \<Longrightarrow> server_ok v \<Longrightarrow> server_ok v'"
  using dispatch_checkD(1) rw.ok_check by blast

lemma server_ok_execute [inv_intros]:
  "dispatch_execute j v = (r, v') \<Longrightarrow> server_ok v \<Longrightarrow> server_ok v'"
  by (simp add: dispatch_executeD)

lemma server_ok_record [inv_intros]:
  "dispatch_record c j rep v = ret v' \<Longrightarrow> server_ok v \<Longrightarrow> server_ok v'"
  by (erule dispatch_recordD) (rule rw.ok_add)

text \<open>Recording the reply of a request that the check has admitted never throws.\<close>

lemma dispatch_record_running:
  assumes "server_ok v" and "request_status v (job_clt j) (job_xid j) = Running"
    and "Marshall_Buf c rep = ret b"
  obtains v' where "dispatch_record c j rep v = ret v'" and "server_ok v'"
    and "app v' = app v" and "procs v' = procs v" and "srv_nonce v' = srv_nonce v"
    and "num_worker v' = num_worker v"
    and "request_status v' =
           (request_status v)(job_clt j := (request_status v (job_clt j))(job_xid j := Replied b))"
proof -
  from rw.add_ret [OF assms(1), of "job_clt j" "job_xid j" b] assms(2) obtain w where
    w: "AddReply (job_clt j) (job_xid j) b (wins v) = ret w" by auto
  have "dispatch_record c j rep v = ret (v\<lparr>wins := w\<rparr>)"
    by (simp add: dispatch_record_def assms(3) w)
  then show thesis
    using that [of "v\<lparr>wins := w\<rparr>"] rw.ok_add [OF assms(1) w] rw.st_add [OF assms(1) w] by simp
qed

section \<open>Dispatch keeps the invariant\<close>

lemma dispatch_new_frame:
  assumes "dispatch_new c j v = (r, v')" and "server_ok v"
  shows "server_ok v' \<and> procs v' = procs v \<and> srv_nonce v' = srv_nonce v"
proof -
  obtain r1 v1 where ex: "dispatch_execute j v = (r1, v1)" by fastforce
  note f = dispatch_executeD [OF ex]
  show ?thesis
  proof (cases "\<exists>rep v2. r1 = Inr rep \<and> job_clt j > 0 \<and> dispatch_record c j rep v1 = ret v2")
    case True
    then obtain rep v2 where "r1 = Inr rep" "job_clt j > 0" and rc: "dispatch_record c j rep v1 = ret v2"
      by blast
    then have "v' = v2" using assms(1) ex by (simp add: dispatch_new_def)
    moreover have "server_ok v1" using f assms(2) by simp
    ultimately show ?thesis
      using f server_ok_record [OF rc] dispatch_record_frame [OF rc] by simp
  next
    case False
    then have "v' = v1"
      using assms(1) ex by (auto simp: dispatch_new_def split: sum.splits if_splits)
    then show ?thesis using f assms(2) by simp
  qed
qed

lemma dispatch_state_frame:
  assumes "dispatch_state c j st v = (r, v')" and "server_ok v"
  shows "server_ok v' \<and> procs v' = procs v \<and> srv_nonce v' = srv_nonce v"
  using assms dispatch_new_frame [of c j v r v'] by (cases st) (auto simp: dispatch_state_def)

lemma Dispatch_frame:
  assumes "Dispatch c s buf v = (r, v')" and "server_ok v"
  shows "server_ok v' \<and> procs v' = procs v \<and> srv_nonce v' = srv_nonce v"
proof (cases "\<exists>j. dispatch_lookup c s buf v = ret (Found j)")
  case True
  then obtain j where j: "dispatch_lookup c s buf v = ret (Found j)" by blast
  show ?thesis
  proof (cases "job_clt j > 0")
    case True
    obtain st v1 where ck: "dispatch_check j (dispatch_known j v) = (st, v1)" by fastforce
    have "dispatch_state c j st v1 = (r, v')" using assms(1) j True ck by (simp add: Dispatch_def)
    moreover have "server_ok v1"
      using ck server_ok_known [OF assms(2)] by (rule server_ok_check)
    ultimately show ?thesis
      using dispatch_state_frame dispatch_checkD [OF ck] by (fastforce simp: frame_simps)
  next
    case False
    then show ?thesis using assms j dispatch_state_frame by (simp add: Dispatch_def)
  qed
next
  case False
  then have "v' = v"
    using assms(1) by (auto simp: Dispatch_def split: sum.splits start.splits)
  then show ?thesis using assms(2) by simp
qed

section \<open>What Dispatch does on each branch\<close>

text \<open>The header and the handler that \<open>Dispatch\<close> works with.\<close>

lemma dispatch_lookup_FoundE:
  assumes "dispatch_lookup c socket buf v = ret (Found j)"
  obtains s req h handler where "socket = Some s" and "Unmarshall_of c buf = ret req"
    and "Unmarshall_get_req req = ret h"
    and "req_srv_nonce h = 0 \<or> req_srv_nonce h = srv_nonce v"
    and "procs v (req_proc h) = Some handler"
    and "j = \<lparr>job_sock = s, job_req = req, job_hdr = h, job_handler = handler\<rparr>"
proof -
  obtain s where s: "socket = Some s"
    using assms by (cases socket) (simp_all add: dispatch_lookup_def)
  obtain req where req: "Unmarshall_of c buf = ret req"
    using assms s by (cases "Unmarshall_of c buf") (simp_all add: dispatch_lookup_def)
  obtain h where h: "Unmarshall_get_req req = ret h"
    using assms s req by (cases "Unmarshall_get_req req") (simp_all add: dispatch_lookup_def)
  have n: "req_srv_nonce h = 0 \<or> req_srv_nonce h = srv_nonce v"
    using assms s req h by (simp add: dispatch_lookup_def bind_res_Inr_iff split: if_splits)
  obtain handler where "procs v (req_proc h) = Some handler"
    using assms s req h n by (cases "procs v (req_proc h)") (auto simp: dispatch_lookup_def)
  with assms s req h n that show thesis by (auto simp: dispatch_lookup_def)
qed

lemma dispatch_lookup_FoundD:
  assumes "dispatch_lookup c socket buf v = ret (Found j)"
  shows "socket = Some (job_sock j)" and "Unmarshall_of c buf = ret (job_req j)"
    and "Unmarshall_get_req (job_req j) = ret (job_hdr j)"
    and "req_srv_nonce (job_hdr j) = 0 \<or> req_srv_nonce (job_hdr j) = srv_nonce v"
    and "procs v (req_proc (job_hdr j)) = Some (job_handler j)"
  by (rule dispatch_lookup_FoundE [OF assms], simp)+

lemma dispatch_lookup_FoundI:
  assumes "Unmarshall_of c buf = ret req" and "Unmarshall_get_req req = ret h"
    and "req_srv_nonce h = 0 \<or> req_srv_nonce h = srv_nonce v"
    and "procs v (req_proc h) = Some handler"
  shows "dispatch_lookup c (Some s) buf v =
           ret (Found \<lparr>job_sock = s, job_req = req, job_hdr = h, job_handler = handler\<rparr>)"
  using assms by (auto simp: dispatch_lookup_def)

lemma Dispatch_Found:
  assumes "dispatch_lookup c socket buf v = ret (Found j)" and "job_clt j > 0"
    and "dispatch_check j (dispatch_known j v) = (st, v1)"
  shows "Dispatch c socket buf v = dispatch_state c j st v1"
  using assms by (simp add: Dispatch_def)

text \<open>A fresh request: the reply that leaves is the reply that is remembered.\<close>

lemma Dispatch_fresh:
  assumes "dispatch_lookup c socket buf v = ret (Found j)" and "job_clt j > 0" and "server_ok v"
    and "\<not> job_xid j \<le> req_xid_rep (job_hdr j)"
    and "request_status v (job_clt j) (job_xid j) = Unseen"
    and "job_handler j (job_req j) Marshall_new (app v) = (Inr (err, m), s')"
    and "Marshall_put_rep \<lparr>rep_xid = job_xid j, rep_err = err\<rparr> m = ret rep"
    and "Marshall_Buf c rep = ret b"
  obtains v' where "Dispatch c socket buf v = (ret [Send (job_sock j) b Checked], v')"
    and "app v' = s'" and "request_status v' (job_clt j) (job_xid j) = Replied b"
    and "server_ok v'" and "procs v' = procs v" and "srv_nonce v' = srv_nonce v"
    and "num_worker v' = num_worker v"
proof -
  obtain st v1 where ck: "dispatch_check j (dispatch_known j v) = (st, v1)" by fastforce
  note ckD = dispatch_checkD [OF ck]
  have ok0: "server_ok (dispatch_known j v)" using assms(3) by (rule server_ok_known)
  have st0: "request_status (dispatch_known j v) = request_status v"
    by (simp add: frame_simps rw.st_known)
  have st: "st = NEW"
    using rw.check_NEW_iff [OF ok0 ckD(1)] assms(4,5) st0 by simp
  have run: "request_status v1 (job_clt j) (job_xid j) = Running"
    using rw.st_check [OF ok0 ckD(1)] st by simp
  let ?v2 = "v1\<lparr>app := s'\<rparr>"
  have ex: "dispatch_execute j v1 = (Inr rep, ?v2)"
    using assms(6,7) ckD by (simp add: dispatch_execute_def frame_simps)
  have ok2: "server_ok ?v2" using server_ok_check [OF ck ok0] by simp
  have run2: "request_status ?v2 (job_clt j) (job_xid j) = Running" using run by simp
  obtain v' where rc: "dispatch_record c j rep ?v2 = ret v'" "server_ok v'" "app v' = app ?v2"
    "procs v' = procs ?v2" "srv_nonce v' = srv_nonce ?v2"
    "num_worker v' = num_worker ?v2"
    "request_status v' = (request_status ?v2)(job_clt j :=
       (request_status ?v2 (job_clt j))(job_xid j := Replied b))"
    using dispatch_record_running [OF ok2 run2 assms(8)] by blast
  have "dispatch_new c j v1 = (ret [Send (job_sock j) b Checked], v')"
    using ex rc(1) assms(2,8) by (simp add: dispatch_new_def dispatch_send_def)
  then have "Dispatch c socket buf v = (ret [Send (job_sock j) b Checked], v')"
    using Dispatch_Found [OF assms(1,2) ck] st by (simp add: dispatch_state_def)
  then show thesis
    using that rc ckD by (simp add: frame_simps)
qed

text \<open>A repeated request: the remembered reply leaves again and the handler is not called.\<close>

lemma Dispatch_repeated:
  assumes "dispatch_lookup c socket buf v = ret (Found j)" and "job_clt j > 0" and "server_ok v"
    and "\<not> job_xid j \<le> req_xid_rep (job_hdr j)"
    and "request_status v (job_clt j) (job_xid j) = Replied b"
  obtains v' where "Dispatch c socket buf v = (ret [Send (job_sock j) b Unchecked], v')"
    and "app v' = app v" and "request_status v' (job_clt j) (job_xid j) = Replied b"
proof -
  obtain st v1 where ck: "dispatch_check j (dispatch_known j v) = (st, v1)" by fastforce
  note ckD = dispatch_checkD [OF ck]
  have ok0: "server_ok (dispatch_known j v)" using assms(3) by (rule server_ok_known)
  have st0: "request_status (dispatch_known j v) = request_status v"
    by (simp add: frame_simps rw.st_known)
  have st: "st = DONE" using rw.answer_check [OF ok0 ckD(1)] assms(4,5) st0 by simp
  have rep: "request_status v1 (job_clt j) (job_xid j) = Replied b"
    using rw.st_check [OF ok0 ckD(1), of "job_clt j" "job_xid j"] assms(4,5) st st0 by simp
  have "Dispatch c socket buf v = (ret [Send (job_sock j) b Unchecked], v1)"
    using Dispatch_Found [OF assms(1,2) ck] st read_rep_buf_status [OF rep]
    by (simp add: dispatch_state_def dispatch_resend_def)
  then show thesis using that ckD rep by (simp add: frame_simps)
qed

text \<open>An acknowledged request: an error reply, and the handler is not called.\<close>

lemma Dispatch_acknowledged:
  assumes "dispatch_lookup c socket buf v = ret (Found j)" and "job_clt j > 0" and "server_ok v"
    and "job_xid j \<le> req_xid_rep (job_hdr j) \<or>
         request_status v (job_clt j) (job_xid j) = Forgotten"
  obtains v' where "Dispatch c socket buf v = (dispatch_forgotten c j, v')" and "app v' = app v"
proof -
  obtain st v1 where ck: "dispatch_check j (dispatch_known j v) = (st, v1)" by fastforce
  note ckD = dispatch_checkD [OF ck]
  have ok0: "server_ok (dispatch_known j v)" using assms(3) by (rule server_ok_known)
  have st0: "request_status (dispatch_known j v) = request_status v"
    by (simp add: frame_simps rw.st_known)
  have st: "st = FORGOTTEN" using rw.answer_check [OF ok0 ckD(1)] assms(4) st0 by auto
  have "Dispatch c socket buf v = (dispatch_forgotten c j, v1)"
    using Dispatch_Found [OF assms(1,2) ck] st by (simp add: dispatch_state_def)
  then show thesis using that ckD by (simp add: frame_simps)
qed

text \<open>A client without a nonce gets no memory: its request runs the handler.\<close>

lemma Dispatch_no_nonce:
  assumes "dispatch_lookup c socket buf v = ret (Found j)" and "job_clt j = 0"
    and "job_handler j (job_req j) Marshall_new (app v) = (Inr (err, m), s')"
    and "Marshall_put_rep \<lparr>rep_xid = job_xid j, rep_err = err\<rparr> m = ret rep"
    and "Marshall_Buf c rep = ret b"
  shows "Dispatch c socket buf v = (ret [Send (job_sock j) b Checked], v\<lparr>app := s'\<rparr>)"
  using assms
  by (simp add: Dispatch_def dispatch_state_def dispatch_new_def dispatch_execute_def
      dispatch_send_def)

text \<open>A wrapped method that returns.\<close>

lemma make_handler_returns:
  assumes "Unmarshall_get conv req = ret (a, req')" and "meth a s = (Inr (err, r), s')"
    and "Marshall_put (to_json r) Marshall_new = ret m"
  shows "make_handler conv to_json meth req Marshall_new s = (Inr (err, m), s')"
  using assms by (simp add: make_handler_def)

text \<open>A reply that is a header only, read back by the client.\<close>

lemma header_reply_wire:
  assumes "wire_ok c" and "wf_Err err"
  shows "\<exists>b. header_reply c s xid err k = ret [Send s b k] \<and>
             read_reply c 0 b = ret (\<lparr>rep_xid = xid, rep_err = err\<rparr>, [])"
proof -
  have w: "wire c" using assms(1) by (simp add: wire_def)
  have "bind_res (reply_packet c [] \<lparr>rep_xid = xid, rep_err = err\<rparr>) (read_reply c 0) =
      ret (\<lparr>rep_xid = xid, rep_err = err\<rparr>, [])"
    using wire.reply [OF w, of "[]" "\<lparr>rep_xid = xid, rep_err = err\<rparr>"] assms(2) by simp
  then show ?thesis
    by (auto simp: reply_packet_def header_reply_def bind_res_Inr_iff)
qed

section \<open>Properties\<close>

text \<open>
  Registration. A new server has the binding procedure and nothing else; any other procedure
  can be registered, once, and a second registration of a procedure is a failed assertion.
\<close>

theorem register_once:
  assumes "RpcServer_new rnd workers s = ret v" and "proc \<noteq> BIND"
  shows "dom (procs v) = {BIND} \<and> Register BIND h v = throw Assertion_failed \<and>
    (\<exists>v'. Register proc h v = ret v' \<and> procs v' = (procs v)(proc \<mapsto> h) \<and>
       Register proc h' v' = throw Assertion_failed \<and> wins v' = windows_new)"
  using assms by (auto simp: RpcServer_new_def Register_def Let_def split: if_splits)

theorem register_once_witness:
  "\<exists>v :: unit server. RpcServer_new 9 2 () = ret v \<and> dom (procs v) = {BIND} \<and>
     Register BIND (\<lambda>q m s. (ret (OK, m), s)) v = throw Assertion_failed"
proof -
  obtain v :: "unit server" where v: "RpcServer_new 9 2 () = ret v"
    by (auto simp: RpcServer_new_def Register_def Let_def)
  have "(7 :: proc_t) \<noteq> BIND" by (simp add: BIND_def)
  from register_once [OF v this] v show ?thesis by blast
qed

text \<open>
  C28: acknowledged requests. A packet for a transaction that its client has acknowledged, by this
  packet or an earlier one, does not reach the handler: the state behind the handlers is
  unchanged and the answer is the error \<open>ATMOST_ONCE_FAILURE\<close>.
\<close>

theorem acknowledged_not_executed:
  assumes "dispatch_lookup c socket buf v = ret (Found j)" and "job_clt j > 0" and "server_ok v"
    and "job_xid j \<le> req_xid_rep (job_hdr j) \<or>
         request_status v (job_clt j) (job_xid j) = Forgotten" and "wire_ok c"
  shows "\<exists>v' b. Dispatch c socket buf v = (ret [Send (job_sock j) b Unchecked], v') \<and>
    app v' = app v \<and> read_reply c 0 b = ret (\<lparr>rep_xid = job_xid j, rep_err = ATMOST_ONCE_FAILURE\<rparr>, [])"
proof -
  obtain v' where "Dispatch c socket buf v = (dispatch_forgotten c j, v')" "app v' = app v"
    by (rule Dispatch_acknowledged [OF assms(1-4)])
  moreover obtain b where "dispatch_forgotten c j = ret [Send (job_sock j) b Unchecked]"
    "read_reply c 0 b = ret (\<lparr>rep_xid = job_xid j, rep_err = ATMOST_ONCE_FAILURE\<rparr>, [])"
    using header_reply_wire [OF assms(5), of ATMOST_ONCE_FAILURE "job_sock j" "job_xid j" Unchecked]
    by (auto simp: dispatch_forgotten_def)
  ultimately show ?thesis by auto
qed

theorem acknowledged_not_executed_witness:
  "\<exists>(v :: nat server) buf v' b. app v = 0 \<and>
     Dispatch demo_codec (Some 1) buf v = (ret [Send 1 b Unchecked], v') \<and> app v' = 0 \<and>
     read_reply demo_codec 0 b =
       ret (\<lparr>rep_xid = 2, rep_err = ATMOST_ONCE_FAILURE\<rparr>, [])"
proof -
  let ?c = demo_codec
  let ?h = "\<lparr>req_xid = 2, req_proc = BIND, req_clt_nonce = 5, req_srv_nonce = 0, req_xid_rep = 3\<rparr>"
  obtain v :: "nat server" where v: "RpcServer_new 9 2 0 = ret v" "procs v BIND \<noteq> None"
    "server_ok v" "app v = 0"
    by (auto simp: RpcServer_new_def Register_def Let_def windows_ok_new)
  obtain f where f: "procs v (req_proc ?h) = Some f" using v(2) by auto
  obtain m m' buf u where "Marshall_put (JUint 0) Marshall_new = ret m"
    "Marshall_put_req ?h m = ret m'" "Marshall_Buf ?c m' = ret buf"
    and u: "Unmarshall_of ?c buf = ret u" "Unmarshall_get_req u = ret ?h"
    by (rule jw.request_read [where t = "JUint 0" and h = ?h and fl = "\<lambda>d. []" and strtod = "\<lambda>s. 0"]) auto
  let ?j = "\<lparr>job_sock = 1, job_req = u, job_hdr = ?h, job_handler = f\<rparr>"
  have "dispatch_lookup ?c (Some 1) buf v = ret (Found ?j)"
    by (rule dispatch_lookup_FoundI [OF u _ f]) simp
  from acknowledged_not_executed [OF this _ v(3)] v(4) show ?thesis
    using jw.wire_axioms by (force simp: wire_def)
qed

text \<open>
  Stopping after a connection was lost. When a receive or a send on a connection has failed,
  its socket is destroyed but stays in \<open>client_sockets_\<close>, and \<open>Stop\<close> closes it through the
  dangling pointer.
\<close>

theorem stop_after_lost_connection:
  assumes "e \<noteq> OK" and "k \<in> set (client_sockets v)" and "\<not> stoped v"
  shows "Stop (snd (OnReceiveFinished c k data n e v)) = throw Undefined_behaviour \<and>
    Stop (fst (OnSendFinished k e v)) = throw Undefined_behaviour"
  using assms
  by (auto simp: Stop_def CloseAllClientSockets_def OnReceiveFinished_def OnSendFinished_def
      release_def list_all_iff)

theorem stop_after_lost_connection_witness:
  "\<exists>v v' :: unit server. RpcServer_new 9 2 () = ret v \<and> fst (OnNewConnection 1 OK v) = v' \<and>
     Stop (snd (OnReceiveFinished demo_codec 1 [] 0 CONNECTION_CLOSED v')) = throw Undefined_behaviour"
proof -
  obtain v :: "unit server" where v: "RpcServer_new 9 2 () = ret v" "\<not> stoped v"
    by (auto simp: RpcServer_new_def Register_def Let_def)
  then have "1 \<in> set (client_sockets (fst (OnNewConnection 1 OK v)))"
    "\<not> stoped (fst (OnNewConnection 1 OK v))"
    by (simp_all add: OnNewConnection_def)
  from stop_after_lost_connection [OF _ this, of CONNECTION_CLOSED demo_codec "[]" 0] v(1) show ?thesis
    by blast
qed

text \<open>
  Packets have no frame. TCP is a stream, and what one receive returns is what has arrived:
  when two requests of a connection arrive together, \<open>OnReceiveFinished\<close> throws and neither is
  executed or answered.
\<close>

theorem coalesced_requests:
  assumes "wf_marshall m1" and "wf_marshall m2" and "Marshall_Buf (json_codec fl strtod) m1 = ret b1"
    and "Marshall_Buf (json_codec fl strtod) m2 = ret b2"
  shows "OnReceiveFinished (json_codec fl strtod) k (b1 @ b2 @ rest) (length b1 + length b2) OK v =
    (throw Std_exception, v)"
proof -
  have "resize (length b1 + length b2) (b1 @ b2 @ rest) = b1 @ b2"
    using resize_prefix [of "b1 @ b2" rest] by simp
  then show ?thesis
    using two_packets [OF assms]
    by (simp add: OnReceiveFinished_def Dispatch_def dispatch_lookup_def)
qed

theorem coalesced_requests_witness:
  "\<exists>b. Marshall_Buf demo_codec Marshall_new = ret b \<and>
     (\<forall>v :: unit server. OnReceiveFinished demo_codec 1 (b @ b @ '' '') (length b + length b) OK v =
        (throw Std_exception, v))"
proof -
  obtain b where b: "Marshall_Buf demo_codec Marshall_new = ret b"
    using jw.Buf_TakeBuf [OF wf_marshall_new] by metis
  with coalesced_requests [OF wf_marshall_new wf_marshall_new b b] show ?thesis by blast
qed

end
