(* ===== verification/Server_Steps.thy ===== *)
theory Server_Steps
  imports Rpc_Server "HOL-Library.Multiset"
begin

text \<open>
  The server with its worker threads: every thread runs a callback, and between two of the
  sections that \<open>Dispatch\<close> takes under a lock any other thread may move. The packets that
  arrive are arbitrary, so the results hold for every client and every network. The log is a
  ghost: it records handler calls, recorded replies and sent replies.
\<close>

section \<open>Configurations\<close>

text \<open>Where a worker thread stands in \<open>Dispatch\<close>.\<close>

datatype 's pc =
    Looked "'s job"               \<comment> \<open>handler found\<close>
  | Known "'s job"                \<comment> \<open>the client has a window\<close>
  | Admitted "'s job"             \<comment> \<open>state \<open>NEW\<close>, or no at-most-once: the handler is next\<close>
  | Executed "'s job" marshall    \<comment> \<open>the handler has returned, the reply is to be recorded\<close>
  | Answered "'s job" marshall    \<comment> \<open>the reply is to be sent\<close>
  | Repeated "'s job"             \<comment> \<open>state \<open>DONE\<close>, holding the pointer into the window\<close>
  | Old "'s job"                  \<comment> \<open>state \<open>FORGOTTEN\<close>\<close>

datatype event =
    Exec nonce_t xid_t
  | Recorded nonce_t xid_t string
  | Sent nonce_t xid_t string
  | SentAgain nonce_t xid_t string

record 's config =
  srv :: "'s server"
  pool :: "'s pc multiset"
  failed :: "exn option"          \<comment> \<open>an exception left a worker thread\<close>
  events :: "event list"

definition config_init :: "'s config \<Rightarrow> bool" where
  "config_init s \<longleftrightarrow>
     wins (srv s) = windows_new \<and> pool s = {#} \<and> failed s = None \<and> events s = []"

text \<open>Where a found request goes: the at-most-once sections are for clients with a nonce.\<close>

definition enter :: "'s job \<Rightarrow> 's pc" where
  "enter j = (if job_clt j > 0 then Looked j else Admitted j)"

definition executed :: "'s job \<Rightarrow> marshall \<Rightarrow> 's pc" where
  "executed j rep = (if job_clt j > 0 then Executed j rep else Answered j rep)"

text \<open>The switch over the state; \<open>INPROGRESS\<close> reads on and is done.\<close>

fun switch :: "State \<Rightarrow> 's job \<Rightarrow> 's pc multiset" where
  "switch NEW j = {#Admitted j#}"
| "switch INPROGRESS j = {#}"
| "switch DONE j = {#Repeated j#}"
| "switch FORGOTTEN j = {#Old j#}"

section \<open>Steps\<close>

inductive sstep :: "codec \<Rightarrow> 's config \<Rightarrow> 's config \<Rightarrow> bool" for c :: codec where
  arrive: "failed s = None \<Longrightarrow> size (pool s) < num_worker (srv s) \<Longrightarrow>
     dispatch_lookup c socket buf (srv s) = ret (Found j) \<Longrightarrow>
     sstep c s (s\<lparr>pool := add_mset (enter j) (pool s)\<rparr>)"
| reject: "failed s = None \<Longrightarrow> size (pool s) < num_worker (srv s) \<Longrightarrow>
     dispatch_lookup c socket buf (srv s) = ret (Rejected es) \<Longrightarrow> sstep c s s"
| lookup_throws: "failed s = None \<Longrightarrow> size (pool s) < num_worker (srv s) \<Longrightarrow>
     dispatch_lookup c socket buf (srv s) = throw e \<Longrightarrow> sstep c s (s\<lparr>failed := Some e\<rparr>)"
| known: "failed s = None \<Longrightarrow> pool s = add_mset (Looked j) P \<Longrightarrow>
     sstep c s (s\<lparr>srv := dispatch_known j (srv s), pool := add_mset (Known j) P\<rparr>)"
| check: "failed s = None \<Longrightarrow> pool s = add_mset (Known j) P \<Longrightarrow>
     dispatch_check j (srv s) = (st, v) \<Longrightarrow>
     sstep c s (s\<lparr>srv := v, pool := switch st j + P\<rparr>)"
| execute: "failed s = None \<Longrightarrow> pool s = add_mset (Admitted j) P \<Longrightarrow>
     dispatch_execute j (srv s) = (ret rep, v) \<Longrightarrow>
     sstep c s (s\<lparr>srv := v, pool := add_mset (executed j rep) P,
                 events := events s @ [Exec (job_clt j) (job_xid j)]\<rparr>)"
| execute_throws: "failed s = None \<Longrightarrow> pool s = add_mset (Admitted j) P \<Longrightarrow>
     dispatch_execute j (srv s) = (throw e, v) \<Longrightarrow>
     sstep c s (s\<lparr>srv := v, pool := P, failed := Some e,
                 events := events s @ [Exec (job_clt j) (job_xid j)]\<rparr>)"
| record_reply: "failed s = None \<Longrightarrow> pool s = add_mset (Executed j rep) P \<Longrightarrow>
     dispatch_record c j rep (srv s) = ret v \<Longrightarrow> Marshall_Buf c rep = ret b \<Longrightarrow>
     sstep c s (s\<lparr>srv := v, pool := add_mset (Answered j rep) P,
                 events := events s @ [Recorded (job_clt j) (job_xid j) b]\<rparr>)"
| record_throws: "failed s = None \<Longrightarrow> pool s = add_mset (Executed j rep) P \<Longrightarrow>
     dispatch_record c j rep (srv s) = throw e \<Longrightarrow>
     sstep c s (s\<lparr>pool := P, failed := Some e\<rparr>)"
| send: "failed s = None \<Longrightarrow> pool s = add_mset (Answered j rep) P \<Longrightarrow>
     dispatch_send c j rep = ret [Send (job_sock j) b k] \<Longrightarrow>
     sstep c s (s\<lparr>pool := P, events := events s @ [Sent (job_clt j) (job_xid j) b]\<rparr>)"
| send_throws: "failed s = None \<Longrightarrow> pool s = add_mset (Answered j rep) P \<Longrightarrow>
     dispatch_send c j rep = throw e \<Longrightarrow> sstep c s (s\<lparr>pool := P, failed := Some e\<rparr>)"
| resend: "failed s = None \<Longrightarrow> pool s = add_mset (Repeated j) P \<Longrightarrow>
     dispatch_resend j (srv s) = ret [Send (job_sock j) b k] \<Longrightarrow>
     sstep c s (s\<lparr>pool := P, events := events s @ [SentAgain (job_clt j) (job_xid j) b]\<rparr>)"
| resend_throws: "failed s = None \<Longrightarrow> pool s = add_mset (Repeated j) P \<Longrightarrow>
     dispatch_resend j (srv s) = throw e \<Longrightarrow> sstep c s (s\<lparr>pool := P, failed := Some e\<rparr>)"
| forgotten: "failed s = None \<Longrightarrow> pool s = add_mset (Old j) P \<Longrightarrow>
     dispatch_forgotten c j = ret es \<Longrightarrow> sstep c s (s\<lparr>pool := P\<rparr>)"
| forgotten_throws: "failed s = None \<Longrightarrow> pool s = add_mset (Old j) P \<Longrightarrow>
     dispatch_forgotten c j = throw e \<Longrightarrow> sstep c s (s\<lparr>pool := P, failed := Some e\<rparr>)"
| connect: "failed s = None \<Longrightarrow> OnNewConnection k e (srv s) = (v, es) \<Longrightarrow>
     sstep c s (s\<lparr>srv := v\<rparr>)"
| sent: "failed s = None \<Longrightarrow> OnSendFinished k e (srv s) = (v, es) \<Longrightarrow>
     sstep c s (s\<lparr>srv := v\<rparr>)"
| register: "failed s = None \<Longrightarrow> Register proc h (srv s) = ret v \<Longrightarrow>
     sstep c s (s\<lparr>srv := v\<rparr>)"

abbreviation sreach :: "codec \<Rightarrow> 's config \<Rightarrow> bool" where
  "sreach c \<equiv> reach config_init (sstep c)"

section \<open>Invariant\<close>

fun admitted :: "nonce_t \<Rightarrow> xid_t \<Rightarrow> 's pc \<Rightarrow> bool" where
  "admitted k x (Admitted j) \<longleftrightarrow> job_clt j = k \<and> job_xid j = x"
| "admitted k x _ \<longleftrightarrow> False"

fun unrecorded :: "nonce_t \<Rightarrow> xid_t \<Rightarrow> 's pc \<Rightarrow> bool" where
  "unrecorded k x (Executed j m) \<longleftrightarrow> job_clt j = k \<and> job_xid j = x"
| "unrecorded k x _ \<longleftrightarrow> False"

fun recorded_for :: "nonce_t \<Rightarrow> xid_t \<Rightarrow> event \<Rightarrow> bool" where
  "recorded_for k x (Recorded k' x' b) \<longleftrightarrow> k = k' \<and> x = x'"
| "recorded_for k x _ \<longleftrightarrow> False"

text \<open>Calls of the handler for a request, made or certain to be made next.\<close>

definition claims :: "'s config \<Rightarrow> nonce_t \<Rightarrow> xid_t \<Rightarrow> nat" where
  "claims s k x =
     length (filter ((=) (Exec k x)) (events s)) + size (filter_mset (admitted k x) (pool s))"

text \<open>Replies recorded for a request, or certain to be recorded next.\<close>

definition records :: "'s config \<Rightarrow> nonce_t \<Rightarrow> xid_t \<Rightarrow> nat" where
  "records s k x =
     length (filter (recorded_for k x) (events s)) +
     size (filter_mset (unrecorded k x) (pool s))"

definition answered_ok :: "codec \<Rightarrow> 's config \<Rightarrow> bool" where
  "answered_ok c s \<longleftrightarrow>
     (\<forall>j rep b. Answered j rep \<in># pool s \<longrightarrow> job_clt j > 0 \<longrightarrow> Marshall_Buf c rep = ret b \<longrightarrow>
        Recorded (job_clt j) (job_xid j) b \<in> set (events s))"

definition sent_ok :: "'s config \<Rightarrow> bool" where
  "sent_ok s \<longleftrightarrow>
     (\<forall>k x b. k > 0 \<longrightarrow>
        Sent k x b \<in> set (events s) \<or> SentAgain k x b \<in> set (events s) \<or>
        status (wins (srv s)) k x = Replied b \<longrightarrow>
        Recorded k x b \<in> set (events s))"

definition repeated_ok :: "'s config \<Rightarrow> bool" where
  "repeated_ok s \<longleftrightarrow>
     (\<forall>j. Repeated j \<in># pool s \<longrightarrow> 2 \<le> rank (request_status (srv s) (job_clt j) (job_xid j)))"

definition claims_ok :: "'s config \<Rightarrow> bool" where
  "claims_ok s \<longleftrightarrow>
     (\<forall>k x. k > 0 \<longrightarrow>
        claims s k x \<le> 1 \<and> (request_status (srv s) k x = Unseen \<longrightarrow> claims s k x = 0))"

definition records_ok :: "'s config \<Rightarrow> bool" where
  "records_ok s \<longleftrightarrow>
     (\<forall>k x. k > 0 \<longrightarrow> records s k x \<le> length (filter ((=) (Exec k x)) (events s)))"

definition config_inv :: "codec \<Rightarrow> 's config \<Rightarrow> bool" where
  "config_inv c s \<longleftrightarrow>
     server_ok (srv s) \<and> claims_ok s \<and> records_ok s \<and> repeated_ok s \<and>
     answered_ok c s \<and> sent_ok s"

section \<open>Every step keeps the invariant\<close>

lemma server_ok_sstep [inv_intros]:
  "sstep c s t \<Longrightarrow> server_ok (srv s) \<Longrightarrow> server_ok (srv t)"
proof (induction rule: sstep.induct)
  case (check s j P st v)
  then show ?case using server_ok_check by fastforce
next
  case (execute s j P rep v)
  then show ?case using server_ok_execute by fastforce
next
  case (execute_throws s j P e v)
  then show ?case using server_ok_execute by fastforce
next
  case (record_reply s j rep P v b)
  then show ?case using server_ok_record by fastforce
qed (auto intro: server_ok_known
      simp: OnNewConnection_def OnSendFinished_def release_def Register_def Let_def split: if_splits)

lemma claims_simps [simp]:
  "claims (s\<lparr>srv := v\<rparr>) k x = claims s k x"
  "claims (s\<lparr>failed := e\<rparr>) k x = claims s k x"
  "claims (s\<lparr>srv := v, pool := Q\<rparr>) k x = claims (s\<lparr>pool := Q\<rparr>) k x"
  by (simp_all add: claims_def)

lemma admitted_enter [simp]: "k > 0 \<Longrightarrow> \<not> admitted k x (enter j)"
  by (auto simp: enter_def)

lemma admitted_executed [simp]: "\<not> admitted k x (executed j rep)"
  by (simp add: executed_def)

lemma admitted_switch:
  "size (filter_mset (admitted k x) (switch st j)) =
     (if st = NEW \<and> job_clt j = k \<and> job_xid j = x then 1 else 0)"
  by (cases st) auto

text \<open>A step that changes neither the claims nor the windows keeps \<open>claims_ok\<close>.\<close>

lemma claims_ok_frame:
  assumes "claims_ok s" and "\<And>k x. k > 0 \<Longrightarrow> claims t k x \<le> claims s k x"
    and "\<And>k x. request_status (srv s) k x \<noteq> Unseen \<Longrightarrow> request_status (srv t) k x \<noteq> Unseen"
  shows "claims_ok t"
  unfolding claims_ok_def
proof (intro allI impI)
  fix k :: nonce_t and x :: xid_t
  assume k: "k > 0"
  show "claims t k x \<le> 1 \<and> (request_status (srv t) k x = Unseen \<longrightarrow> claims t k x = 0)"
    using assms(1,3) assms(2) [OF k, of x] k unfolding claims_ok_def
    by (metis dual_order.trans le_zero_eq)
qed

lemma claims_ok_check:
  assumes "claims_ok s" and "server_ok (srv s)" and "pool s = add_mset (Known j) P"
    and "dispatch_check j (srv s) = (st, v)"
  shows "claims_ok (s\<lparr>srv := v, pool := switch st j + P\<rparr>)"
  unfolding claims_ok_def
proof (intro allI impI)
  fix k :: nonce_t and x :: xid_t
  assume k: "k > 0"
  let ?t = "s\<lparr>srv := v, pool := switch st j + P\<rparr>"
  note ck = dispatch_checkD(1) [OF assms(4)]
  have c: "claims ?t k x =
      claims s k x + (if st = NEW \<and> job_clt j = k \<and> job_xid j = x then 1 else 0)"
    using assms(3) by (simp add: claims_def admitted_switch)
  have old: "claims s k x \<le> 1" "request_status (srv s) k x = Unseen \<longrightarrow> claims s k x = 0"
    using assms(1) k by (simp_all add: claims_ok_def)
  show "claims ?t k x \<le> 1 \<and> (request_status (srv ?t) k x = Unseen \<longrightarrow> claims ?t k x = 0)"
  proof (cases "st = NEW \<and> job_clt j = k \<and> job_xid j = x")
    case True
    then have "request_status (srv s) k x = Unseen"
      using rw.check_NEW_iff [OF assms(2) ck] by auto
    moreover have "request_status v k x = Running"
      using rw.st_check [OF assms(2) ck, of k x] True by simp
    ultimately show ?thesis using c old True by simp
  next
    case False
    then have "request_status v k x = Forgotten \<or> request_status v k x = request_status (srv s) k x"
      using rw.st_check [OF assms(2) ck, of k x] by (auto split: if_splits)
    then show ?thesis using c old False by auto
  qed
qed

lemma request_status_unseen_record:
  assumes "dispatch_record c j rep v = ret v'" and "server_ok v"
    and "request_status v k x \<noteq> Unseen"
  shows "request_status v' k x \<noteq> Unseen"
proof -
  from assms(1) obtain b where "AddReply (job_clt j) (job_xid j) b (wins v) = ret (wins v')"
    by (rule dispatch_recordD)
  from rw.rank_add [OF assms(2) this, of k x] assms(3) show ?thesis
    by (cases "request_status v k x") auto
qed

lemma claims_ok_sstep:
  "sstep c s t \<Longrightarrow> server_ok (srv s) \<Longrightarrow> claims_ok s \<Longrightarrow> claims_ok t"
proof (induction rule: sstep.induct)
  case (check s j P st v)
  then show ?case by (intro claims_ok_check) simp_all
next
  case (known s j P)
  then show ?case
    by (intro claims_ok_frame [OF known.prems(2)])
       (simp_all add: claims_def frame_simps rw.st_known)
next
  case (execute s j P rep v)
  then show ?case
    by (intro claims_ok_frame [OF execute.prems(2)])
       (auto simp: claims_def dispatch_executeD)
next
  case (execute_throws s j P e v)
  then show ?case
    by (intro claims_ok_frame [OF execute_throws.prems(2)])
       (auto simp: claims_def dispatch_executeD)
next
  case (record_reply s j rep P v b)
  then show ?case
    by (intro claims_ok_frame [OF record_reply.prems(2)])
       (auto simp: claims_def dest: request_status_unseen_record)
next
  case (connect s k e v es)
  then show ?case
    by (intro claims_ok_frame [OF connect.prems(2)])
       (auto simp: OnNewConnection_def split: if_splits)
next
  case (sent s k e v es)
  then show ?case
    by (intro claims_ok_frame [OF sent.prems(2)])
       (auto simp: OnSendFinished_def release_def Let_def split: if_splits)
next
  case (register s proc h v)
  then show ?case
    by (intro claims_ok_frame [OF register.prems(2)])
       (auto simp: Register_def split: if_splits)
qed (erule claims_ok_frame; simp add: claims_def)+

text \<open>No step moves the status of a request back.\<close>

lemma rank_sstep:
  "sstep c s t \<Longrightarrow> server_ok (srv s) \<Longrightarrow>
     rank (request_status (srv s) k x) \<le> rank (request_status (srv t) k x)"
proof (induction rule: sstep.induct)
  case (known s j P)
  then show ?case by (simp add: frame_simps rw.st_known)
next
  case (check s j P st v)
  then show ?case using rw.rank_check [OF _ dispatch_checkD(1)] by fastforce
next
  case (record_reply s j rep P v b)
  then show ?case by (auto elim!: dispatch_recordD dest: rw.rank_add)
qed (auto simp: dispatch_executeD OnNewConnection_def OnSendFinished_def release_def Register_def
      Let_def split: if_splits)

lemma repeated_new:
  "sstep c s t \<Longrightarrow> server_ok (srv s) \<Longrightarrow> Repeated j \<in># pool t \<Longrightarrow>
     Repeated j \<in># pool s \<or> 2 \<le> rank (request_status (srv t) (job_clt j) (job_xid j))"
proof (induction rule: sstep.induct)
  case (check s j' P st v)
  show ?case
  proof (cases "Repeated j \<in># P")
    case False
    with check.prems(2) have st: "st = DONE" "j' = j" by (cases st; auto)+
    from rw.check_DONE [OF check.prems(1) dispatch_checkD(1) [OF check(3) [unfolded st]]]
    obtain b where "request_status v (job_clt j) (job_xid j) = Replied b" by blast
    then show ?thesis by simp
  qed (use check in auto)
qed (auto simp: enter_def executed_def split: if_splits)

lemma repeated_ok_sstep:
  assumes "sstep c s t" and "server_ok (srv s)" and "repeated_ok s"
  shows "repeated_ok t"
  unfolding repeated_ok_def
  using assms repeated_new [OF assms(1,2)] rank_sstep [OF assms(1,2)]
  by (meson order_trans repeated_ok_def)

lemma records_simps [simp]:
  "records (s\<lparr>srv := v\<rparr>) k x = records s k x"
  "records (s\<lparr>failed := e\<rparr>) k x = records s k x"
  "records (s\<lparr>srv := v, pool := Q\<rparr>) k x = records (s\<lparr>pool := Q\<rparr>) k x"
  by (simp_all add: records_def)

lemma unrecorded_enter [simp]: "\<not> unrecorded k x (enter j)"
  by (simp add: enter_def)

lemma unrecorded_executed [simp]:
  "k > 0 \<Longrightarrow> unrecorded k x (executed j rep) \<longleftrightarrow> job_clt j = k \<and> job_xid j = x"
  by (auto simp: executed_def)

lemma unrecorded_switch [simp]: "filter_mset (unrecorded k x) (switch st j) = {#}"
  by (cases st) auto

lemma records_le_sstep:
  "sstep c s t \<Longrightarrow> k > 0 \<Longrightarrow> records s k x \<le> length (filter ((=) (Exec k x)) (events s)) \<Longrightarrow>
     records t k x \<le> length (filter ((=) (Exec k x)) (events t))"
  by (induction rule: sstep.induct) (auto simp: records_def split: if_splits)

lemma records_ok_sstep: "sstep c s t \<Longrightarrow> records_ok s \<Longrightarrow> records_ok t"
  by (simp add: records_ok_def records_le_sstep)

lemma answered_ok_sstep: "sstep c s t \<Longrightarrow> answered_ok c s \<Longrightarrow> answered_ok c t"
proof (induction rule: sstep.induct)
  case (check s j P st v)
  then show ?case by (cases st) (auto simp: answered_ok_def)
qed (auto simp: answered_ok_def enter_def executed_def split: if_splits)

text \<open>A reply read through the pointer is the one the window promises.\<close>

lemma read_rep_buf_Replied:
  assumes "read_rep_buf k x w = ret b" and "windows_ok w" and "2 \<le> rank (status w k x)"
  shows "status w k x = Replied b"
proof -
  from assms(1) obtain r where r: "find_xid x (window_of w k) = Some r" "rp_buf r = b"
    by (auto simp: read_rep_buf_def split: option.splits)
  then have "\<not> x \<le> acked w k" using find_xid_acked [OF assms(2)] by fastforce
  with r assms(3) show ?thesis by (auto simp: status_def split: if_splits)
qed

lemma sent_ok_frame:
  assumes "sent_ok s"
    and "\<And>k x b. request_status (srv t) k x = Replied b \<Longrightarrow>
           request_status (srv s) k x = Replied b"
    and "\<And>e. e \<in> set (events t) \<Longrightarrow> e \<in> set (events s) \<or> (\<exists>k x. e = Exec k x)"
    and "set (events s) \<subseteq> set (events t)"
  shows "sent_ok t"
  using assms unfolding sent_ok_def by blast

lemma sent_ok_sstep:
  "sstep c s t \<Longrightarrow> server_ok (srv s) \<Longrightarrow> repeated_ok s \<Longrightarrow> answered_ok c s \<Longrightarrow> sent_ok s \<Longrightarrow>
     sent_ok t"
proof (induction rule: sstep.induct)
  case (known s j P)
  then show ?case
    by (intro sent_ok_frame [OF known.prems(4)]) (auto simp: frame_simps rw.st_known)
next
  case (check s j P st v)
  note ck = rw.st_check [OF check.prems(1) dispatch_checkD(1) [OF check(3)]]
  from check.prems show ?case
    by (intro sent_ok_frame [OF check.prems(4)]) (auto simp: ck split: if_splits)
next
  case (record_reply s j rep P v b)
  from record_reply(3) obtain b' where b': "Marshall_Buf c rep = ret b'"
    "AddReply (job_clt j) (job_xid j) b' (wins (srv s)) = ret (wins v)"
    by (rule dispatch_recordD)
  with record_reply have "b' = b" by simp
  with rw.st_add [OF record_reply.prems(1) b'(2)] record_reply.prems(4) show ?case
    by (auto simp: sent_ok_def)
next
  case (send s j rep P b k)
  then have "Marshall_Buf c rep = ret b" by (auto simp: dispatch_send_def bind_res_Inr_iff)
  with send show ?case by (auto simp: sent_ok_def answered_ok_def)
next
  case (resend s j P b k)
  then have rd: "read_rep_buf (job_clt j) (job_xid j) (wins (srv s)) = ret b"
    by (auto simp: dispatch_resend_def bind_res_Inr_iff)
  have "2 \<le> rank (request_status (srv s) (job_clt j) (job_xid j))"
    using resend by (auto simp: repeated_ok_def)
  from read_rep_buf_Replied [OF rd resend.prems(1) this] resend.prems(4) show ?case
    by (auto simp: sent_ok_def)
next
  case (execute s j P rep v)
  then show ?case
    by (intro sent_ok_frame [OF execute.prems(4)]) (auto simp: dispatch_executeD)
next
  case (execute_throws s j P e v)
  then show ?case
    by (intro sent_ok_frame [OF execute_throws.prems(4)]) (auto simp: dispatch_executeD)
qed (erule sent_ok_frame; auto simp: OnNewConnection_def OnSendFinished_def release_def
      Register_def Let_def split: if_splits)+

lemma config_inv_init: "config_init s \<Longrightarrow> config_inv c s"
  by (simp add: config_init_def config_inv_def claims_ok_def records_ok_def repeated_ok_def
      answered_ok_def sent_ok_def claims_def records_def windows_ok_new)
     (simp add: status_def windows_new_def window_of_def)

lemma config_inv_sstep: "config_inv c s \<Longrightarrow> sstep c s t \<Longrightarrow> config_inv c t"
  unfolding config_inv_def
  by (intro conjI; elim conjE)
     (blast intro: server_ok_sstep claims_ok_sstep records_ok_sstep repeated_ok_sstep
        answered_ok_sstep sent_ok_sstep)+

interpretation srv_sys: invariant_system config_init "sstep c" "config_inv c" for c
  by unfold_locales (auto intro: config_inv_init config_inv_sstep)

section \<open>A whole Dispatch is a run of the sections\<close>

lemma reach_rtranclp:
  assumes "step\<^sup>*\<^sup>* s t" and "reach init step s"
  shows "reach init step t"
  using assms by (induction rule: rtranclp_induct) (auto intro: reach_step)

abbreviation idle :: "'s config \<Rightarrow> bool" where
  "idle s \<equiv> failed s = None \<and> pool s = {#} \<and> 0 < num_worker (srv s)"

text \<open>Where a thread that has run alone stops: no thread is left, and an exception has failed
  the process.\<close>

definition finished :: "effect list res \<Rightarrow> 's server \<Rightarrow> 's config \<Rightarrow> bool" where
  "finished r v t \<longleftrightarrow> srv t = v \<and> pool t = {#} \<and>
     failed t = (case r of Inl e \<Rightarrow> Some e | Inr es \<Rightarrow> None)"

text \<open>The events of an answer that is sent for a request.\<close>

definition answer_events :: "'s job \<Rightarrow> string \<Rightarrow> event list" where
  "answer_events j b =
     (if job_clt j > 0 then [Recorded (job_clt j) (job_xid j) b] else []) @
     [Sent (job_clt j) (job_xid j) b]"

lemma run_answered:
  assumes "failed s = None" and "pool s = {#Answered j rep#}" and "dispatch_send c j rep = r"
  shows "\<exists>t. sstep c s t \<and> finished r (srv s) t \<and>
           (\<forall>b. r = ret [Send (job_sock j) b Checked] \<longrightarrow>
              events t = events s @ [Sent (job_clt j) (job_xid j) b])"
proof (cases r)
  case (Inl e)
  then show ?thesis
    using assms sstep.send_throws [of s j rep "{#}" c e] by (auto simp: finished_def)
next
  case (Inr es)
  then obtain b where "es = [Send (job_sock j) b Checked]"
    using assms(3) by (auto simp: dispatch_send_def bind_res_Inr_iff)
  then show ?thesis
    using Inr assms sstep.send [of s j rep "{#}" c b Checked] by (auto simp: finished_def)
qed

lemma run_executed:
  assumes "failed s = None" and "pool s = {#executed j rep#}"
    and "(r, v) = (if job_clt j > 0 then
             (case dispatch_record c j rep (srv s) of
                Inl e \<Rightarrow> (throw e, srv s)
              | Inr v2 \<Rightarrow> (dispatch_send c j rep, v2))
           else (dispatch_send c j rep, srv s))"
  shows "\<exists>t. (sstep c)\<^sup>*\<^sup>* s t \<and> finished r v t \<and>
           (\<forall>b. r = ret [Send (job_sock j) b Checked] \<longrightarrow> events t = events s @ answer_events j b)"
proof (cases "job_clt j > 0")
  case False
  have "pool s = {#Answered j rep#}" using assms(2) False by (simp add: executed_def)
  from run_answered [OF assms(1) this refl, of c] show ?thesis
    using False assms(3) by (auto simp: answer_events_def intro!: r_into_rtranclp)
next
  case True
  have p: "pool s = add_mset (Executed j rep) {#}" using assms(2) True by (simp add: executed_def)
  show ?thesis
  proof (cases "dispatch_record c j rep (srv s)")
    case (Inl e)
    with True assms sstep.record_throws [OF assms(1) p Inl] show ?thesis
      by (auto simp: finished_def intro!: r_into_rtranclp)
  next
    case (Inr v2)
    then obtain b where b: "Marshall_Buf c rep = ret b" by (rule dispatch_recordD)
    let ?s1 = "s\<lparr>srv := v2, pool := {#Answered j rep#},
        events := events s @ [Recorded (job_clt j) (job_xid j) b]\<rparr>"
    have r: "dispatch_send c j rep = r" and v: "v = v2" using True assms(3) Inr by simp_all
    have "failed ?s1 = None" and "pool ?s1 = {#Answered j rep#}" using assms(1) by simp_all
    from run_answered [OF this r] obtain t where t: "sstep c ?s1 t" "finished r v2 t"
      "\<forall>b'. r = ret [Send (job_sock j) b' Checked] \<longrightarrow>
         events t = events s @ [Recorded (job_clt j) (job_xid j) b] @ [Sent (job_clt j) (job_xid j) b']"
      by auto
    have "(sstep c)\<^sup>*\<^sup>* s t"
      using sstep.record_reply [OF assms(1) p Inr b] t(1)
      by (rule converse_rtranclp_into_rtranclp [OF _ r_into_rtranclp])
    moreover have "b' = b" if "r = ret [Send (job_sock j) b' Checked]" for b'
      using that True assms(3) Inr b by (auto simp: dispatch_send_def)
    ultimately show ?thesis using True t(2,3) v by (auto simp: answer_events_def)
  qed
qed

lemma run_admitted:
  assumes "failed s = None" and "pool s = {#Admitted j#}" and "dispatch_new c j (srv s) = (r, v)"
  shows "\<exists>t. (sstep c)\<^sup>*\<^sup>* s t \<and> finished r v t \<and>
           (\<forall>b. r = ret [Send (job_sock j) b Checked] \<longrightarrow>
              events t = events s @ Exec (job_clt j) (job_xid j) # answer_events j b)"
proof -
  obtain r1 v1 where ex: "dispatch_execute j (srv s) = (r1, v1)" by fastforce
  have p: "pool s = add_mset (Admitted j) {#}" using assms(2) by simp
  show ?thesis
  proof (cases r1)
    case (Inl e)
    let ?t = "s\<lparr>srv := v1, pool := {#}, failed := Some e,
        events := events s @ [Exec (job_clt j) (job_xid j)]\<rparr>"
    from Inl assms(3) ex have rv: "r = throw e" "v = v1" by (simp_all add: dispatch_new_def)
    then have "finished r v ?t" by (simp add: finished_def)
    moreover have "(sstep c)\<^sup>*\<^sup>* s ?t"
      using sstep.execute_throws [OF assms(1) p ex [unfolded Inl]] by (rule r_into_rtranclp)
    ultimately show ?thesis using rv(1) by blast
  next
    case (Inr rep)
    note st = sstep.execute [OF assms(1) p ex [unfolded Inr]]
    let ?s1 = "s\<lparr>srv := v1, pool := {#executed j rep#},
                 events := events s @ [Exec (job_clt j) (job_xid j)]\<rparr>"
    have "(r, v) = (if job_clt j > 0 then
             (case dispatch_record c j rep (srv ?s1) of
                Inl e \<Rightarrow> (throw e, srv ?s1)
              | Inr v2 \<Rightarrow> (dispatch_send c j rep, v2))
           else (dispatch_send c j rep, srv ?s1))"
      using assms(3) ex Inr by (simp add: dispatch_new_def split: if_splits sum.splits)
    from run_executed [OF _ _ this] assms(1) obtain t where
      "(sstep c)\<^sup>*\<^sup>* ?s1 t" "finished r v t"
      "\<forall>b. r = ret [Send (job_sock j) b Checked] \<longrightarrow> events t = events ?s1 @ answer_events j b"
      by auto
    with st show ?thesis by (auto intro: converse_rtranclp_into_rtranclp)
  qed
qed

lemma run_switch:
  assumes "failed s = None" and "pool s = switch st j" and "dispatch_state c j st (srv s) = (r, v)"
  shows "\<exists>t. (sstep c)\<^sup>*\<^sup>* s t \<and> finished r v t \<and>
           (st = NEW \<longrightarrow> (\<forall>b. r = ret [Send (job_sock j) b Checked] \<longrightarrow>
              events t = events s @ Exec (job_clt j) (job_xid j) # answer_events j b))"
proof (cases st)
  case NEW
  then show ?thesis using assms run_admitted [of s j c r v] by (simp add: dispatch_state_def)
next
  case INPROGRESS
  then have "finished r v s" using assms by (auto simp: finished_def dispatch_state_def)
  with INPROGRESS show ?thesis by (intro exI [of _ s]) simp
next
  case DONE
  then have p: "pool s = add_mset (Repeated j) {#}" and r: "dispatch_resend j (srv s) = r" "srv s = v"
    using assms by (auto simp: dispatch_state_def)
  show ?thesis
  proof (cases r)
    case (Inl e)
    with sstep.resend_throws [OF assms(1) p, of e c] r DONE show ?thesis
      by (intro exI [of _ "s\<lparr>pool := {#}, failed := Some e\<rparr>"]) (auto simp: finished_def)
  next
    case (Inr es)
    then obtain b where "es = [Send (job_sock j) b Unchecked]"
      using r by (auto simp: dispatch_resend_def bind_res_Inr_iff)
    with Inr sstep.resend [OF assms(1) p, of b Unchecked c] r DONE assms(1) show ?thesis
      by (intro exI [of _ "s\<lparr>pool := {#}, events := events s @ [SentAgain (job_clt j) (job_xid j) b]\<rparr>"])
         (auto simp: finished_def)
  qed
next
  case FORGOTTEN
  then have p: "pool s = add_mset (Old j) {#}" and r: "dispatch_forgotten c j = r" "srv s = v"
    using assms by (simp_all add: dispatch_state_def)
  show ?thesis
  proof (cases r)
    case (Inl e)
    with sstep.forgotten_throws [OF assms(1) p, of c e] r FORGOTTEN show ?thesis
      by (intro exI [of _ "s\<lparr>pool := {#}, failed := Some e\<rparr>"]) (auto simp: finished_def)
  next
    case (Inr es)
    with sstep.forgotten [OF assms(1) p, of c es] r FORGOTTEN assms(1) show ?thesis
      by (intro exI [of _ "s\<lparr>pool := {#}\<rparr>"]) (auto simp: finished_def)
  qed
qed

lemma run_found:
  assumes "idle s" and "dispatch_lookup c socket buf (srv s) = ret (Found j)"
    and "Dispatch c socket buf (srv s) = (r, v)"
  shows "\<exists>t. (sstep c)\<^sup>*\<^sup>* s t \<and> finished r v t \<and>
           (\<forall>b. r = ret [Send (job_sock j) b Checked] \<longrightarrow>
              events t = events s @ Exec (job_clt j) (job_xid j) # answer_events j b)"
proof -
  have fa: "failed s = None" and sz: "size (pool s) < num_worker (srv s)" and em: "pool s = {#}"
    using assms(1) by simp_all
  note st1 = sstep.arrive [OF fa sz assms(2)]
  let ?s1 = "s\<lparr>pool := {#enter j#}\<rparr>"
  show ?thesis
  proof (cases "job_clt j > 0")
    case False
    have "dispatch_new c j (srv ?s1) = (r, v)" "pool ?s1 = {#Admitted j#}" "failed ?s1 = None"
      using assms(2,3) False fa by (simp_all add: Dispatch_def dispatch_state_def enter_def)
    from run_admitted [OF this(3,2,1)] st1 em show ?thesis
      by (auto intro: converse_rtranclp_into_rtranclp)
  next
    case True
    obtain st v2 where ck: "dispatch_check j (dispatch_known j (srv s)) = (st, v2)" by fastforce
    let ?s2 = "s\<lparr>srv := dispatch_known j (srv s), pool := {#Known j#}\<rparr>"
    let ?s3 = "s\<lparr>srv := v2, pool := switch st j\<rparr>"
    have "sstep c s ?s1" using st1 em by simp
    moreover have "sstep c ?s1 ?s2"
      using sstep.known [of ?s1 j "{#}" c] fa True by (simp add: enter_def)
    moreover have "sstep c ?s2 ?s3"
      using sstep.check [of ?s2 j "{#}" st v2 c] fa ck by simp
    ultimately have to3: "(sstep c)\<^sup>*\<^sup>* s ?s3" by auto
    have ds: "dispatch_state c j st (srv ?s3) = (r, v)"
      using assms(3) Dispatch_Found [OF assms(2) True ck] by simp
    have "failed ?s3 = None" and "pool ?s3 = switch st j" using fa by simp_all
    from run_switch [OF this ds] obtain t where t: "(sstep c)\<^sup>*\<^sup>* ?s3 t" "finished r v t"
      "st = NEW \<Longrightarrow> \<forall>b. r = ret [Send (job_sock j) b Checked] \<longrightarrow>
         events t = events s @ Exec (job_clt j) (job_xid j) # answer_events j b" by auto
    have "st = NEW" if "r = ret [Send (job_sock j) b Checked]" for b
      using ds that
      by (cases st) (auto simp: dispatch_state_def dispatch_resend_def dispatch_forgotten_def
        header_reply_def ReadIncomingPacket_def bind_res_Inr_iff)
    with t rtranclp_trans [OF to3 t(1)] show ?thesis by blast
  qed
qed

lemma Dispatch_is_run:
  assumes "idle s" and "Dispatch c socket buf (srv s) = (r, v)"
  shows "\<exists>t. (sstep c)\<^sup>*\<^sup>* s t \<and> finished r v t"
proof (cases "dispatch_lookup c socket buf (srv s)")
  case (Inl e)
  then have "r = throw e" "v = srv s" using assms(2) by (simp_all add: Dispatch_def)
  with assms(1) sstep.lookup_throws [of s c socket buf e] Inl show ?thesis
    by (intro exI [of _ "s\<lparr>failed := Some e\<rparr>"]) (auto simp: finished_def)
next
  case (Inr st)
  show ?thesis
  proof (cases st)
    case (Rejected es)
    then have "finished r v s" using Inr assms by (auto simp: Dispatch_def finished_def)
    then show ?thesis by blast
  next
    case (Found j)
    with run_found [OF assms(1) _ assms(2)] Inr show ?thesis by blast
  qed
qed

section \<open>Consequences of the invariant\<close>

lemmas config_invD = srv_sys.reach_inv [unfolded config_inv_def]

lemma exec_at_most_once:
  assumes "sreach c s" and "k > 0"
  shows "length (filter ((=) (Exec k x)) (events s)) \<le> 1"
proof -
  have "claims s k x \<le> 1"
    using config_invD [OF assms(1)] assms(2) by (simp add: claims_ok_def)
  then show ?thesis by (simp add: claims_def)
qed

lemma sent_is_recorded:
  assumes "sreach c s" and "k > 0"
    and "Sent k x b \<in> set (events s) \<or> SentAgain k x b \<in> set (events s)"
  shows "Recorded k x b \<in> set (events s)"
  using config_invD [OF assms(1)] assms(2,3) by (auto simp: sent_ok_def)

lemma recorded_at_most_once:
  assumes "sreach c s" and "k > 0"
  shows "length (filter (recorded_for k x) (events s)) \<le> length (filter ((=) (Exec k x)) (events s))"
proof -
  have "records s k x \<le> length (filter ((=) (Exec k x)) (events s))"
    using config_invD [OF assms(1)] assms(2) by (simp add: records_ok_def)
  then show ?thesis by (simp add: records_def)
qed

text \<open>Along a run.\<close>

lemma sent_invD:
  "sreach c s \<Longrightarrow> k > 0 \<Longrightarrow> request_status (srv s) k x = Replied b \<Longrightarrow>
     Recorded k x b \<in> set (events s)"
  using config_invD [of c s] by (auto simp: sent_ok_def)

lemma events_sstep: "sstep c s t \<Longrightarrow> set (events s) \<subseteq> set (events t)"
  by (induction rule: sstep.induct) auto

lemma events_run: "(sstep c)\<^sup>*\<^sup>* s t \<Longrightarrow> set (events s) \<subseteq> set (events t)"
  by (induction rule: rtranclp_induct) (use events_sstep in blast)+

lemma rank_run:
  assumes "sreach c s" and "(sstep c)\<^sup>*\<^sup>* s t"
  shows "rank (request_status (srv s) k x) \<le> rank (request_status (srv t) k x)"
  using assms(2,1)
proof (induction rule: rtranclp_induct)
  case (step t u)
  have "server_ok (srv t)"
    using config_invD [OF reach_rtranclp [OF step.hyps(1) step.prems]] by simp
  from rank_sstep [OF step.hyps(2) this, of k x] step.IH [OF step.prems] show ?case by simp
qed simp

text \<open>Once a reply has been sent there is one call of the handler and one recorded reply.\<close>

lemma answered_once:
  assumes "sreach c s" and "k > 0"
    and "Sent k x b \<in> set (events s) \<or> SentAgain k x b \<in> set (events s)"
  shows "count_list (events s) (Exec k x) = 1 \<and> count_list (events s) (Recorded k x b) = 1"
proof -
  have r: "Recorded k x b \<in> set (events s)" by (rule sent_is_recorded [OF assms])
  let ?f = "filter (recorded_for k x) (events s)"
  have "filter ((=) (Recorded k x b)) ?f = filter ((=) (Recorded k x b)) (events s)"
    by (auto intro: filter_cong)
  then have "length (filter ((=) (Recorded k x b)) (events s)) \<le> length ?f"
    by (metis length_filter_le)
  moreover have "0 < length (filter ((=) (Recorded k x b)) (events s))"
    using r by (simp add: filter_empty_conv)
  ultimately show ?thesis
    using recorded_at_most_once [OF assms(1,2), of x] exec_at_most_once [OF assms(1,2), of x]
    unfolding count_list_eq_length_filter by linarith
qed

lemma recorded_unique:
  assumes "sreach c s" and "k > 0"
    and "Recorded k x b \<in> set (events s)" and "Recorded k x b' \<in> set (events s)"
  shows "b = b'"
proof (rule ccontr)
  assume "b \<noteq> b'"
  let ?f = "filter (recorded_for k x) (events s)"
  have "{Recorded k x b, Recorded k x b'} \<subseteq> set ?f" using assms(3,4) by simp
  then have "card {Recorded k x b, Recorded k x b'} \<le> card (set ?f)" by (intro card_mono) simp_all
  also have "\<dots> \<le> length ?f" by (rule card_length)
  also have "\<dots> \<le> 1"
    using recorded_at_most_once [OF assms(1,2)] exec_at_most_once [OF assms(1,2)]
    by (rule order_trans)
  finally show False using \<open>b \<noteq> b'\<close> by simp
qed

text \<open>
  A remembered reply can be freed between the check that finds it and the send that reads it:
  a second connection of the same client acknowledges the transaction in between.
\<close>

text \<open>A packet that acknowledges a remembered reply erases it.\<close>

lemma check_erases:
  assumes "dispatch_check j' v = (st, w)" and "server_ok v" and "job_clt j' = job_clt j"
    and "job_xid j \<le> req_xid_rep (job_hdr j')" and "job_xid j' \<noteq> job_xid j"
  shows "dispatch_resend j w = throw Undefined_behaviour"
proof -
  have "request_status w (job_clt j) (job_xid j) = Forgotten"
    using rw.st_check [OF assms(2) dispatch_checkD(1) [OF assms(1)], of "job_clt j" "job_xid j"]
      assms(3-5) by auto
  then have "job_xid j \<le> acked (wins w) (job_clt j) \<or>
      entry_status (find_xid (job_xid j) (window_of (wins w) (job_clt j))) = Forgotten"
    by (auto simp: status_def split: if_splits)
  then have "job_xid j \<le> acked (wins w) (job_clt j)"
    by (cases "find_xid (job_xid j) (window_of (wins w) (job_clt j))") (auto split: if_splits)
  then show ?thesis
    using find_xid_acked [OF server_ok_check [OF assms(1,2)]]
    by (simp add: dispatch_resend_def read_rep_buf_def)
qed

lemma resend_after_trim:
  fixes s :: "'s config"
  assumes "sreach c s" and "idle s" and "1 < num_worker (srv s)"
    and "dispatch_lookup c socket buf (srv s) = ret (Found j)" and "job_clt j > 0"
    and "\<not> job_xid j \<le> req_xid_rep (job_hdr j)"
    and "request_status (srv s) (job_clt j) (job_xid j) = Replied b"
    and "dispatch_lookup c socket' buf' (srv s) = ret (Found j')" and "job_clt j' = job_clt j"
    and "job_xid j \<le> req_xid_rep (job_hdr j')" and "job_xid j' \<noteq> job_xid j"
  shows "\<exists>t :: 's config. sreach c t \<and> failed t = Some Undefined_behaviour"
proof -
  have fa: "failed s = None" and em: "pool s = {#}" using assms(2) by simp_all
  have ok: "server_ok (srv s)" using config_invD [OF assms(1)] by simp
  let ?s2 = "s\<lparr>pool := {#Looked j, Looked j'#}\<rparr>"
  have "sstep c s (s\<lparr>pool := {#Looked j'#}\<rparr>)"
    using sstep.arrive [OF fa _ assms(8)] assms(3,5,9) em by (simp add: enter_def)
  moreover have "sstep c (s\<lparr>pool := {#Looked j'#}\<rparr>) ?s2"
    using sstep.arrive [of "s\<lparr>pool := {#Looked j'#}\<rparr>" c socket buf j] assms(3,4,5) fa
    by (simp add: enter_def)
  moreover
  let ?v3 = "dispatch_known j (srv s)"
  let ?s3 = "s\<lparr>srv := ?v3, pool := {#Known j, Looked j'#}\<rparr>"
  have "sstep c ?s2 ?s3" using sstep.known [of ?s2 j "{#Looked j'#}" c] fa by simp
  moreover obtain st v4 where ck: "dispatch_check j ?v3 = (st, v4)" by fastforce
  have ok3: "server_ok ?v3" using ok by (rule server_ok_known)
  note ck1 = dispatch_checkD(1) [OF ck]
  have "st = DONE"
    using rw.answer_check [OF ok3 ck1] assms(6,7) by (simp add: frame_simps rw.st_known)
  let ?s4 = "s\<lparr>srv := v4, pool := {#Repeated j, Looked j'#}\<rparr>"
  have "sstep c ?s3 ?s4"
    using sstep.check [of ?s3 j "{#Looked j'#}" st v4 c] fa ck \<open>st = DONE\<close>
    by (simp add: add_mset_commute)
  moreover
  let ?v5 = "dispatch_known j' v4"
  let ?s5 = "s\<lparr>srv := ?v5, pool := {#Known j', Repeated j#}\<rparr>"
  have "sstep c ?s4 ?s5"
    using sstep.known [of ?s4 j' "{#Repeated j#}" c] fa by (simp add: add_mset_commute)
  moreover obtain st' v6 where ck': "dispatch_check j' ?v5 = (st', v6)" by fastforce
  have ok5: "server_ok ?v5" using server_ok_check [OF ck ok3] by (rule server_ok_known)
  let ?s6 = "s\<lparr>srv := v6, pool := switch st' j' + {#Repeated j#}\<rparr>"
  have "sstep c ?s5 ?s6"
    using sstep.check [of ?s5 j' "{#Repeated j#}" st' v6 c] fa ck' by simp
  moreover
  have "dispatch_resend j v6 = throw Undefined_behaviour"
    by (rule check_erases [OF ck' ok5 assms(9,10,11)])
  then have "sstep c ?s6 (s\<lparr>srv := v6, pool := switch st' j', failed := Some Undefined_behaviour\<rparr>)"
    using sstep.resend_throws [of ?s6 j "switch st' j'" _ c] fa by simp
  ultimately have "(sstep c)\<^sup>*\<^sup>* s (s\<lparr>srv := v6, pool := switch st' j',
      failed := Some Undefined_behaviour\<rparr>)"
    by auto
  from reach_rtranclp [OF this assms(1)] show ?thesis
    by auto
qed

text \<open>A repeated request is answered again, without a call of the handler.\<close>

lemma run_repeated:
  assumes "server_ok (srv s)" and "idle s"
    and "dispatch_lookup c socket buf (srv s) = ret (Found j)" and "job_clt j > 0"
    and "\<not> job_xid j \<le> req_xid_rep (job_hdr j)"
    and "request_status (srv s) (job_clt j) (job_xid j) = Replied b"
  shows "\<exists>t. (sstep c)\<^sup>*\<^sup>* s t \<and> events t = events s @ [SentAgain (job_clt j) (job_xid j) b]"
proof -
  have fa: "failed s = None" and em: "pool s = {#}" using assms(2) by simp_all
  let ?v = "dispatch_known j (srv s)"
  obtain st v2 where ck: "dispatch_check j ?v = (st, v2)" by fastforce
  have ok: "server_ok ?v" using assms(1) by (rule server_ok_known)
  note ck1 = dispatch_checkD(1) [OF ck]
  have st: "st = DONE"
    using rw.answer_check [OF ok ck1] assms(5,6) by (simp add: frame_simps rw.st_known)
  have "request_status v2 (job_clt j) (job_xid j) = Replied b"
    using rw.st_check [OF ok ck1, of "job_clt j" "job_xid j"] assms(5,6) st
    by (simp add: frame_simps rw.st_known)
  then have rd: "dispatch_resend j v2 = ret [Send (job_sock j) b Unchecked]"
    by (simp add: dispatch_resend_def read_rep_buf_status)
  let ?s1 = "s\<lparr>pool := {#Looked j#}\<rparr>"
  let ?s2 = "s\<lparr>srv := ?v, pool := {#Known j#}\<rparr>"
  let ?s3 = "s\<lparr>srv := v2, pool := {#Repeated j#}\<rparr>"
  have "sstep c s ?s1" using sstep.arrive [OF fa _ assms(3)] assms(2,4) by (simp add: enter_def)
  moreover have "sstep c ?s1 ?s2" using sstep.known [of ?s1 j "{#}" c] fa by simp
  moreover have "sstep c ?s2 ?s3" using sstep.check [of ?s2 j "{#}" st v2 c] fa ck st by simp
  moreover have "sstep c ?s3 (s\<lparr>srv := v2, pool := {#},
      events := events s @ [SentAgain (job_clt j) (job_xid j) b]\<rparr>)" (is "sstep c _ ?s4")
    using sstep.resend [of ?s3 j "{#}" b Unchecked c] fa rd by simp
  ultimately have "(sstep c)\<^sup>*\<^sup>* s ?s4" by auto
  then show ?thesis by (intro exI [of _ ?s4]) simp
qed

section \<open>An example run\<close>

text \<open>
  A server with one procedure that answers \<open>OK\<close>, and two packets of client \<open>5\<close>: transaction
  \<open>2\<close>, and transaction \<open>3\<close> which acknowledges \<open>2\<close>.
\<close>

definition demo_header :: "xid_t \<Rightarrow> xid_t \<Rightarrow> RequestHeader" where
  "demo_header x r =
     \<lparr>req_xid = x, req_proc = 7, req_clt_nonce = 5, req_srv_nonce = 0, req_xid_rep = r\<rparr>"

definition demo_request :: "xid_t \<Rightarrow> xid_t \<Rightarrow> unmarshall" where
  "demo_request x r =
     \<lparr>un_json = JObj [(''req'', to_json_RequestHeader (demo_header x r))], un_id = 0\<rparr>"

definition srv_codec :: codec where
  "srv_codec =
     \<lparr>dump = (\<lambda>j. ret ''reply''),
      parse = (\<lambda>s. ret (un_json (if s = ''a'' then demo_request 2 0 else demo_request 3 2)))\<rparr>"

definition demo_handler :: "unit handler" where
  "demo_handler req rep s = (ret (OK, rep), s)"

definition demo_server :: "unit server" where
  "demo_server =
     \<lparr>srv_nonce = 9, procs = [7 \<mapsto> demo_handler], wins = windows_new, client_sockets = [],
      alive = [], stoped = False, num_worker = 2, app = ()\<rparr>"

definition demo_config :: "unit config" where
  "demo_config = \<lparr>srv = demo_server, pool = {#}, failed = None, events = []\<rparr>"

definition demo_job :: "xid_t \<Rightarrow> xid_t \<Rightarrow> unit job" where
  "demo_job x r =
     \<lparr>job_sock = 1, job_req = demo_request x r, job_hdr = demo_header x r,
      job_handler = demo_handler\<rparr>"

lemma demo_job_simps [simp]:
  "req_xid (demo_header x r) = x" "req_clt_nonce (demo_header x r) = 5"
  "req_xid_rep (demo_header x r) = r" "job_hdr (demo_job x r) = demo_header x r"
  "job_sock (demo_job x r) = 1"
  by (simp_all add: demo_job_def demo_header_def)

lemma demo_lookup:
  assumes "procs v = procs demo_server"
  shows "dispatch_lookup srv_codec (Some 1) ''a'' v = ret (Found (demo_job 2 0))"
    and "dispatch_lookup srv_codec (Some 1) ''b'' v = ret (Found (demo_job 3 2))"
  unfolding demo_job_def
  by (rule dispatch_lookup_FoundI;
      simp add: assms demo_server_def srv_codec_def demo_request_def Unmarshall_of_def
        Unmarshall_new_def Unmarshall_TakeBuf_def Unmarshall_get_req_def json_at_def demo_header_def)+

lemma demo_reach: "sreach srv_codec demo_config" "idle demo_config"
  by (rule reach_init) (simp_all add: config_init_def demo_config_def demo_server_def)

lemma demo_run:
  obtains t :: "unit config" where "sreach srv_codec t" and "(sstep srv_codec)\<^sup>*\<^sup>* demo_config t"
    and "idle t" and "events t = [Exec 5 2, Recorded 5 2 ''reply'', Sent 5 2 ''reply'']"
    and "request_status (srv t) 5 2 = Replied ''reply''"
    and "procs (srv t) = procs demo_server" and "num_worker (srv t) = 2"
proof -
  let ?j = "demo_job 2 0"
  have lk: "dispatch_lookup srv_codec (Some 1) ''a'' (srv demo_config) = ret (Found ?j)"
    by (rule demo_lookup) (simp add: demo_config_def)
  have un: "request_status (srv demo_config) 5 2 = Unseen"
    by (simp add: demo_config_def demo_server_def status_def windows_new_def acked_def window_of_def)
  have ok: "server_ok (srv demo_config)"
    by (simp add: demo_config_def demo_server_def windows_ok_new)
  obtain m where m: "Marshall_put_rep \<lparr>rep_xid = job_xid ?j, rep_err = OK\<rparr> Marshall_new = ret m"
    using Marshall_put_rep_wf [OF wf_marshall_new] by metis
  have h: "job_handler ?j (job_req ?j) Marshall_new (app (srv demo_config)) =
      (Inr (OK, Marshall_new), ())"
    by (simp add: demo_job_def demo_handler_def)
  have b: "Marshall_Buf srv_codec m = ret ''reply''"
    by (simp add: Marshall_Buf_def srv_codec_def)
  have c: "job_clt ?j > 0" "\<not> job_xid ?j \<le> req_xid_rep (job_hdr ?j)" by simp_all
  obtain v' where v': "Dispatch srv_codec (Some 1) ''a'' (srv demo_config) =
      (ret [Send (job_sock ?j) ''reply'' Checked], v')"
    "request_status v' (job_clt ?j) (job_xid ?j) = Replied ''reply''"
    "procs v' = procs (srv demo_config)" "num_worker v' = num_worker (srv demo_config)"
    using Dispatch_fresh [OF lk c(1) ok c(2) _ h m b] un by auto
  from run_found [OF demo_reach(2) lk v'(1)] obtain t where t:
    "(sstep srv_codec)\<^sup>*\<^sup>* demo_config t"
    "finished (ret [Send (job_sock ?j) ''reply'' Checked]) v' t"
    "events t = events demo_config @ Exec (job_clt ?j) (job_xid ?j) # answer_events ?j ''reply''"
    by auto
  show thesis
    by (rule that [of t])
       (use t v' reach_rtranclp [OF t(1) demo_reach(1)] in
        \<open>simp_all add: finished_def answer_events_def demo_config_def demo_server_def\<close>)
qed

lemma demo_rerun:
  obtains t :: "unit config" where "sreach srv_codec t"
    and "events t = [Exec 5 2, Recorded 5 2 ''reply'', Sent 5 2 ''reply'', SentAgain 5 2 ''reply'']"
proof -
  obtain t where t: "sreach srv_codec t" "idle t"
    "events t = [Exec 5 2, Recorded 5 2 ''reply'', Sent 5 2 ''reply'']"
    "request_status (srv t) 5 2 = Replied ''reply''" "procs (srv t) = procs demo_server"
    by (rule demo_run)
  from run_repeated [OF _ t(2) demo_lookup(1) [OF t(5)], of "''reply''"] config_invD [OF t(1)] t(4)
  obtain t' where "(sstep srv_codec)\<^sup>*\<^sup>* t t'" "events t' = events t @ [SentAgain 5 2 ''reply'']"
    by auto
  with t show thesis using that reach_rtranclp by force
qed

section \<open>Properties\<close>

text \<open>
  C2: at-most-once. Whatever packets arrive on whatever connections, and however the worker
  threads interleave, the handler is called at most once for a transaction of a client that
  has a nonce, even when the packet is repeated or arrives again after it was acknowledged.
\<close>

theorem at_most_once:
  assumes "sreach c s" and "k > 0"
  shows "count_list (events s) (Exec k x) \<le> 1"
  using exec_at_most_once [OF assms] by (simp add: count_list_eq_length_filter)

theorem at_most_once_witness:
  "\<exists>s :: unit config. sreach srv_codec s \<and> SentAgain 5 2 ''reply'' \<in> set (events s) \<and>
     Exec 5 2 \<in> set (events s) \<and> count_list (events s) (Exec 5 2) \<le> 1"
proof -
  obtain t :: "unit config" where t: "sreach srv_codec t"
    "events t = [Exec 5 2, Recorded 5 2 ''reply'', Sent 5 2 ''reply'', SentAgain 5 2 ''reply'']"
    by (rule demo_rerun)
  show ?thesis using at_most_once [OF t(1), of 5 2] t by (intro exI [of _ t]) simp
qed

text \<open>
  C8: every reply is the same. All replies that the server sends for one transaction of a
  client with a nonce, the first one and the ones for repeated packets, are one and the same text.
\<close>

theorem replies_agree:
  assumes "sreach c s" and "k > 0"
    and "Sent k x b \<in> set (events s) \<or> SentAgain k x b \<in> set (events s)"
    and "Sent k x b' \<in> set (events s) \<or> SentAgain k x b' \<in> set (events s)"
  shows "b = b'"
  using recorded_unique [OF assms(1,2)] sent_is_recorded [OF assms(1,2)] assms(3,4) by blast

theorem replies_agree_witness:
  "\<exists>s :: unit config. sreach srv_codec s \<and> Sent 5 2 ''reply'' \<in> set (events s) \<and>
     SentAgain 5 2 ''reply'' \<in> set (events s) \<and> ''reply'' = ''reply''"
proof -
  obtain t :: "unit config" where t: "sreach srv_codec t"
    "events t = [Exec 5 2, Recorded 5 2 ''reply'', Sent 5 2 ''reply'', SentAgain 5 2 ''reply'']"
    by (rule demo_rerun)
  have "Sent 5 2 ''reply'' \<in> set (events t) \<or> SentAgain 5 2 ''reply'' \<in> set (events t)"
    using t(2) by simp
  from replies_agree [OF t(1) _ this this] t show ?thesis by (intro exI [of _ t]) simp
qed

text \<open>
  C6: exactly once when answered. Once a reply has left for a transaction of a client with a
  nonce, the handler has been called exactly once for it, and the reply is the recorded one.
\<close>

theorem answered_exactly_once:
  assumes "sreach c s" and "k > 0"
    and "Sent k x b \<in> set (events s) \<or> SentAgain k x b \<in> set (events s)"
  shows "count_list (events s) (Exec k x) = 1 \<and> count_list (events s) (Recorded k x b) = 1"
  by (rule answered_once [OF assms])

theorem answered_exactly_once_witness:
  "\<exists>s :: unit config. sreach srv_codec s \<and> SentAgain 5 2 ''reply'' \<in> set (events s) \<and>
     count_list (events s) (Exec 5 2) = 1 \<and> count_list (events s) (Recorded 5 2 ''reply'') = 1"
proof -
  obtain t :: "unit config" where t: "sreach srv_codec t"
    "events t = [Exec 5 2, Recorded 5 2 ''reply'', Sent 5 2 ''reply'', SentAgain 5 2 ''reply'']"
    by (rule demo_rerun)
  show ?thesis using answered_exactly_once [OF t(1), of 5 2 "''reply''"] t by (intro exI [of _ t]) simp
qed

text \<open>
  C17: a request never goes back. Over any run, whatever packets arrive, the server's view of a
  transaction moves only forward from unseen over running and replied to forgotten; a reply that
  is remembered stays the same text as long as it is remembered.
\<close>

theorem status_monotone:
  assumes "sreach c s" and "(sstep c)\<^sup>*\<^sup>* s t" and "k > 0"
  shows "request_status (srv s) k x \<le> request_status (srv t) k x \<and>
    (case (request_status (srv s) k x, request_status (srv t) k x) of
       (Replied b, Replied b') \<Rightarrow> b = b'
     | _ \<Rightarrow> True)"
proof -
  have t: "sreach c t" by (rule reach_rtranclp [OF assms(2,1)])
  have "Recorded k x b \<in> set (events t)" if "request_status (srv s) k x = Replied b" for b
    using sent_invD [OF assms(1,3) that] events_run [OF assms(2)] by blast
  moreover have "Recorded k x b \<in> set (events t)" if "request_status (srv t) k x = Replied b" for b
    by (rule sent_invD [OF t assms(3) that])
  ultimately have "b = b'" if "request_status (srv s) k x = Replied b"
      "request_status (srv t) k x = Replied b'" for b b'
    using recorded_unique [OF t assms(3)] that by blast
  then show ?thesis
    using rank_run [OF assms(1,2)] by (auto simp: less_eq_rstatus_def split: rstatus.split)
qed

theorem status_monotone_witness:
  "\<exists>s :: unit config. (sstep srv_codec)\<^sup>*\<^sup>* demo_config s \<and>
     request_status (srv demo_config) 5 2 = Unseen \<and> request_status (srv s) 5 2 = Replied ''reply'' \<and>
     Unseen \<le> Replied ''reply''"
proof -
  obtain t :: "unit config" where t: "(sstep srv_codec)\<^sup>*\<^sup>* demo_config t"
    "request_status (srv t) 5 2 = Replied ''reply''"
    by (rule demo_run)
  have un: "request_status (srv demo_config) 5 2 = Unseen"
    by (simp add: demo_config_def demo_server_def status_def windows_new_def acked_def window_of_def)
  from status_monotone [OF demo_reach(1) t(1), of 5 2] t un show ?thesis
    by (intro exI [of _ t]) simp
qed

text \<open>
  C21: \<open>Dispatch\<close> refines the sections. A whole \<open>Dispatch\<close>, run by one thread on an idle server,
  is a run of the section steps that ends in the same server state with no thread left; an
  exception it throws is the failure of the process, and otherwise nothing has failed.
\<close>

theorem dispatch_refines_sections:
  assumes "sreach c s" and "idle s" and "Dispatch c socket buf (srv s) = (r, v)"
  shows "\<exists>t. sreach c t \<and> (sstep c)\<^sup>*\<^sup>* s t \<and> srv t = v \<and> pool t = {#} \<and>
           failed t = (case r of Inl e \<Rightarrow> Some e | Inr es \<Rightarrow> None)"
  using Dispatch_is_run [OF assms(2,3)] reach_rtranclp [OF _ assms(1)]
  unfolding finished_def by blast

theorem dispatch_refines_sections_witness:
  "\<exists>r v t. Dispatch srv_codec (Some 1) ''a'' demo_server = (r, v) \<and>
     sreach srv_codec t \<and> (sstep srv_codec)\<^sup>*\<^sup>* demo_config t \<and> srv t = v"
proof -
  obtain r v where d: "Dispatch srv_codec (Some 1) ''a'' (srv demo_config) = (r, v)" by fastforce
  from dispatch_refines_sections [OF demo_reach d] d show ?thesis
    by (auto simp: demo_config_def)
qed

text \<open>
  C37: a remembered reply can dangle. Whenever a reply is remembered on a server with a second
  worker, a repeated packet for it on one connection and a packet acknowledging it on another
  can interleave so that \<open>Dispatch\<close> reads the reply through a pointer into an erased list node:
  \<open>rep_buf\<close> is used after the lock that protects the window is released.
\<close>

theorem remembered_reply_dangles:
  fixes s :: "'s config"
  assumes "sreach c s" and "idle s" and "1 < num_worker (srv s)"
    and "dispatch_lookup c (Some k) buf (srv s) = ret (Found j)" and "job_clt j > 0"
    and "\<not> job_xid j \<le> req_xid_rep (job_hdr j)"
    and "request_status (srv s) (job_clt j) (job_xid j) = Replied b"
    and "dispatch_lookup c (Some k') buf' (srv s) = ret (Found j')" and "job_clt j' = job_clt j"
    and "job_xid j \<le> req_xid_rep (job_hdr j')" and "job_xid j' \<noteq> job_xid j"
  shows "\<exists>t :: 's config. sreach c t \<and> failed t = Some Undefined_behaviour"
  by (rule resend_after_trim [OF assms])

theorem remembered_reply_dangles_witness:
  "\<exists>t :: unit config. sreach srv_codec t \<and> failed t = Some Undefined_behaviour"
proof -
  obtain t :: "unit config" where t: "sreach srv_codec t" "idle t"
    "events t = [Exec 5 2, Recorded 5 2 ''reply'', Sent 5 2 ''reply'']"
    "request_status (srv t) 5 2 = Replied ''reply''"
    "procs (srv t) = procs demo_server" "num_worker (srv t) = 2"
    by (rule demo_run)
  show ?thesis
    by (rule remembered_reply_dangles [OF t(1,2) _ demo_lookup(1) [OF t(5)] _ _ _
          demo_lookup(2) [OF t(5)]]) (use t in simp_all)
qed

end
