(* ===== verification/End_To_End.thy ===== *)
theory End_To_End
  imports Client_Steps Server_Steps
begin

text \<open>
  A client and a server together: the bytes that \<open>Call\<close> sends are dispatched, the bytes that
  \<open>Dispatch\<close> sends are handed to \<open>GotPdu\<close>. The results hold for every codec that keeps the law of
  the wire, and their witnesses run the codec of \<open>Json_Text\<close>.
\<close>

section \<open>One request on the server\<close>

text \<open>
  A packet whose header is \<open>h\<close> and whose argument is \<open>t\<close>, for a registered method that returns:
  the reply carries the transaction, the error code and the result of the method. For a client
  with a nonce it is remembered.
\<close>

lemma server_answers:
  fixes s :: "'s server" and conv_a :: "json \<Rightarrow> 'a res"
  assumes "wire_ok c" and "server_ok s"
    and "Unmarshall_of c b = ret q" and "Unmarshall_get_req q = ret h"
    and get: "Unmarshall_get conv_a q = bind_res (conv_a (canon t)) (\<lambda>x. ret (x, q'))"
    and "req_srv_nonce h = 0 \<or> req_srv_nonce h = srv_nonce s"
    and "procs s (req_proc h) = Some (make_handler conv_a to_json meth)"
    and "conv_a (canon t) = ret a" and "meth a (app s) = (Inr (err, r), s')"
    and "wf_Err err" and "plain (to_json r)"
    and fresh: "req_clt_nonce h > 0 \<Longrightarrow>
      \<not> req_xid h \<le> req_xid_rep h \<and> request_status s (req_clt_nonce h) (req_xid h) = Unseen"
  obtains rb u s1 where "Dispatch c (Some k) b s = (ret [Send k rb Checked], s1)"
    and "app s1 = s'" and "server_ok s1" and "procs s1 = procs s" and "srv_nonce s1 = srv_nonce s"
    and "req_clt_nonce h > 0 \<Longrightarrow> request_status s1 (req_clt_nonce h) (req_xid h) = Replied rb"
    and "got_read c rb = ret (u, \<lparr>rep_xid = req_xid h, rep_err = err\<rparr>)"
    and "\<And>conv_r :: json \<Rightarrow> 'x res. Unmarshall_get conv_r u =
      bind_res (conv_r (canon (to_json r))) (\<lambda>x. ret (x, u\<lparr>un_id := 1\<rparr>))"
proof -
  have w: "wire c" using assms(1) by (simp add: wire_def)
  let ?r = "\<lparr>rep_xid = req_xid h, rep_err = err\<rparr>"
  obtain m m' rb u where m: "Marshall_put (to_json r) Marshall_new = ret m"
    "Marshall_put_rep ?r m = ret m'" "Marshall_Buf c m' = ret rb" "Unmarshall_of c rb = ret u"
    "Unmarshall_get_rep u = ret ?r"
    and g: "\<And>conv_r :: json \<Rightarrow> 'x res. Unmarshall_get conv_r u =
      bind_res (conv_r (canon (to_json r))) (\<lambda>x. ret (x, u\<lparr>un_id := 1\<rparr>))"
    using wire.reply_read [OF w assms(11), of ?r] assms(10) by (metis ReplyHeader.select_convs(2))
  let ?j = "\<lparr>job_sock = k, job_req = q, job_hdr = h,
    job_handler = make_handler conv_a to_json meth\<rparr>"
  have lk: "dispatch_lookup c (Some k) b s = ret (Found ?j)"
    by (rule dispatch_lookup_FoundI [OF assms(3,4,6,7)])
  have gq: "Unmarshall_get conv_a q = ret (a, q')" by (simp add: get assms(8))
  have "make_handler conv_a to_json meth q Marshall_new (app s) = (Inr (err, m), s')"
    using gq assms(9) m(1) by (simp add: make_handler_def)
  then have hd: "job_handler ?j (job_req ?j) Marshall_new (app s) = (Inr (err, m), s')" by simp
  have pr: "Marshall_put_rep \<lparr>rep_xid = job_xid ?j, rep_err = err\<rparr> m = ret m'" using m(2) by simp
  have rd: "got_read c rb = ret (u, ?r)" by (rule got_read_eq [OF m(4,5)])
  show thesis
  proof (cases "req_clt_nonce h > 0")
    case True
    with fresh have f: "job_clt ?j > 0" "\<not> job_xid ?j \<le> req_xid_rep (job_hdr ?j)"
      "request_status s (job_clt ?j) (job_xid ?j) = Unseen" by simp_all
    show thesis
      by (rule Dispatch_fresh [OF lk f(1) assms(2) f(2,3) hd pr m(3)])
         (rule that [OF _ _ _ _ _ _ rd g]; simp)
  next
    case False
    then have "job_clt ?j = 0" by (simp add: word_gt_0)
    from Dispatch_no_nonce [OF lk this hd pr m(3)] False assms(2) show thesis
      by (intro that [of rb "s\<lparr>app := s'\<rparr>", OF _ _ _ _ _ _ rd g]) simp_all
  qed
qed

section \<open>One exchange\<close>

text \<open>
  A call, its request on the server, its reply on the client. The hypotheses say that the call is
  admitted, that the server has the method and that the method returns, and, for a client with a
  nonce, that the transaction is new to the server.
\<close>

lemma remote_exchange:
  fixes v :: "'r client" and s :: "'s server" and conv_a :: "json \<Rightarrow> 'a res"
    and conv_r :: "json \<Rightarrow> 'b res"
  assumes "wire_ok c" and "client_ok v" and "server_ok s" and "admits proc v" and "plain t"
    and "cl_srv_nonce v = 0 \<or> cl_srv_nonce v = srv_nonce s"
    and "procs s proc = Some (make_handler conv_a to_json meth)"
    and "conv_a (canon t) = ret a" and "meth a (app s) = (Inr (err, r), s')"
    and "wf_Err err" and "plain (to_json r)" and "conv_r (canon (to_json r)) = ret r'"
    and "cl_nonce v > 0 \<Longrightarrow> \<not> next_xid v \<le> received_xid (rep_window v) \<and>
      request_status s (cl_nonce v) (next_xid v) = Unseen"
  obtains b u rb w v1 s1 where
    "Call_args c proc t conv_r pack cb to v =
       (ret (OK, [SendTo b (next_xid v), ArmTimer (fresh v) (ms to)]), v1)"
    and "Unmarshall_of c b = ret u" and "Unmarshall_get_req u = ret (next_header proc v)"
    and "callers v1 = (callers v)(next_xid v \<mapsto> fresh v)"
    and "heap v1 (fresh v) = Some \<lparr>c_done = False, c_xid = next_xid v, c_err = OK, c_cb = cb,
           c_re = ReplyExtractor conv_r pack, c_timer = ms to, c_buf = b\<rparr>"
    and "cl_nonce v1 = cl_nonce v" and "cl_srv_nonce v1 = cl_srv_nonce v"
    and "Dispatch c (Some k) b s = (ret [Send k rb Checked], s1)" and "app s1 = s'"
    and "server_ok s1" and "procs s1 = procs s" and "srv_nonce s1 = srv_nonce s"
    and "cl_nonce v > 0 \<Longrightarrow> request_status s1 (cl_nonce v) (next_xid v) = Replied rb"
    and "got_read c rb = ret (w, \<lparr>rep_xid = next_xid v, rep_err = err\<rparr>)"
    and "ReplyExtractor conv_r pack w = ret (pack r')"
proof -
  obtain b u v1 where call: "Call_args c proc t conv_r pack cb to v =
      (ret (OK, [SendTo b (next_xid v), ArmTimer (fresh v) (ms to)]), v1)"
    and q: "Unmarshall_of c b = ret u" "Unmarshall_get_req u = ret (next_header proc v)"
    and gq: "\<And>conv' :: json \<Rightarrow> 'a res. Unmarshall_get conv' u =
      bind_res (conv' (canon t)) (\<lambda>x. ret (x, u\<lparr>un_id := 1\<rparr>))"
    and v1: "callers v1 = (callers v)(next_xid v \<mapsto> fresh v)"
      "heap v1 (fresh v) = Some \<lparr>c_done = False, c_xid = next_xid v, c_err = OK, c_cb = cb,
         c_re = ReplyExtractor conv_r pack, c_timer = ms to, c_buf = b\<rparr>"
      "cl_nonce v1 = cl_nonce v" "cl_srv_nonce v1 = cl_srv_nonce v"
    by (rule Call_args_sends [OF assms(1,2,4,5), where conv = conv_r and pack = pack and cb = cb
          and to = to]) (rule that; assumption)
  obtain rb w s1 where d: "Dispatch c (Some k) b s = (ret [Send k rb Checked], s1)" "app s1 = s'"
      "server_ok s1" "procs s1 = procs s" "srv_nonce s1 = srv_nonce s"
      "cl_nonce v > 0 \<Longrightarrow> request_status s1 (cl_nonce v) (next_xid v) = Replied rb"
    and rd: "got_read c rb = ret (w, \<lparr>rep_xid = next_xid v, rep_err = err\<rparr>)"
    and gr: "\<And>conv' :: json \<Rightarrow> 'b res. Unmarshall_get conv' w =
      bind_res (conv' (canon (to_json r))) (\<lambda>x. ret (x, w\<lparr>un_id := 1\<rparr>))"
  proof (rule server_answers [where conv_a = conv_a and t = t and meth = meth and to_json = to_json
        and k = k, OF assms(1,3) q gq _ _ assms(8,9,10,11)])
    show "req_srv_nonce (next_header proc v) = 0 \<or> req_srv_nonce (next_header proc v) = srv_nonce s"
      "procs s (req_proc (next_header proc v)) = Some (make_handler conv_a to_json meth)"
      using assms(6,7) by (simp_all add: next_header_def)
    show "\<not> req_xid (next_header proc v) \<le> req_xid_rep (next_header proc v) \<and>
        request_status s (req_clt_nonce (next_header proc v)) (req_xid (next_header proc v)) = Unseen"
      if "req_clt_nonce (next_header proc v) > 0"
      using that assms(13) by (simp add: next_header_def)
  qed (rule that; simp add: next_header_def)
  have "ReplyExtractor conv_r pack w = ret (pack r')"
    by (simp add: ReplyExtractor_def gr assms(12))
  from that [OF call q v1 d rd this] show thesis .
qed

text \<open>The packet of the same request dispatched again, by a server that remembers the reply.\<close>

lemma Dispatch_again:
  assumes "Unmarshall_of c b = ret u" and "Unmarshall_get_req u = ret h"
    and "req_srv_nonce h = 0 \<or> req_srv_nonce h = srv_nonce s" and "procs s (req_proc h) \<noteq> None"
    and "server_ok s" and "req_clt_nonce h > 0" and "\<not> req_xid h \<le> req_xid_rep h"
    and "request_status s (req_clt_nonce h) (req_xid h) = Replied rb"
  obtains s' where "Dispatch c (Some k) b s = (ret [Send k rb Unchecked], s')" and "app s' = app s"
proof -
  obtain f where f: "procs s (req_proc h) = Some f" using assms(4) by auto
  let ?j = "\<lparr>job_sock = k, job_req = u, job_hdr = h, job_handler = f\<rparr>"
  have lk: "dispatch_lookup c (Some k) b s = ret (Found ?j)"
    by (rule dispatch_lookup_FoundI [OF assms(1-3) f])
  show thesis
    by (rule Dispatch_repeated [OF lk _ assms(5)]) (use assms(6-8) that in auto)
qed

section \<open>An example pair\<close>

text \<open>
  A server with a procedure that adds one to its argument and counts its calls, and a client
  bound to it.
\<close>

definition demo_add :: "32 word \<Rightarrow> nat \<Rightarrow> (Err \<times> 32 word) res \<times> nat" where
  "demo_add a s = (ret (OK, a + 1), s + 1)"

definition demo_adder :: "nat server" where
  "demo_adder =
     \<lparr>srv_nonce = 9,
      procs = [BIND \<mapsto> make_handler get_int32 json_of_uint32 (Bind 9),
               7 \<mapsto> make_handler get_uint32 json_of_uint32 demo_add],
      wins = windows_new, client_sockets = [], alive = [], stoped = False, num_worker = 2, app = 0\<rparr>"

lemma demo_adder_new:
  "bind_res (RpcServer_new 9 2 0) (Register 7 (make_handler get_uint32 json_of_uint32 demo_add)) =
     ret demo_adder"
  by (simp add: RpcServer_new_def Register_def BIND_def demo_adder_def Let_def)

definition demo_bound :: "nonce_t \<Rightarrow> unit client" where
  "demo_bound k = (demo_v0 5)\<lparr>bind_done := True, cl_srv_nonce := k\<rparr>"

lemma demo_pair [simp]:
  "client_ok (demo_v0 5)" "client_ok (demo_bound k)" "server_ok demo_adder"
  "srv_nonce demo_adder = 9" "app demo_adder = 0"
  "procs demo_adder BIND = Some (make_handler get_int32 json_of_uint32 (Bind 9))"
  "procs demo_adder 7 = Some (make_handler get_uint32 json_of_uint32 demo_add)"
  "admits 7 (demo_bound k)" "cl_nonce (demo_bound k) = 5" "cl_srv_nonce (demo_bound k) = k"
  "next_xid (demo_bound k) = 2" "rep_window (demo_bound k) = []" "fresh (demo_bound k) = 0"
  "callers (demo_bound k) = Map.empty" "rep_window (demo_v0 5) = []" "cl_srv_nonce (demo_v0 5) = 0"
  "received_xid [] = 0" "status (wins demo_adder) k' 2 = Unseen"
  using windows_ok_new
  by (simp_all add: demo_bound_def demo_v0_def client_ok_def window_ok_def demo_adder_def BIND_def
      admits_def received_xid_def status_def window_of_def windows_new_def acked_def)

lemma demo_wire: "wire_ok demo_codec"
  using jw.wire_axioms by (simp add: wire_def)

section \<open>Properties\<close>

text \<open>
  C4: a remote call is a call. The request that \<open>Call\<close> sends, dispatched by a server that has the
  procedure, runs the method once on the argument; the reply, handed to the client, runs the
  callback of the call once with the method's result and error code and ends the call.
\<close>

theorem remote_call:
  fixes v :: "'r client" and s :: "'s server" and conv_a :: "json \<Rightarrow> 'a res"
    and conv_r :: "json \<Rightarrow> 'b res"
  assumes "wire_ok c" and "client_ok v" and "server_ok s" and "admits proc v" and "plain t"
    and "cl_srv_nonce v = 0 \<or> cl_srv_nonce v = srv_nonce s"
    and "procs s proc = Some (make_handler conv_a to_json meth)"
    and "conv_a (canon t) = ret a" and "meth a (app s) = (Inr (err, r), s')"
    and "wf_Err err" and "plain (to_json r)" and "conv_r (canon (to_json r)) = ret r'"
    and "cl_nonce v > 0 \<Longrightarrow> \<not> next_xid v \<le> received_xid (rep_window v) \<and>
      request_status s (cl_nonce v) (next_xid v) = Unseen"
  shows "\<exists>b rb v1 s1 v2.
    Call_args c proc t conv_r pack (User n) to v =
      (ret (OK, [SendTo b (next_xid v), ArmTimer (fresh v) (ms to)]), v1) \<and>
    Dispatch c (Some k) b s = (ret [Send k rb Checked], s1) \<and> app s1 = s' \<and>
    GotPdu c rb v1 = (ret [Invoke (User n) (pack r') err], v2) \<and>
    callers v2 = (callers v)(next_xid v := None)"
proof (rule remote_exchange [where conv_a = conv_a and meth = meth and to_json = to_json and
      a = a and r = r and conv_r = conv_r and r' = r' and t = t and pack = pack and
      cb = "User n" and to = to and k = k, OF assms])
  fix b u rb w v1 s1
  assume call: "Call_args c proc t conv_r pack (User n) to v =
      (ret (OK, [SendTo b (next_xid v), ArmTimer (fresh v) (ms to)]), v1)"
    and v1: "callers v1 = (callers v)(next_xid v \<mapsto> fresh v)"
      "heap v1 (fresh v) = Some \<lparr>c_done = False, c_xid = next_xid v, c_err = OK, c_cb = User n,
         c_re = ReplyExtractor conv_r pack, c_timer = ms to, c_buf = b\<rparr>"
    and d: "Dispatch c (Some k) b s = (ret [Send k rb Checked], s1)" "app s1 = s'"
    and rd: "got_read c rb = ret (w, \<lparr>rep_xid = next_xid v, rep_err = err\<rparr>)"
    and ex: "ReplyExtractor conv_r pack w = ret (pack r')"
  obtain v2 where "GotPdu c rb v1 = (ret [Invoke (User n) (pack r') err], v2)"
      "callers v2 = (callers v)(next_xid v := None)"
    by (rule GotPdu_reply [OF rd _ v1(2), of n "pack r'"]) (use v1(1) ex that in auto)
  with call d show ?thesis by blast
qed

theorem remote_call_witness:
  "\<exists>b rb v1 s1 v2.
    Call_args demo_codec 7 (json_of_uint32 41) get_uint32 Any_uint32 (User 1) kToMax (demo_bound 9) =
      (ret (OK, [SendTo b 2, ArmTimer 0 12000]), v1) \<and>
    Dispatch demo_codec (Some 3) b demo_adder = (ret [Send 3 rb Checked], s1) \<and> app s1 = 1 \<and>
    GotPdu demo_codec rb v1 = (ret [Invoke (User 1) (Any_uint32 42) OK], v2) \<and>
    callers v2 = Map.empty"
proof -
  have "demo_add 41 (app demo_adder) = (ret (OK, 42), 1)" by (simp add: demo_add_def)
  from remote_call [where meth = demo_add and a = 41 and r = 42 and conv_a = get_uint32 and
      to_json = json_of_uint32 and conv_r = get_uint32 and r' = 42 and t = "json_of_uint32 41" and
      c = demo_codec and v = "demo_bound 9" and s = demo_adder and proc = 7 and pack = Any_uint32 and
      n = 1 and to = kToMax and k = 3, OF demo_wire _ _ _ _ _ _ _ this]
  show ?thesis by (simp add: kToMax_def)
qed

text \<open>
  C5: a lost reply. When the reply of a call of a client with a nonce is lost, its timer sends
  the very same packet again; the server answers it with the very same reply and without running
  the method, and the reply runs the callback once. A further copy of the reply runs nothing.
\<close>

theorem lost_reply:
  fixes v :: "'r client" and s :: "'s server" and conv_a :: "json \<Rightarrow> 'a res"
    and conv_r :: "json \<Rightarrow> 'b res"
  assumes "wire_ok c" and "client_ok v" and "server_ok s" and "admits proc v" and "plain t"
    and "cl_srv_nonce v = 0 \<or> cl_srv_nonce v = srv_nonce s"
    and "procs s proc = Some (make_handler conv_a to_json meth)"
    and "conv_a (canon t) = ret a" and "meth a (app s) = (Inr (err, r), s')"
    and "wf_Err err" and "plain (to_json r)" and "conv_r (canon (to_json r)) = ret r'"
    and "cl_nonce v > 0" and "\<not> next_xid v \<le> received_xid (rep_window v)"
    and "request_status s (cl_nonce v) (next_xid v) = Unseen"
  shows "\<exists>b rb v1 s1 s2 v2.
    Call_args c proc t conv_r pack (User n) to v =
      (ret (OK, [SendTo b (next_xid v), ArmTimer (fresh v) (ms to)]), v1) \<and>
    Dispatch c (Some k) b s = (ret [Send k rb Checked], s1) \<and> app s1 = s' \<and>
    OnTimerExpired c (Some (fresh v)) OK v1 = (ret [SendTo b (next_xid v)], v1) \<and>
    Dispatch c (Some k') b s1 = (ret [Send k' rb Unchecked], s2) \<and> app s2 = s' \<and>
    GotPdu c rb v1 = (ret [Invoke (User n) (pack r') err], v2) \<and> fst (GotPdu c rb v2) = ret []"
proof (rule remote_exchange [where conv_a = conv_a and meth = meth and to_json = to_json and
      a = a and r = r and conv_r = conv_r and r' = r' and t = t and pack = pack and
      cb = "User n" and to = to and k = k, OF assms(1-12)])
  show "\<not> next_xid v \<le> received_xid (rep_window v) \<and>
      request_status s (cl_nonce v) (next_xid v) = Unseen"
    using assms(14,15) by simp
  fix b u rb w v1 s1
  assume call: "Call_args c proc t conv_r pack (User n) to v =
      (ret (OK, [SendTo b (next_xid v), ArmTimer (fresh v) (ms to)]), v1)"
    and q: "Unmarshall_of c b = ret u" "Unmarshall_get_req u = ret (next_header proc v)"
    and v1: "callers v1 = (callers v)(next_xid v \<mapsto> fresh v)"
      "heap v1 (fresh v) = Some \<lparr>c_done = False, c_xid = next_xid v, c_err = OK, c_cb = User n,
         c_re = ReplyExtractor conv_r pack, c_timer = ms to, c_buf = b\<rparr>"
      "cl_nonce v1 = cl_nonce v"
    and d: "Dispatch c (Some k) b s = (ret [Send k rb Checked], s1)" "app s1 = s'"
    and s1: "server_ok s1" "procs s1 = procs s" "srv_nonce s1 = srv_nonce s"
      "cl_nonce v > 0 \<Longrightarrow> request_status s1 (cl_nonce v) (next_xid v) = Replied rb"
    and rd: "got_read c rb = ret (w, \<lparr>rep_xid = next_xid v, rep_err = err\<rparr>)"
    and ex: "ReplyExtractor conv_r pack w = ret (pack r')"
  have "OnTimerExpired c (Some (fresh v)) OK v1 = (ret [SendTo b (next_xid v)], v1)"
    using OnTimerExpired_resends [OF v1(2)] v1(3) assms(13) by simp
  moreover obtain s2 where "Dispatch c (Some k') b s1 = (ret [Send k' rb Unchecked], s2)"
      "app s2 = s'"
    by (rule Dispatch_again [OF q, of s1 rb k'])
       (use s1 d(2) assms(6,7,13,14) that in \<open>auto simp: next_header_def\<close>)
  moreover obtain v2 where v2: "GotPdu c rb v1 = (ret [Invoke (User n) (pack r') err], v2)"
      "callers v2 = (callers v)(next_xid v := None)"
    by (rule GotPdu_reply [OF rd _ v1(2), of n "pack r'"]) (use v1(1) ex that in auto)
  moreover have "fst (GotPdu c rb v2) = ret []"
    by (subst GotPdu_unknown [OF rd]) (simp_all add: v2(2))
  ultimately show ?thesis using call d by blast
qed

theorem lost_reply_witness:
  "\<exists>b rb v1 s1 s2 v2.
    Call_args demo_codec 7 (json_of_uint32 41) get_uint32 Any_uint32 (User 1) kToMax (demo_bound 9) =
      (ret (OK, [SendTo b 2, ArmTimer 0 12000]), v1) \<and>
    Dispatch demo_codec (Some 3) b demo_adder = (ret [Send 3 rb Checked], s1) \<and> app s1 = 1 \<and>
    OnTimerExpired demo_codec (Some 0) OK v1 = (ret [SendTo b 2], v1) \<and>
    Dispatch demo_codec (Some 3) b s1 = (ret [Send 3 rb Unchecked], s2) \<and> app s2 = 1 \<and>
    GotPdu demo_codec rb v1 = (ret [Invoke (User 1) (Any_uint32 42) OK], v2) \<and>
    fst (GotPdu demo_codec rb v2) = ret []"
proof -
  have "demo_add 41 (app demo_adder) = (ret (OK, 42), 1)" by (simp add: demo_add_def)
  from lost_reply [where meth = demo_add and a = 41 and r = 42 and conv_a = get_uint32 and
      to_json = json_of_uint32 and conv_r = get_uint32 and r' = 42 and t = "json_of_uint32 41" and
      c = demo_codec and v = "demo_bound 9" and s = demo_adder and proc = 7 and pack = Any_uint32 and
      n = 1 and to = kToMax and k = 3 and k' = 3, OF demo_wire _ _ _ _ _ _ _ this]
  show ?thesis by (simp add: kToMax_def)
qed

text \<open>
  C16: binding. The exchange that \<open>Bind\<close> starts leaves the client bound to the nonce of the server,
  and the server's application untouched; from then on \<open>Call\<close> admits every other procedure.
\<close>

theorem binding:
  fixes v :: "'r client" and s :: "'s server"
  assumes "wire_ok c" and "client_ok v" and "server_ok s" and "\<not> bind_done v"
    and "cl_srv_nonce v = 0 \<or> cl_srv_nonce v = srv_nonce s"
    and "procs s BIND = Some (make_handler get_int32 json_of_uint32 (Bind (srv_nonce s)))"
    and "cl_nonce v > 0 \<Longrightarrow> \<not> next_xid v \<le> received_xid (rep_window v) \<and>
      request_status s (cl_nonce v) (next_xid v) = Unseen"
  shows "\<exists>b rb v1 s1 v2.
    Bind_client c to v =
      (ret (OK, [SendTo b (next_xid v), ArmTimer (fresh v) (ms to)]), v1) \<and>
    Dispatch c (Some k) b s = (ret [Send k rb Checked], s1) \<and> app s1 = app s \<and>
    GotPdu c rb v1 = (ret [Invoke Bind_callback (Any_uint32 (srv_nonce s)) OK], v2) \<and>
    HasBinded v2 \<and> cl_srv_nonce v2 = srv_nonce s \<and>
    (\<forall>proc. admits proc v2 \<longleftrightarrow> proc \<noteq> BIND)"
proof (rule remote_exchange [where conv_a = get_int32 and meth = "Bind (srv_nonce s)" and
      to_json = json_of_uint32 and a = 0 and r = "srv_nonce s" and conv_r = get_uint32 and
      r' = "srv_nonce s" and t = "json_of_int32 0" and pack = Any_uint32 and cb = Bind_callback and
      to = to and k = k, OF assms(1-3) _ _ assms(5,6)])
  show "admits BIND v" using assms(4) by (simp add: admits_def)
  show "plain (json_of_int32 0)" by simp
  show "get_int32 (canon (json_of_int32 0)) = ret 0" by simp
  show "Bind (srv_nonce s) 0 (app s) = (ret (OK, srv_nonce s), app s)" by (simp add: Bind_def)
  show "get_uint32 (canon (json_of_uint32 (srv_nonce s))) = ret (srv_nonce s)" by simp
  show "cl_nonce v > 0 \<Longrightarrow> \<not> next_xid v \<le> received_xid (rep_window v) \<and>
      request_status s (cl_nonce v) (next_xid v) = Unseen" by (fact assms(7))
  fix b u rb w v1 s1
  assume call: "Call_args c BIND (json_of_int32 0) get_uint32 Any_uint32 Bind_callback to v =
      (ret (OK, [SendTo b (next_xid v), ArmTimer (fresh v) (ms to)]), v1)"
    and v1: "callers v1 = (callers v)(next_xid v \<mapsto> fresh v)"
      "heap v1 (fresh v) = Some \<lparr>c_done = False, c_xid = next_xid v, c_err = OK,
         c_cb = Bind_callback, c_re = ReplyExtractor get_uint32 Any_uint32, c_timer = ms to,
         c_buf = b\<rparr>"
    and d: "Dispatch c (Some k) b s = (ret [Send k rb Checked], s1)" "app s1 = app s"
    and rd: "got_read c rb = ret (w, \<lparr>rep_xid = next_xid v, rep_err = OK\<rparr>)"
    and ex: "ReplyExtractor get_uint32 Any_uint32 w =
      (ret (Any_uint32 (srv_nonce s)) :: 'r any res)"
  obtain v2 where "GotPdu c rb v1 = (ret [Invoke Bind_callback (Any_uint32 (srv_nonce s)) OK], v2)"
    "bind_done v2" "cl_srv_nonce v2 = srv_nonce s"
    by (rule GotPdu_bind [OF rd _ v1(2), of "srv_nonce s"]) (use v1(1) ex that in auto)
  moreover have "Bind_client c to v =
      (ret (OK, [SendTo b (next_xid v), ArmTimer (fresh v) (ms to)]), v1)"
    using call by (simp add: Bind_client_def)
  ultimately show ?thesis using d by (auto simp: HasBinded_def admits_def)
qed simp_all

theorem binding_witness:
  "\<exists>b rb v1 s1 v2.
    Bind_client demo_codec kToMax (demo_v0 5) =
      (ret (OK, [SendTo b 2, ArmTimer 0 12000]), v1) \<and>
    Dispatch demo_codec (Some 3) b demo_adder = (ret [Send 3 rb Checked], s1) \<and>
    GotPdu demo_codec rb v1 = (ret [Invoke Bind_callback (Any_uint32 9) OK], v2) \<and>
    cl_srv_nonce v2 = 9 \<and> admits 7 v2"
proof -
  have seven: "(7 :: proc_t) \<noteq> BIND" by (simp add: BIND_def)
  from binding [where c = demo_codec and v = "demo_v0 5" and s = demo_adder and to = kToMax and
      k = 3, OF demo_wire]
  obtain b rb v1 s1 v2 where "Bind_client demo_codec kToMax (demo_v0 5) =
      (ret (OK, [SendTo b 2, ArmTimer 0 12000]), v1)"
    "Dispatch demo_codec (Some 3) b demo_adder = (ret [Send 3 rb Checked], s1)"
    "GotPdu demo_codec rb v1 = (ret [Invoke Bind_callback (Any_uint32 9) OK], v2)"
    "cl_srv_nonce v2 = 9" "admits 7 v2"
    using seven by (auto simp: kToMax_def)
  then show ?thesis by blast
qed

text \<open>
  C29: a restarted server. A client bound to another instance of the server is told so by the reply
  \<open>OLDSERVER_FAILURE\<close>, and the server is left unchanged. But that reply carries no value, and
  \<open>GotPdu\<close> extracts the value whatever the error code: it throws out of the I/O worker, and the
  call is gone without its callback.
\<close>

theorem restarted_server:
  fixes v :: "'r client" and s :: "'s server" and conv_r :: "json \<Rightarrow> 'b res"
  assumes "wire_ok c" and "client_ok v" and "admits proc v" and "plain t"
    and "cl_srv_nonce v \<noteq> 0" and "cl_srv_nonce v \<noteq> srv_nonce s"
  shows "\<exists>b rb v1 v2.
    Call_args c proc t conv_r pack (User n) to v =
      (ret (OK, [SendTo b (next_xid v), ArmTimer (fresh v) (ms to)]), v1) \<and>
    Dispatch c (Some k) b s = (ret [Send k rb Checked], s) \<and>
    read_reply c 0 rb = ret (\<lparr>rep_xid = next_xid v, rep_err = OLDSERVER_FAILURE\<rparr>, []) \<and>
    GotPdu c rb v1 = (throw (Json_error 403), v2) \<and> callers v2 = (callers v)(next_xid v := None)"
proof -
  have w: "wire c" using assms(1) by (simp add: wire_def)
  let ?r = "\<lparr>rep_xid = next_xid v, rep_err = OLDSERVER_FAILURE\<rparr>"
  obtain b u v1 where call: "Call_args c proc t conv_r pack (User n) to v =
      (ret (OK, [SendTo b (next_xid v), ArmTimer (fresh v) (ms to)]), v1)"
    and q: "Unmarshall_of c b = ret u" "Unmarshall_get_req u = ret (next_header proc v)"
    and v1: "callers v1 = (callers v)(next_xid v \<mapsto> fresh v)"
      "heap v1 (fresh v) = Some \<lparr>c_done = False, c_xid = next_xid v, c_err = OK, c_cb = User n,
         c_re = ReplyExtractor conv_r pack, c_timer = ms to, c_buf = b\<rparr>"
    by (rule Call_args_sends [OF assms(1-4), where conv = conv_r and pack = pack and
          cb = "User n" and to = to]) (rule that; assumption)
  obtain m rb w1 where m: "Marshall_put_rep ?r Marshall_new = ret m" "Marshall_Buf c m = ret rb"
      "Unmarshall_of c rb = ret w1" "Unmarshall_get_rep w1 = ret ?r"
    and none: "\<And>conv' :: json \<Rightarrow> 'b res. Unmarshall_get conv' w1 = throw (Json_error 403)"
    using wire.header_read [OF w, of ?r] by (metis ReplyHeader.select_convs(2) wf_Err.simps(9))
  have "header_reply c k (next_xid v) OLDSERVER_FAILURE Checked = ret [Send k rb Checked]"
    using m(1,2) by (simp add: header_reply_def)
  then have d: "Dispatch c (Some k) b s = (ret [Send k rb Checked], s)"
    using q assms(5,6) by (simp add: Dispatch_def dispatch_lookup_def next_header_def)
  have rd: "got_read c rb = ret (w1, ?r)" by (rule got_read_eq [OF m(3,4)])
  have "read_reply c 0 rb = ret (?r, [])" using m(3,4) by (simp add: read_reply_def)
  moreover obtain v2 where "GotPdu c rb v1 = (throw (Json_error 403), v2)"
      "callers v2 = (callers v)(next_xid v := None)"
    by (rule GotPdu_unreadable [OF rd _ v1(2), of "Json_error 403"])
       (use v1(1) none that in \<open>auto simp: ReplyExtractor_def\<close>)
  ultimately show ?thesis using call d by blast
qed

theorem restarted_server_witness:
  "\<exists>b rb v1 v2.
    Call_args demo_codec 7 (json_of_uint32 41) get_uint32 Any_uint32 (User 1) kToMax (demo_bound 8) =
      (ret (OK, [SendTo b 2, ArmTimer 0 12000]), v1) \<and>
    Dispatch demo_codec (Some 3) b demo_adder = (ret [Send 3 rb Checked], demo_adder) \<and>
    GotPdu demo_codec rb v1 = (throw (Json_error 403), v2)"
  using restarted_server [where c = demo_codec and v = "demo_bound 8" and s = demo_adder and
      proc = 7 and t = "json_of_uint32 41" and conv_r = get_uint32 and pack = Any_uint32 and n = 1 and
      to = kToMax and k = 3, OF demo_wire]
  by (simp add: kToMax_def) blast

text \<open>
  A late reply. On a client without a nonce the timeout ends the call with \<open>TIMEOUT_FAILURE\<close>;
  the reply that comes afterwards runs nothing and frees the call.
\<close>

theorem late_reply:
  assumes "got_read c b = ret (u, h)" and "callers v (rep_xid h) = Some p"
    and "heap v p = Some k" and "\<not> c_done k" and "c_cb k = User n" and "cl_nonce v = 0"
  shows "\<exists>v1 v2. OnTimerExpired c (Some p) e v = (ret [Invoke (User n) Empty TIMEOUT_FAILURE], v1) \<and>
    GotPdu c b v1 = (ret [], v2) \<and> callers v2 = (callers v)(rep_xid h := None) \<and>
    heap v2 p = None"
proof -
  let ?f = "\<lambda>k. k\<lparr>c_done := True, c_err := TIMEOUT_FAILURE\<rparr>"
  let ?v1 = "update_caller p ?f v"
  have "OnTimerExpired c (Some p) e v = (ret [Invoke (User n) Empty TIMEOUT_FAILURE], ?v1)"
    by (rule OnTimerExpired_gives_up [OF assms(3,4,6,5)])
  moreover obtain v2 where "GotPdu c b ?v1 = (ret [], v2)"
      "callers v2 = (callers v)(rep_xid h := None)" "heap v2 p = None"
    by (rule GotPdu_late [OF assms(1), of ?v1 p "?f k"]) (use assms(2,3) that in auto)
  ultimately show ?thesis by blast
qed

theorem late_reply_witness:
  "\<exists>b v1 v2.
    OnTimerExpired demo_codec (Some 0) OK (demo_v1 0 False OK []) =
      (ret [Invoke (User 1) Empty TIMEOUT_FAILURE], v1) \<and>
    GotPdu demo_codec b v1 = (ret [], v2) \<and> callers v2 = Map.empty"
proof -
  obtain b u where rd: "got_read demo_codec b = ret (u, \<lparr>rep_xid = 2, rep_err = OK\<rparr>)"
    by (rule demo_packet)
  have "\<exists>v1 v2. OnTimerExpired demo_codec (Some 0) OK (demo_v1 0 False OK []) =
        (ret [Invoke (User 1) Empty TIMEOUT_FAILURE], v1) \<and>
      GotPdu demo_codec b v1 = (ret [], v2) \<and>
      callers v2 = (callers (demo_v1 0 False OK []))(2 := None) \<and> heap v2 0 = None"
    using late_reply [OF rd, of "demo_v1 0 False OK []" 0 "demo_caller False OK []" 1 OK] by simp
  then show ?thesis by auto
qed

end
