(* ===== verification/Client_Packets.thy ===== *)
theory Client_Packets
  imports Client_Steps
begin

text \<open>
  What the client writes onto its connection. Every packet is the buffer of a live \<open>Caller\<close>; read
  back by the server it shows the client's nonce and the transaction the call was registered under.
  This holds in every interleaving, for retransmissions and for the calls that \<open>Bind\<close> makes.
\<close>

section \<open>Packets read back\<close>

definition reads_request :: "codec \<Rightarrow> string \<Rightarrow> RequestHeader \<Rightarrow> bool" where
  "reads_request c b h \<longleftrightarrow> (\<exists>u. Unmarshall_of c b = ret u \<and> Unmarshall_get_req u = ret h)"

definition reads_reply :: "codec \<Rightarrow> string \<Rightarrow> ReplyHeader \<Rightarrow> bool" where
  "reads_reply c b h \<longleftrightarrow> (\<exists>u. got_read c b = ret (u, h))"

lemma reads_request_unique: "reads_request c b h \<Longrightarrow> reads_request c b h' \<Longrightarrow> h = h'"
  by (auto simp: reads_request_def)

lemma reads_reply_unique: "reads_reply c b h \<Longrightarrow> reads_reply c b h' \<Longrightarrow> h = h'"
  by (auto simp: reads_reply_def)

context wire
begin

lemma request_reads:
  assumes "wf_marshall m" and "Marshall_put_req h m = ret m'" and "Marshall_Buf c m' = ret b"
  shows "reads_request c b h"
proof -
  from Marshall_put_req_wf [OF assms(1), of h] assms(2) have m': "wf_marshall m'"
    "entry m' = (entry m)(''req'' \<mapsto> to_json_RequestHeader h)" by auto
  from Buf_TakeBuf [OF m'(1)] assms(3) have
    "\<And>u. Unmarshall_TakeBuf c b u = ret (u\<lparr>un_json := canon (m_json m')\<rparr>)" by auto
  then show ?thesis
    using m'(2) by (auto simp: reads_request_def Unmarshall_of_def
        Unmarshall_get_req_entry [where m = m'])
qed

lemma reply_reads:
  assumes "wf_marshall m" and "wf_Err (rep_err h)" and "Marshall_put_rep h m = ret m'"
    and "Marshall_Buf c m' = ret b"
  shows "reads_reply c b h"
proof -
  from Marshall_put_rep_wf [OF assms(1), of h] assms(3) have m': "wf_marshall m'"
    "entry m' = (entry m)(''rep'' \<mapsto> to_json_ReplyHeader h)" by auto
  from Buf_TakeBuf [OF m'(1)] assms(4) have
    "\<And>u. Unmarshall_TakeBuf c b u = ret (u\<lparr>un_json := canon (m_json m')\<rparr>)" by auto
  then show ?thesis
    using m'(2) assms(2) by (auto simp: reads_reply_def got_read_def Unmarshall_of_def
        Unmarshall_get_rep_entry [where m = m'])
qed

end

section \<open>The buffers of the callers\<close>

text \<open>A buffer that holds a request of the client with nonce \<open>n\<close> for the caller's transaction.\<close>

definition good :: "codec \<Rightarrow> nonce_t \<Rightarrow> 'r Caller \<Rightarrow> bool" where
  "good c n k \<longleftrightarrow>
     (\<exists>h. reads_request c (c_buf k) h \<and> req_clt_nonce h = n \<and> req_xid h = c_xid k)"

text \<open>
  From \<open>v\<close> to \<open>v'\<close> old callers keep their transaction, there is at most one new caller, and buffers
  change only to good ones.
\<close>

definition grows :: "codec \<Rightarrow> 'r client \<Rightarrow> 'r client \<Rightarrow> bool" where
  "grows c v v' \<longleftrightarrow>
     (\<forall>p k'. heap v' p = Some k' \<longrightarrow>
        (\<exists>k. heap v p = Some k \<and> c_xid k' = c_xid k \<and>
             (c_buf k' = c_buf k \<or> good c (cl_nonce v) k')) \<or>
        (p = fresh v \<and> fresh v < fresh v' \<and> c_xid k' = next_xid v \<and>
             (c_buf k' = [] \<or> good c (cl_nonce v) k')))"

lemma grows_sub: "(\<And>p k. heap v' p = Some k \<Longrightarrow> heap v p = Some k) \<Longrightarrow> grows c v v'"
  by (auto simp: grows_def)

lemma grows_refl [simp]: "grows c v v"
  by (rule grows_sub)

lemma good_same: "good c n k \<Longrightarrow> c_buf k' = c_buf k \<Longrightarrow> c_xid k' = c_xid k \<Longrightarrow> good c n k'"
  by (simp add: good_def)

lemma grows_update:
  "(\<And>k. c_xid (f k) = c_xid k) \<Longrightarrow> (\<And>k. c_buf (f k) = c_buf k) \<Longrightarrow> grows c v (update_caller p f v)"
  by (auto simp: grows_def split: if_splits)

lemma grows_free: "grows c v v' \<Longrightarrow> grows c v (free p v')"
  by (auto simp: grows_def split: if_splits)

lemma grows_trans:
  assumes "grows c v v1" and "grows c v1 v2" and "fresh v2 = fresh v1" and "cl_nonce v1 = cl_nonce v"
  shows "grows c v v2"
  unfolding grows_def
proof (intro allI impI)
  fix p k2 assume "heap v2 p = Some k2"
  then obtain k1 where k1: "heap v1 p = Some k1" "c_xid k2 = c_xid k1"
    "c_buf k2 = c_buf k1 \<or> good c (cl_nonce v) k2"
    using assms(2-4) by (fastforce simp: grows_def)
  with assms(1) show "(\<exists>k. heap v p = Some k \<and> c_xid k2 = c_xid k \<and>
      (c_buf k2 = c_buf k \<or> good c (cl_nonce v) k2)) \<or>
    (p = fresh v \<and> fresh v < fresh v2 \<and> c_xid k2 = next_xid v \<and>
      (c_buf k2 = [] \<or> good c (cl_nonce v) k2))"
    unfolding grows_def assms(3) by (metis good_same)
qed

text \<open>The other direction: an update first, which keeps the counters.\<close>

lemma grows_after:
  assumes "grows c v1 v2" and "v1 = update_caller p f v" and "\<And>k. c_xid (f k) = c_xid k"
    and "\<And>k. c_buf (f k) = c_buf k"
  shows "grows c v v2"
  using assms(1) unfolding grows_def assms(2)
  by (fastforce simp: assms(3,4) split: if_splits)

lemma grows_register:
  assumes "call_register proc cb re to v = (Some p, v')"
  shows "grows c v v'"
  using assms by (auto simp: call_register_def Let_def grows_def split: if_splits option.splits)

lemma grows_send:
  assumes "wire_ok c" and "wf_marshall req" and "call_send c proc req p v = (r, v')"
  shows "grows c v v'"
proof -
  have w: "wire c" using assms(1) by (simp add: wire_def)
  show ?thesis
  proof (cases "v' = v")
    case False
    then obtain k m b where k: "heap v p = Some k"
      "Marshall_put_req \<lparr>req_xid = c_xid k, req_proc = proc, req_clt_nonce = cl_nonce v,
          req_srv_nonce = cl_srv_nonce v, req_xid_rep = received_xid (rep_window v)\<rparr> req = ret m"
      "Marshall_Buf c m = ret b" "v' = update_caller p (\<lambda>k. k\<lparr>c_buf := b\<rparr>) v"
      using assms(3) by (auto simp: call_send_def res_simps split: option.splits sum.splits)
    have "good c (cl_nonce v) (k\<lparr>c_buf := b\<rparr>)"
      using wire.request_reads [OF w assms(2) k(2,3)] by (auto simp: good_def)
    with k show ?thesis by (auto simp: grows_def split: if_splits)
  qed simp
qed

lemma grows_Call:
  assumes "wire_ok c" and "wf_marshall req" and "Call c proc req cb re to v = (r, v')"
    and "client_ok v"
  shows "grows c v v'"
proof (cases "call_register proc cb re to v")
  case (Pair o1 v1)
  show ?thesis
  proof (cases o1)
    case None
    with Pair assms(3) call_register_None show ?thesis by (fastforce simp: Call_def)
  next
    case (Some p)
    obtain r2 v2 where s: "call_send c proc req p v1 = (r2, v2)" by fastforce
    with assms(3) Pair Some have "v' = v2" by (auto simp: Call_def split: sum.splits)
    moreover have "fresh v2 = fresh v1"
      using call_sendD [OF s] by auto
    moreover have "cl_nonce v1 = cl_nonce v"
      using evolves_register(1) [OF Pair [unfolded Some] assms(4)] by (simp add: evolves_def)
    ultimately show ?thesis
      using grows_trans [OF grows_register [OF Pair [unfolded Some]] grows_send [OF assms(1,2) s]]
      by simp
  qed
qed

lemma grows_Bind:
  assumes "wire_ok c" and "Bind_client c to v = (r, v')" and "client_ok v"
  shows "grows c v v'"
proof -
  have "plain (json_of_int32 0)" by (simp add: json_of_int32_def)
  from Marshall_put_wf [OF wf_marshall_new this] obtain m where
    m: "Marshall_put (json_of_int32 0) Marshall_new = ret m" "wf_marshall m" by blast
  then show ?thesis
    using assms grows_Call [OF assms(1) m(2) _ assms(3)]
    by (auto simp: Bind_client_def Call_args_def split: prod.splits sum.splits)
qed

lemma grows_callback:
  assumes "wire_ok c" and "run_callback c cb r e v = (es, v')" and "client_ok v"
  shows "grows c v v'"
proof (cases "cb = Bind_callback \<and> e \<noteq> OK")
  case True
  obtain b v1 where B: "Bind_client c kToMax v = (b, v1)" by fastforce
  with True assms(2) have "v' = v1" by (auto simp: run_callback_def split: sum.splits)
  with grows_Bind [OF assms(1) B assms(3)] show ?thesis by simp
next
  case False
  then have "heap v' = heap v"
    using assms(2) by (cases cb) (auto simp: run_callback_def split: sum.splits)
  then show ?thesis by (intro grows_sub) simp
qed

lemma grows_mark: "got_mark h p v = (r, v') \<Longrightarrow> grows c v v'"
  by (auto simp: got_mark_def split: option.splits if_splits intro: grows_update grows_free)

lemma grows_deliver:
  assumes "wire_ok c" and "got_deliver c u h p v = (r, v')" and "client_ok v"
  shows "grows c v v'"
  using assms(2) grows_callback [OF assms(1) _ assms(3)]
  by (auto simp: got_deliver_def split: option.splits sum.splits prod.splits intro: grows_free)

lemma grows_timer:
  assumes "wire_ok c" and "OnTimerExpired c (Some p) e v = (r, v')" and "client_ok v"
  shows "grows c v v'"
proof -
  let ?f = "\<lambda>k. k\<lparr>c_done := True, c_err := TIMEOUT_FAILURE\<rparr>"
  have "client_ok (update_caller p ?f v)" using assms(3) by (rule client_ok_update) simp
  with assms(2) show ?thesis
    by (auto simp: OnTimerExpired_def split: option.splits if_splits
        intro!: grows_after [OF grows_callback [OF assms(1)] refl])
qed

lemma grows_fail_mark: "fail_mark p e v = (r, v') \<Longrightarrow> grows c v v'"
  by (auto simp: fail_mark_def split: option.splits intro: grows_update)

lemma grows_fail_deliver:
  "wire_ok c \<Longrightarrow> fail_deliver c p e v = (r, v') \<Longrightarrow> client_ok v \<Longrightarrow> grows c v v'"
  by (auto simp: fail_deliver_def split: option.splits intro: grows_callback)

lemma grows_connected: "OnConnected e v = (r, v') \<Longrightarrow> grows c v v'"
  by (rule grows_sub) (auto simp: OnConnected_def split: if_splits)

section \<open>What is sent is a buffer\<close>

text \<open>Every packet that a section sends is the buffer of a caller that is live afterwards.\<close>

definition sends_buffers :: "'r call_effect list \<Rightarrow> 'r client \<Rightarrow> bool" where
  "sends_buffers es v \<longleftrightarrow>
     (\<forall>b x. SendTo b x \<in> set es \<longrightarrow> (\<exists>p k. heap v p = Some k \<and> c_buf k = b \<and> c_xid k = x))"

lemma sends_buffers_simps [simp]:
  "sends_buffers [] v" "sends_buffers [Reconnect h q p] v"
  "heap v p = Some k \<Longrightarrow> sends_buffers [SendTo (c_buf k) (c_xid k)] v"
  by (auto simp: sends_buffers_def)

lemma sends_buffers_send: "call_send c proc req p v = (ret es, v') \<Longrightarrow> sends_buffers es v'"
  by (fastforce simp: call_send_def sends_buffers_def split: option.splits sum.splits)

lemma sends_buffers_Call:
  assumes "Call c proc req cb re to v = (ret (e, es), v')"
  shows "sends_buffers es v'"
  using assms sends_buffers_send
  by (fastforce simp: Call_def call_wait_def sends_buffers_def res_simps
      split: prod.splits option.splits sum.splits)

lemma sends_buffers_Bind:
  "Bind_client c to v = (ret (e, es), v') \<Longrightarrow> sends_buffers es v'"
  by (auto simp: Bind_client_def Call_args_def split: prod.splits sum.splits
      intro: sends_buffers_Call)

lemma sends_buffers_callback:
  assumes "run_callback c cb r e v = (ret es, v')"
  shows "sends_buffers es v'"
proof (cases "cb = Bind_callback \<and> e \<noteq> OK")
  case True
  then obtain e' es' where "Bind_client c kToMax v = (ret (e', es'), v')"
    "es = Invoke cb r e # SleepMs 200 # es'"
    using assms by (auto simp: run_callback_def split: prod.splits sum.splits)
  with sends_buffers_Bind [OF this(1)] show ?thesis by (simp add: sends_buffers_def)
next
  case False
  then have "SendTo b x \<notin> set es" for b x
    using assms by (cases cb) (auto simp: run_callback_def split: sum.splits)
  then show ?thesis by (simp add: sends_buffers_def)
qed

lemma sends_buffers_timer:
  "OnTimerExpired c (Some p) e v = (ret es, v') \<Longrightarrow> sends_buffers es v'"
  by (auto simp: OnTimerExpired_def split: option.splits if_splits intro: sends_buffers_callback)

lemma sends_buffers_retry:
  "fail_retry p e v = ret es \<Longrightarrow> sends_buffers es v"
  "OnReconnected p e v = ret es \<Longrightarrow> sends_buffers es v"
  by (auto simp: fail_retry_def OnReconnected_def split: option.splits if_splits)

section \<open>Packets in every interleaving\<close>

definition packets :: "'r cconfig \<Rightarrow> string set" where
  "packets s = {c_buf k | p k. heap (cl s) p = Some k \<and> c_buf k \<noteq> []}"

text \<open>The packets that the application passes to \<open>Call\<close> were filled by \<open>Marshall\<close>'s operators.\<close>

definition calls_wf :: "'r cconfig \<Rightarrow> bool" where
  "calls_wf s \<longleftrightarrow> (\<forall>proc req p. Registered proc req p \<in># threads s \<longrightarrow> wf_marshall req)"

definition packets_ok :: "codec \<Rightarrow> 'r cconfig \<Rightarrow> bool" where
  "packets_ok c s \<longleftrightarrow>
     (\<forall>p k. heap (cl s) p = Some k \<longrightarrow>
        Made p (c_xid k) \<in> set (cevents s) \<and> (c_buf k = [] \<or> good c (cl_nonce (cl s)) k))"

lemma packets_ok_keep:
  assumes "packets_ok c s" and "grows c (cl s) (cl t)" and "cl_nonce (cl t) = cl_nonce (cl s)"
    and "set (cevents s) \<union> set (made (cl s) (cl t)) \<subseteq> set (cevents t)"
  shows "packets_ok c t"
  unfolding packets_ok_def
proof (intro allI impI)
  fix p k' assume "heap (cl t) p = Some k'"
  with assms(2) consider
      (old) k where "heap (cl s) p = Some k" "c_xid k' = c_xid k"
        "c_buf k' = c_buf k \<or> good c (cl_nonce (cl s)) k'"
    | (new) "p = fresh (cl s)" "fresh (cl s) < fresh (cl t)" "c_xid k' = next_xid (cl s)"
        "c_buf k' = [] \<or> good c (cl_nonce (cl s)) k'"
    unfolding grows_def by blast
  then show "Made p (c_xid k') \<in> set (cevents t) \<and>
      (c_buf k' = [] \<or> good c (cl_nonce (cl t)) k')"
  proof cases
    case old
    with assms(1) have "Made p (c_xid k) \<in> set (cevents s)" "c_buf k = [] \<or> good c (cl_nonce (cl s)) k"
      by (auto simp: packets_ok_def)
    with old assms(3,4) show ?thesis by (auto intro: good_same)
  next
    case new
    with assms(3,4) show ?thesis by (auto simp: made_def)
  qed
qed

lemma cstep_grows:
  assumes "cstep c s t" and "wire_ok c" and "calls_wf s" and "owners_ok s"
  shows "grows c (cl s) (cl t)" and "set (cevents s) \<union> set (made (cl s) (cl t)) \<subseteq> set (cevents t)"
proof -
  note ok = owners_okD(1) [OF assms(4)]
  show "set (cevents s) \<union> set (made (cl s) (cl t)) \<subseteq> set (cevents t)"
    using assms(1) by cases (auto simp: made_def got_update_def)
  show "grows c (cl s) (cl t)"
    using assms(1)
  proof cases
    case (register proc cb re to p v req)
    then show ?thesis by (simp add: grows_register)
  next
    case (request proc req p P es v)
    then have "wf_marshall req" using assms(3) by (auto simp: calls_wf_def)
    with request show ?thesis by (simp add: grows_send [OF assms(2)])
  next
    case (packet n buf u h)
    then show ?thesis by (auto simp: got_update_def intro: grows_sub)
  next
    case (take u h P p v)
    with got_takeD(2) [OF take(4)] show ?thesis by (auto intro: grows_sub)
  next
    case (mark u h p P b v)
    then show ?thesis by (simp add: grows_mark)
  next
    case (deliver u h p P es v)
    then show ?thesis by (simp add: grows_deliver [OF assms(2) _ ok])
  next
    case (timer p X e es v)
    then show ?thesis by (simp add: grows_timer [OF assms(2) _ ok])
  next
    case (give_up p e P y v)
    then show ?thesis by (simp add: grows_fail_mark)
  next
    case (fail p e P es v)
    then show ?thesis by (simp add: grows_fail_deliver [OF assms(2) _ ok])
  next
    case (connect n e es v)
    then show ?thesis by (simp add: grows_connected)
  qed simp_all
qed

lemma packets_ok_cstep:
  assumes "cstep c s t" and "wire_ok c" and "calls_wf s" and "owners_ok s" and "packets_ok c s"
  shows "packets_ok c t"
  by (rule packets_ok_keep [OF assms(5) cstep_grows(1) [OF assms(1-4)]
        cstep_frame(1) [OF assms(1,4)] cstep_grows(2) [OF assms(1-4)]])

section \<open>Replies in every interleaving\<close>

text \<open>
  \<open>W u h\<close>: the network has brought a packet that reads as \<open>u\<close> with header \<open>h\<close>. Every thread in
  \<open>GotPdu\<close> works on such a packet, and every callback that ran for a reply ran for one.
\<close>

fun reading :: "cpc \<Rightarrow> (unmarshall \<times> ReplyHeader) option" where
  "reading (Received u h) = Some (u, h)"
| "reading (Taken u h p) = Some (u, h)"
| "reading (Marked u h p) = Some (u, h)"
| "reading _ = None"

definition replies_ok :: "(unmarshall \<Rightarrow> ReplyHeader \<Rightarrow> bool) \<Rightarrow> 'r cconfig \<Rightarrow> bool" where
  "replies_ok W s \<longleftrightarrow>
     (\<forall>T u h. T \<in># threads s \<longrightarrow> reading T = Some (u, h) \<longrightarrow> W u h) \<and>
     (\<forall>p x e. Delivered p (Some x) e \<in> set (cevents s) \<longrightarrow> (\<exists>u. W u \<lparr>rep_xid = x, rep_err = e\<rparr>))"

lemma replies_ok_mono: "replies_ok W s \<Longrightarrow> (\<And>u h. W u h \<Longrightarrow> W' u h) \<Longrightarrow> replies_ok W' s"
  unfolding replies_ok_def by blast

lemma made_delivered [simp]: "Delivered p x e \<notin> set (made v v')"
  by (simp add: made_def)

lemma header_eta [simp]: "\<lparr>rep_xid = rep_xid h, rep_err = rep_err h\<rparr> = (h :: ReplyHeader)"
  by simp

text \<open>A step that reads no packet.\<close>

lemma replies_ok_cstep:
  "cstep c s t \<Longrightarrow> replies_got t = replies_got s \<Longrightarrow> replies_ok W s \<Longrightarrow> replies_ok W t"
proof (induction rule: cstep.induct)
  case (packet s n buf u h)
  then show ?case by (simp add: replies_got_def)
next
  case (deliver s u h p P es v)
  then have "W u h" by (auto simp: replies_ok_def)
  then have "\<exists>u. W u \<lparr>rep_xid = x, rep_err = e\<rparr>"
    if "Delivered q (Some x) e = Delivered p (Some (rep_xid h)) (rep_err h)" for q x e
    using that by (intro exI [of _ u]) simp
  moreover have "W u' h'" if "T \<in># P" "reading T = Some (u', h')" for T u' h'
    using that deliver by (auto simp: replies_ok_def)
  ultimately show ?case
    using deliver.prems(2) deliver_invokes [OF deliver.hyps(3)] unfolding replies_ok_def by auto
next
  case (send_fails s x S e)
  then show ?case by (auto simp: replies_ok_def split: option.splits)
qed (auto simp: replies_ok_def split: if_splits)

end
