(* ===== verification/Network.thy ===== *)
theory Network
  imports End_To_End Client_Packets
begin

text \<open>
  The whole system: any number of clients with all their threads, the server with all its threads,
  and a network between them that may lose, repeat, delay and reorder packets, over connections
  that may be closed and opened again. The steps are those of \<open>Client_Steps\<close> and \<open>Server_Steps\<close>,
  with the packets that arrive restricted to packets that the other side has written.
\<close>

section \<open>The server: what it answers\<close>

fun job_of :: "'s pc \<Rightarrow> 's job" where
  "job_of (Looked j) = j"
| "job_of (Known j) = j"
| "job_of (Admitted j) = j"
| "job_of (Executed j rep) = j"
| "job_of (Answered j rep) = j"
| "job_of (Repeated j) = j"
| "job_of (Old j) = j"

text \<open>Handlers of the kind that \<open>Register\<close> makes: they fill the reply with \<open>Marshall\<close>'s operators.\<close>

definition handler_ok :: "'s handler \<Rightarrow> bool" where
  "handler_ok f \<longleftrightarrow>
     (\<forall>req rep s e rep' s'. wf_marshall rep \<longrightarrow> f req rep s = (Inr (e, rep'), s') \<longrightarrow>
        wf_marshall rep' \<and> wf_Err e)"

definition handlers_ok :: "'s server \<Rightarrow> bool" where
  "handlers_ok v \<longleftrightarrow> (\<forall>f \<in> ran (procs v). handler_ok f)"

lemma handler_ok_make_handler:
  assumes "\<And>a s e r s'. meth a s = (Inr (e, r), s') \<Longrightarrow> wf_Err e \<and> plain (to_json r)"
  shows "handler_ok (make_handler conv to_json meth)"
  unfolding handler_ok_def
proof (intro allI impI)
  fix req rep s e rep' s'
  assume "wf_marshall rep" and "make_handler conv to_json meth req rep s = (Inr (e, rep'), s')"
  moreover from this(2) obtain a r where "meth a s = (Inr (e, r), s')"
    "Marshall_put (to_json r) rep = ret rep'"
    by (auto simp: make_handler_def res_simps split: sum.splits prod.splits)
  moreover have "wf_Err e" "plain (to_json r)" using assms calculation(3) by blast+
  ultimately show "wf_marshall rep' \<and> wf_Err e"
    using Marshall_put_wf by fastforce
qed

text \<open>A reply under construction shows the transaction of its request.\<close>

definition reply_for :: "codec \<Rightarrow> xid_t \<Rightarrow> marshall \<Rightarrow> bool" where
  "reply_for c x rep \<longleftrightarrow>
     (\<forall>b. Marshall_Buf c rep = ret b \<longrightarrow> (\<exists>e. reads_reply c b \<lparr>rep_xid = x, rep_err = e\<rparr>))"

text \<open>\<open>J\<close> is what is known of the requests the server has accepted.\<close>

fun pc_ok :: "codec \<Rightarrow> ('s job \<Rightarrow> bool) \<Rightarrow> 's pc \<Rightarrow> bool" where
  "pc_ok c J (Executed j rep) \<longleftrightarrow> J j \<and> job_clt j > 0 \<and> reply_for c (job_xid j) rep"
| "pc_ok c J (Answered j rep) \<longleftrightarrow> J j \<and> reply_for c (job_xid j) rep"
| "pc_ok c J (Admitted j) \<longleftrightarrow> J j"
| "pc_ok c J P \<longleftrightarrow> J (job_of P) \<and> job_clt (job_of P) > 0"

definition answers_ok :: "codec \<Rightarrow> ('s job \<Rightarrow> bool) \<Rightarrow> 's config \<Rightarrow> bool" where
  "answers_ok c J s \<longleftrightarrow>
     (\<forall>P \<in># pool s. pc_ok c J P) \<and>
     (\<forall>k x b. Recorded k x b \<in> set (events s) \<longrightarrow>
        (\<exists>e. reads_reply c b \<lparr>rep_xid = x, rep_err = e\<rparr>)) \<and>
     (\<forall>k x. Exec k x \<in> set (events s) \<longrightarrow> (\<exists>j. J j \<and> job_clt j = k \<and> job_xid j = x))"

lemma pc_ok_job: "pc_ok c J P \<Longrightarrow> J (job_of P)"
  by (cases P) auto

lemma pc_ok_mono: "pc_ok c J P \<Longrightarrow> (\<And>j. J j \<Longrightarrow> J' j) \<Longrightarrow> pc_ok c J' P"
  by (cases P) auto

lemma answers_ok_mono: "answers_ok c J s \<Longrightarrow> (\<And>j. J j \<Longrightarrow> J' j) \<Longrightarrow> answers_ok c J' s"
  unfolding answers_ok_def using pc_ok_mono by metis

lemma answers_ok_Exec:
  "answers_ok c J s \<Longrightarrow> Exec k x \<in> set (events s) \<Longrightarrow> \<exists>j. J j \<and> job_clt j = k \<and> job_xid j = x"
  by (simp add: answers_ok_def)

lemma reply_for_execute:
  assumes "wire_ok c" and "handler_ok (job_handler j)" and "dispatch_execute j v = (ret rep, v')"
  shows "reply_for c (job_xid j) rep"
proof -
  obtain e m s' where m: "job_handler j (job_req j) Marshall_new (app v) = (Inr (e, m), s')"
    "Marshall_put_rep \<lparr>rep_xid = job_xid j, rep_err = e\<rparr> m = ret rep"
    using assms(3) by (auto simp: dispatch_execute_def split: sum.splits prod.splits)
  then have "wf_marshall m" "wf_Err e"
    using assms(2) [unfolded handler_ok_def] wf_marshall_new by blast+
  moreover have "wire c" using assms(1) by (simp add: wire_def)
  ultimately show ?thesis
    unfolding reply_for_def using wire.reply_reads [OF _ _ _ m(2)] by auto
qed

lemma header_reply_reads:
  assumes "wire_ok c" and "header_reply c k x e q = ret es" and "wf_Err e" and "Send k' b q' \<in> set es"
  shows "reads_reply c b \<lparr>rep_xid = x, rep_err = e\<rparr>" and "k' = k"
proof -
  obtain m where m: "Marshall_put_rep \<lparr>rep_xid = x, rep_err = e\<rparr> Marshall_new = ret m"
    "Marshall_Buf c m = ret b" "k' = k"
    using assms(2,4) by (auto simp: header_reply_def res_simps)
  then show "k' = k" by simp
  show "reads_reply c b \<lparr>rep_xid = x, rep_err = e\<rparr>"
    using wire.reply_reads [OF _ wf_marshall_new _ m(1,2)] assms(1,3) by (simp add: wire_def)
qed

text \<open>A step that accepts no packet.\<close>

lemma answers_ok_sstep:
  "sstep c s t \<Longrightarrow> wire_ok c \<Longrightarrow> size (pool t) \<le> size (pool s) \<Longrightarrow>
     (\<And>j. J j \<Longrightarrow> handler_ok (job_handler j)) \<Longrightarrow> answers_ok c J s \<Longrightarrow> answers_ok c J t"
proof (induction rule: sstep.induct)
  case (check s j P st v)
  then show ?case by (cases st) (auto simp: answers_ok_def)
next
  case (execute s j P rep v)
  then have "J j" by (simp add: answers_ok_def)
  with execute have "reply_for c (job_xid j) rep" by (intro reply_for_execute) auto
  with execute \<open>J j\<close> show ?case by (auto simp: answers_ok_def executed_def)
next
  case (record_reply s j rep P v b)
  then have "\<exists>e. reads_reply c b \<lparr>rep_xid = job_xid j, rep_err = e\<rparr>"
    by (simp add: answers_ok_def reply_for_def)
  with record_reply show ?case by (auto simp: answers_ok_def)
qed (auto simp: answers_ok_def)

section \<open>The system\<close>

text \<open>
  Clients have numbers, connections are the sockets of the server; \<open>owner\<close> says whose connection
  a socket is, and a client may have many one after the other. \<open>uplink\<close> and \<open>downlink\<close> hold all
  packets ever written by and for a client: what is in them may arrive at any time, any number of
  times, or never.
\<close>

record ('r, 's) net =
  clts :: "nat \<Rightarrow> 'r cconfig"
  srvr :: "'s config"
  uplink :: "nat \<Rightarrow> string set"
  downlink :: "nat \<Rightarrow> string set"

abbreviation nonce_of :: "('r, 's) net \<Rightarrow> nat \<Rightarrow> nonce_t" where
  "nonce_of n i \<equiv> cl_nonce (cl (clts n i))"

definition net_init :: "('r, 's) net \<Rightarrow> bool" where
  "net_init n \<longleftrightarrow>
     (\<forall>i. cconfig_init (clts n i)) \<and> config_init (srvr n) \<and> handlers_ok (srv (srvr n)) \<and>
     (\<forall>i j. nonce_of n i = nonce_of n j \<and> nonce_of n i > 0 \<longrightarrow> i = j) \<and>
     uplink n = (\<lambda>i. {}) \<and> downlink n = (\<lambda>i. {})"

definition set_client :: "nat \<Rightarrow> 'r cconfig \<Rightarrow> ('r, 's) net \<Rightarrow> ('r, 's) net" where
  "set_client i t n =
     n\<lparr>clts := (clts n)(i := t), uplink := (uplink n)(i := uplink n i \<union> packets t)\<rparr>"

definition set_server :: "'s config \<Rightarrow> nat \<Rightarrow> string set \<Rightarrow> ('r, 's) net \<Rightarrow> ('r, 's) net" where
  "set_server t i B n = n\<lparr>srvr := t, downlink := (downlink n)(i := downlink n i \<union> B)\<rparr>"

definition sent_packets :: "effect list \<Rightarrow> string set" where
  "sent_packets es = {b. \<exists>k q. Send k b q \<in> set es}"

text \<open>
  A client moves without reading a reply, or reads one of its packets; the server moves without
  accepting a packet, accepts or rejects one from a connection, or answers on the connection the
  request came from. Answers that are lost are the server's own moves.
\<close>

inductive nstep :: "codec \<Rightarrow> (sock \<Rightarrow> nat) \<Rightarrow> ('r, 's) net \<Rightarrow> ('r, 's) net \<Rightarrow> bool"
  for c :: codec and owner :: "sock \<Rightarrow> nat" where
  client_moves: "cstep c (clts n i) t \<Longrightarrow> replies_got t = replies_got (clts n i) \<Longrightarrow> calls_wf t \<Longrightarrow>
     nstep c owner n (set_client i t n)"
| client_reads: "crashed (clts n i) = None \<Longrightarrow> receives (clts n i) = Suc m \<Longrightarrow>
     b \<in> downlink n i \<Longrightarrow> got_read c b = ret (u, h) \<Longrightarrow>
     nstep c owner n (set_client i
       (settle (got_update h (cl (clts n i))) (add_mset (Received u h) (threads (clts n i)))
         [Got (rep_xid h)] ((clts n i)\<lparr>receives := m\<rparr>)) n)"
| server_moves: "sstep c (srvr n) t \<Longrightarrow> size (pool t) \<le> size (pool (srvr n)) \<Longrightarrow>
     handlers_ok (srv t) \<Longrightarrow> nstep c owner n (set_server t i {} n)"
| server_reads: "failed (srvr n) = None \<Longrightarrow> size (pool (srvr n)) < num_worker (srv (srvr n)) \<Longrightarrow>
     b \<in> uplink n (owner k) \<Longrightarrow> dispatch_lookup c (Some k) b (srv (srvr n)) = ret (Found j) \<Longrightarrow>
     nstep c owner n
       (set_server ((srvr n)\<lparr>pool := add_mset (enter j) (pool (srvr n))\<rparr>) i {} n)"
| server_rejects: "failed (srvr n) = None \<Longrightarrow> size (pool (srvr n)) < num_worker (srv (srvr n)) \<Longrightarrow>
     b \<in> uplink n (owner k) \<Longrightarrow> dispatch_lookup c (Some k) b (srv (srvr n)) = ret (Rejected es) \<Longrightarrow>
     nstep c owner n (set_server (srvr n) (owner k) (sent_packets es) n)"
| server_sends: "failed (srvr n) = None \<Longrightarrow> pool (srvr n) = add_mset (Answered j rep) P \<Longrightarrow>
     dispatch_send c j rep = ret [Send (job_sock j) b k] \<Longrightarrow>
     nstep c owner n
       (set_server ((srvr n)\<lparr>pool := P,
           events := events (srvr n) @ [Sent (job_clt j) (job_xid j) b]\<rparr>)
         (owner (job_sock j)) {b} n)"
| server_resends: "failed (srvr n) = None \<Longrightarrow> pool (srvr n) = add_mset (Repeated j) P \<Longrightarrow>
     dispatch_resend j (srv (srvr n)) = ret [Send (job_sock j) b k] \<Longrightarrow>
     nstep c owner n
       (set_server ((srvr n)\<lparr>pool := P,
           events := events (srvr n) @ [SentAgain (job_clt j) (job_xid j) b]\<rparr>)
         (owner (job_sock j)) {b} n)"
| server_forgets: "failed (srvr n) = None \<Longrightarrow> pool (srvr n) = add_mset (Old j) P \<Longrightarrow>
     dispatch_forgotten c j = ret es \<Longrightarrow>
     nstep c owner n (set_server ((srvr n)\<lparr>pool := P\<rparr>) (owner (job_sock j)) (sent_packets es) n)"

abbreviation nreach :: "codec \<Rightarrow> (sock \<Rightarrow> nat) \<Rightarrow> ('r, 's) net \<Rightarrow> bool" where
  "nreach c owner \<equiv> reach net_init (nstep c owner)"

lemma set_client_simps [simp]:
  "clts (set_client i t n) j = (if j = i then t else clts n j)"
  "srvr (set_client i t n) = srvr n" "downlink (set_client i t n) = downlink n"
  "uplink (set_client i t n) j = (if j = i then uplink n i \<union> packets t else uplink n j)"
  by (simp_all add: set_client_def)

lemma set_server_simps [simp]:
  "clts (set_server t i B n) = clts n" "srvr (set_server t i B n) = t"
  "uplink (set_server t i B n) = uplink n"
  "downlink (set_server t i B n) j = (if j = i then downlink n i \<union> B else downlink n j)"
  by (simp_all add: set_server_def)

section \<open>The system runs its components\<close>

text \<open>Every step of the system is a step of one client or of the server.\<close>

lemma nstep_components:
  assumes "nstep c owner n n'"
  shows "(\<exists>i t. n' = set_client i t n \<and> cstep c (clts n i) t) \<or>
    (\<exists>t i B. n' = set_server t i B n \<and> sstep c (srvr n) t)"
  using assms
proof cases
  case (client_moves i t)
  then show ?thesis by blast
next
  case (client_reads i m b u h)
  from cstep.packet [OF client_reads(2,3,5)] client_reads(1) show ?thesis by blast
next
  case (server_moves t i)
  then show ?thesis by blast
next
  case (server_reads b k j i)
  from sstep.arrive [OF server_reads(2,3,5)] server_reads(1) show ?thesis by blast
next
  case (server_rejects b k es)
  from sstep.reject [OF server_rejects(2,3,5)] server_rejects(1) show ?thesis by blast
next
  case (server_sends j rep P b k)
  from sstep.send [OF server_sends(2-4)] server_sends(1) show ?thesis by blast
next
  case (server_resends j P b k)
  from sstep.resend [OF server_resends(2-4)] server_resends(1) show ?thesis by blast
next
  case (server_forgets j P es)
  from sstep.forgotten [OF server_forgets(2-4)] server_forgets(1) show ?thesis by blast
qed

lemma nreach_components: "nreach c owner n \<Longrightarrow> sreach c (srvr n) \<and> (\<forall>i. creach c (clts n i))"
proof (induction rule: reach.induct)
  case (reach_init n)
  then show ?case by (auto simp: net_init_def intro: reach.reach_init)
next
  case (reach_step n n')
  from nstep_components [OF reach_step.hyps(2)] show ?case
  proof (elim disjE exE conjE)
    fix i t assume "n' = set_client i t n" "cstep c (clts n i) t"
    with reach_step.IH reach.reach_step [of cconfig_init "cstep c" "clts n i" t] show ?thesis by simp
  next
    fix t i B assume "n' = set_server t i B n" "sstep c (srvr n) t"
    with reach_step.IH reach.reach_step [of config_init "sstep c" "srvr n" t] show ?thesis by simp
  qed
qed

lemma cevents_mono: "cstep c s t \<Longrightarrow> set (cevents s) \<subseteq> set (cevents t)"
  by (induction rule: cstep.induct) auto

section \<open>The invariant of the system\<close>

text \<open>
  A packet of a client shows its nonce and the transaction of a call it made; an accepted request
  came in such a packet; a packet for a client is an error of the dispatcher or was sent for the
  client's own request; and a client reads only packets that were written for it.
\<close>

definition written_by :: "codec \<Rightarrow> ('r, 's) net \<Rightarrow> nat \<Rightarrow> string \<Rightarrow> bool" where
  "written_by c n i b \<longleftrightarrow>
     (\<exists>h p. reads_request c b h \<and> req_clt_nonce h = nonce_of n i \<and>
        Made p (req_xid h) \<in> set (cevents (clts n i)))"

definition accepted :: "(sock \<Rightarrow> nat) \<Rightarrow> ('r, 's) net \<Rightarrow> 's job \<Rightarrow> bool" where
  "accepted owner n j \<longleftrightarrow>
     job_clt j = nonce_of n (owner (job_sock j)) \<and> handler_ok (job_handler j) \<and>
     (\<exists>p. Made p (job_xid j) \<in> set (cevents (clts n (owner (job_sock j)))))"

definition written_for :: "codec \<Rightarrow> ('r, 's) net \<Rightarrow> nat \<Rightarrow> string \<Rightarrow> bool" where
  "written_for c n i b \<longleftrightarrow>
     (\<exists>h. reads_reply c b h \<and>
        (rep_err h \<in> {OLDSERVER_FAILURE, ATMOST_ONCE_FAILURE} \<or> nonce_of n i = 0 \<or>
         Sent (nonce_of n i) (rep_xid h) b \<in> set (events (srvr n)) \<or>
         SentAgain (nonce_of n i) (rep_xid h) b \<in> set (events (srvr n))))"

definition brought :: "codec \<Rightarrow> ('r, 's) net \<Rightarrow> nat \<Rightarrow> unmarshall \<Rightarrow> ReplyHeader \<Rightarrow> bool" where
  "brought c n i u h \<longleftrightarrow> (\<exists>b \<in> downlink n i. got_read c b = ret (u, h))"

definition net_ok :: "codec \<Rightarrow> (sock \<Rightarrow> nat) \<Rightarrow> ('r, 's) net \<Rightarrow> bool" where
  "net_ok c owner n \<longleftrightarrow>
     (\<forall>i. (\<forall>b \<in> uplink n i. written_by c n i b) \<and> (\<forall>b \<in> downlink n i. written_for c n i b) \<and>
        packets_ok c (clts n i) \<and> calls_wf (clts n i) \<and> replies_ok (brought c n i) (clts n i)) \<and>
     answers_ok c (accepted owner n) (srvr n) \<and> handlers_ok (srv (srvr n)) \<and>
     (\<forall>i j. nonce_of n i = nonce_of n j \<and> nonce_of n i > 0 \<longrightarrow> i = j)"

lemma net_okD:
  assumes "net_ok c owner n"
  shows "b \<in> uplink n i \<Longrightarrow> written_by c n i b" and "b \<in> downlink n i \<Longrightarrow> written_for c n i b"
    and "packets_ok c (clts n i)" and "calls_wf (clts n i)"
    and "replies_ok (brought c n i) (clts n i)"
    and "answers_ok c (accepted owner n) (srvr n)" and "handlers_ok (srv (srvr n))"
    and "nonce_of n i = nonce_of n j \<Longrightarrow> nonce_of n i > 0 \<Longrightarrow> i = j"
  using assms by (auto simp: net_ok_def)

text \<open>A move of a client.\<close>

lemma net_ok_client:
  assumes "net_ok c owner n" and "wire_ok c" and "creach c (clts n i)" and "cstep c (clts n i) t"
    and "calls_wf t" and "replies_ok (brought c n i) t"
  shows "net_ok c owner (set_client i t n)"
proof -
  note ok = net_okD [OF assms(1)]
  let ?n = "set_client i t n"
  have own: "owners_ok (clts n i)" using creach_inv [OF assms(3)] by (simp add: cconfig_inv_def)
  have t: "cl_nonce (cl t) = nonce_of n i" using cstep_frame(1) [OF assms(4) own] by simp
  then have nonce: "nonce_of ?n j = nonce_of n j" for j by simp
  have ev: "set (cevents (clts n j)) \<subseteq> set (cevents (clts ?n j))" for j
    using cevents_mono [OF assms(4)] by simp
  have pk: "packets_ok c t" by (rule packets_ok_cstep [OF assms(4,2) ok(4) own ok(3)])
  have wby: "written_by c ?n j b" if "written_by c n j b" for j b
    using that ev [of j] unfolding written_by_def nonce by blast
  have new: "written_by c ?n i b" if "b \<in> packets t" for b
    using that pk t by (fastforce simp: packets_def packets_ok_def good_def written_by_def)
  have acc: "accepted owner ?n j" if "accepted owner n j" for j
    using that ev [of "owner (job_sock j)"] unfolding accepted_def nonce by blast
  have bro: "brought c ?n j = brought c n j" for j
    by (simp add: brought_def fun_eq_iff)
  have wfor: "written_for c ?n j b = written_for c n j b" for j b
    unfolding written_for_def nonce by simp
  show ?thesis
    unfolding net_ok_def
  proof (intro conjI allI ballI impI)
    show "written_by c ?n j b" if "b \<in> uplink ?n j" for j b
      using that wby new ok(1) by (auto split: if_splits)
    show "written_for c ?n j b" if "b \<in> downlink ?n j" for j b
      using that ok(2) unfolding wfor by simp
    show "packets_ok c (clts ?n j)" "calls_wf (clts ?n j)" for j
      using ok(3,4) pk assms(5) by simp_all
    show "replies_ok (brought c ?n j) (clts ?n j)" for j
      unfolding bro using ok(5) assms(6) by simp
    show "answers_ok c (accepted owner ?n) (srvr ?n)"
      using answers_ok_mono [OF ok(6) acc] by simp
    show "handlers_ok (srv (srvr ?n))" using ok(7) by simp
    show "j = k" if "nonce_of ?n j = nonce_of ?n k \<and> nonce_of ?n j > 0" for j k
      using that ok(8) unfolding nonce by blast
  qed
qed

text \<open>A move of the server, with what it writes for one client.\<close>

lemma net_ok_server:
  assumes "net_ok c owner n" and "sstep c (srvr n) t" and "answers_ok c (accepted owner n) t"
    and "handlers_ok (srv t)" and "\<And>b. b \<in> B \<Longrightarrow> written_for c (set_server t i B n) i b"
  shows "net_ok c owner (set_server t i B n)"
proof -
  note ok = net_okD [OF assms(1)]
  let ?n = "set_server t i B n"
  have wfor: "written_for c ?n j b" if "written_for c n j b" for j b
    using that events_sstep [OF assms(2)] unfolding written_for_def set_server_simps by blast
  have bro: "brought c ?n j u h" if "brought c n j u h" for j u h
    using that by (auto simp: brought_def)
  have acc: "accepted owner ?n = accepted owner n"
    by (simp add: accepted_def fun_eq_iff)
  have wby: "written_by c ?n j b = written_by c n j b" for j b
    by (simp add: written_by_def)
  show ?thesis
    unfolding net_ok_def
  proof (intro conjI allI ballI impI)
    show "written_by c ?n j b" if "b \<in> uplink ?n j" for j b
      using that ok(1) unfolding wby by simp
    show "written_for c ?n j b" if "b \<in> downlink ?n j" for j b
      using that wfor ok(2) assms(5) by (auto split: if_splits)
    show "packets_ok c (clts ?n j)" "calls_wf (clts ?n j)" for j
      using ok(3,4) by simp_all
    show "replies_ok (brought c ?n j) (clts ?n j)" for j
      using replies_ok_mono [OF ok(5) bro] by simp
    show "answers_ok c (accepted owner ?n) (srvr ?n)" unfolding acc using assms(3) by simp
    show "handlers_ok (srv (srvr ?n))" using assms(4) by simp
    show "j = k" if "nonce_of ?n j = nonce_of ?n k \<and> nonce_of ?n j > 0" for j k
      using ok(8) [of j k] that by auto
  qed
qed

lemma lookup_found_reads:
  assumes "dispatch_lookup c (Some k) b v = ret (Found j)"
  shows "job_sock j = k" and "reads_request c b (job_hdr j)"
  using dispatch_lookup_FoundD [OF assms] by (auto simp: reads_request_def)

lemma dispatch_lookup_RejectedD:
  assumes "dispatch_lookup c (Some k) b v = ret (Rejected es)"
  obtains x where "header_reply c k x OLDSERVER_FAILURE Checked = ret es"
  using assms by (auto simp: dispatch_lookup_def res_simps split: if_splits option.splits)

lemma pc_ok_enter: "J j \<Longrightarrow> pc_ok c J (enter j)"
  by (simp add: enter_def)

lemma accepted_found:
  assumes "net_ok c owner n" and "b \<in> uplink n (owner k)"
    and "dispatch_lookup c (Some k) b (srv (srvr n)) = ret (Found j)"
  shows "accepted owner n j"
proof -
  note j = lookup_found_reads [OF assms(3)]
  obtain h p where "reads_request c b h" "req_clt_nonce h = nonce_of n (owner k)"
    "Made p (req_xid h) \<in> set (cevents (clts n (owner k)))"
    using net_okD(1) [OF assms(1,2)] by (auto simp: written_by_def)
  moreover have "h = job_hdr j" by (rule reads_request_unique [OF calculation(1) j(2)])
  moreover have "handler_ok (job_handler j)"
    using net_okD(7) [OF assms(1)] dispatch_lookup_FoundD(5) [OF assms(3)]
    by (auto simp: handlers_ok_def intro: ranI)
  ultimately show ?thesis using j(1) by (auto simp: accepted_def)
qed

text \<open>What the dispatcher writes without a handler reads as one of its two errors.\<close>

lemma header_reply_written_for:
  assumes "wire_ok c" and "header_reply c k x e q = ret es"
    and "e \<in> {OLDSERVER_FAILURE, ATMOST_ONCE_FAILURE}" and "b \<in> sent_packets es"
  shows "written_for c n i b"
proof -
  obtain k' q' where "Send k' b q' \<in> set es" using assms(4) by (auto simp: sent_packets_def)
  moreover have "wf_Err e" using assms(3) by auto
  ultimately have "reads_reply c b \<lparr>rep_xid = x, rep_err = e\<rparr>"
    using header_reply_reads(1) [OF assms(1,2)] by blast
  with assms(3) show ?thesis by (fastforce simp: written_for_def)
qed

text \<open>A client reads one of its packets.\<close>

lemma net_ok_reads:
  assumes "net_ok c owner n" and "wire_ok c" and "creach c (clts n i)" and "crashed (clts n i) = None"
    and "receives (clts n i) = Suc m" and "b \<in> downlink n i" and "got_read c b = ret (u, h)"
  shows "net_ok c owner (set_client i
    (settle (got_update h (cl (clts n i))) (add_mset (Received u h) (threads (clts n i)))
      [Got (rep_xid h)] ((clts n i)\<lparr>receives := m\<rparr>)) n)"
    (is "net_ok c owner (set_client i ?t n)")
proof (rule net_ok_client [OF assms(1-3) cstep.packet [OF assms(4,5,7)]])
  note ok = net_okD [OF assms(1)]
  have "brought c n i u h" using assms(6,7) by (auto simp: brought_def)
  then show "replies_ok (brought c n i) ?t" using ok(5) [of i] by (auto simp: replies_ok_def)
  show "calls_wf ?t" using ok(4) [of i] by (auto simp: calls_wf_def)
qed

text \<open>The server moves on without accepting a packet.\<close>

lemma net_ok_serves:
  assumes "net_ok c owner n" and "wire_ok c" and "sreach c (srvr n)" and "sstep c (srvr n) t"
    and "size (pool t) \<le> size (pool (srvr n))" and "handlers_ok (srv t)"
    and "\<And>b. answers_ok c (accepted owner n) t \<Longrightarrow> sreach c t \<Longrightarrow> b \<in> B \<Longrightarrow>
       written_for c (set_server t i B n) i b"
  shows "net_ok c owner (set_server t i B n)"
proof -
  have "handler_ok (job_handler j)" if "accepted owner n j" for j
    using that by (simp add: accepted_def)
  then have a: "answers_ok c (accepted owner n) t"
    using answers_ok_sstep [OF assms(4,2,5)] net_okD(6) [OF assms(1)] by blast
  from net_ok_server [OF assms(1,4) a assms(6) assms(7) [OF a reach_step [OF assms(3,4)]]]
  show ?thesis .
qed

lemma net_ok_sends:
  assumes "net_ok c owner n" and "wire_ok c" and "sreach c (srvr n)" and "failed (srvr n) = None"
    and "pool (srvr n) = add_mset (Answered j rep) P"
    and "dispatch_send c j rep = ret [Send (job_sock j) b k]"
  shows "net_ok c owner (set_server ((srvr n)\<lparr>pool := P,
      events := events (srvr n) @ [Sent (job_clt j) (job_xid j) b]\<rparr>) (owner (job_sock j)) {b} n)"
proof (rule net_ok_serves [OF assms(1-3) sstep.send [OF assms(4-6)]])
  have j: "accepted owner n j" "reply_for c (job_xid j) rep"
    using net_okD(6) [OF assms(1)] assms(5) by (auto simp: answers_ok_def)
  have "Marshall_Buf c rep = ret b" using assms(6) by (auto simp: dispatch_send_def res_simps)
  with j(2) obtain e where "reads_reply c b \<lparr>rep_xid = job_xid j, rep_err = e\<rparr>"
    by (auto simp: reply_for_def)
  with j(1) show "written_for c (set_server ((srvr n)\<lparr>pool := P,
      events := events (srvr n) @ [Sent (job_clt j) (job_xid j) b]\<rparr>) (owner (job_sock j)) {b} n)
      (owner (job_sock j)) b'" if "b' \<in> {b}" for b'
    using that by (fastforce simp: written_for_def accepted_def)
qed (use net_okD(7) [OF assms(1)] assms(5) in simp_all)

lemma net_ok_resends:
  assumes "net_ok c owner n" and "wire_ok c" and "sreach c (srvr n)" and "failed (srvr n) = None"
    and "pool (srvr n) = add_mset (Repeated j) P"
    and "dispatch_resend j (srv (srvr n)) = ret [Send (job_sock j) b k]"
  shows "net_ok c owner (set_server ((srvr n)\<lparr>pool := P,
      events := events (srvr n) @ [SentAgain (job_clt j) (job_xid j) b]\<rparr>) (owner (job_sock j)) {b} n)"
    (is "net_ok c owner (set_server ?t _ _ n)")
proof (rule net_ok_serves [OF assms(1-3) sstep.resend [OF assms(4-6)]])
  have j: "accepted owner n j" "job_clt j > 0"
    using net_okD(6) [OF assms(1)] assms(5) by (auto simp: answers_ok_def)
  fix b' assume a: "answers_ok c (accepted owner n) ?t" and r: "sreach c ?t" and "b' \<in> {b}"
  have "Recorded (job_clt j) (job_xid j) b \<in> set (events ?t)"
    by (rule sent_is_recorded [OF r j(2)]) simp
  with a obtain e where "reads_reply c b \<lparr>rep_xid = job_xid j, rep_err = e\<rparr>"
    unfolding answers_ok_def by blast
  with j(1) \<open>b' \<in> {b}\<close>
  show "written_for c (set_server ?t (owner (job_sock j)) {b} n) (owner (job_sock j)) b'"
    by (fastforce simp: written_for_def accepted_def)
qed (use net_okD(7) [OF assms(1)] assms(5) in simp_all)

lemma net_ok_nstep:
  assumes "nstep c owner n n'" and "wire_ok c" and "nreach c owner n" and "net_ok c owner n"
  shows "net_ok c owner n'"
proof -
  note ok = net_okD [OF assms(4)]
  have cr: "creach c (clts n i)" for i using nreach_components [OF assms(3)] by simp
  have sr: "sreach c (srvr n)" using nreach_components [OF assms(3)] by simp
  show ?thesis
    using assms(1)
  proof cases
    case (client_moves i t)
    show ?thesis unfolding client_moves(1)
      by (rule net_ok_client [OF assms(4,2) cr client_moves(2,4)
            replies_ok_cstep [OF client_moves(2,3) ok(5)]])
  next
    case (client_reads i m b u h)
    then show ?thesis using net_ok_reads [OF assms(4,2) cr] by blast
  next
    case (server_moves t i)
    show ?thesis unfolding server_moves(1)
      by (rule net_ok_serves [OF assms(4,2) sr server_moves(2-4)]) simp
  next
    case (server_reads b k j i)
    have "accepted owner n j" by (rule accepted_found [OF assms(4) server_reads(4,5)])
    then show ?thesis unfolding server_reads(1)
      using ok(6,7)
      by (intro net_ok_server [OF assms(4) sstep.arrive [OF server_reads(2,3,5)]])
         (auto simp: answers_ok_def pc_ok_enter)
  next
    case (server_rejects b k es)
    obtain x where "header_reply c k x OLDSERVER_FAILURE Checked = ret es"
      using server_rejects(5) by (rule dispatch_lookup_RejectedD)
    then show ?thesis unfolding server_rejects(1)
      using ok(6,7)
      by (intro net_ok_server [OF assms(4) sstep.reject [OF server_rejects(2,3,5)]])
         (auto intro: header_reply_written_for [OF assms(2)])
  next
    case (server_sends j rep P b k)
    then show ?thesis using net_ok_sends [OF assms(4,2) sr] by blast
  next
    case (server_resends j P b k)
    then show ?thesis using net_ok_resends [OF assms(4,2) sr] by blast
  next
    case (server_forgets j P es)
    then have "header_reply c (job_sock j) (job_xid j) ATMOST_ONCE_FAILURE Unchecked = ret es"
      by (simp add: dispatch_forgotten_def)
    then show ?thesis unfolding server_forgets(1)
      using ok(7) server_forgets(3)
      by (intro net_ok_serves [OF assms(4,2) sr sstep.forgotten [OF server_forgets(2-4)]])
         (auto intro: header_reply_written_for [OF assms(2)])
  qed
qed

lemma net_ok_init: "net_init n \<Longrightarrow> net_ok c owner n"
proof -
  assume i: "net_init n"
  have "heap (cl (clts n j)) = Map.empty" "threads (clts n j) = {#}" "cevents (clts n j) = []" for j
    using i RpcClient_newD(2) unfolding net_init_def cconfig_init_def by metis+
  then show ?thesis
    using i by (auto simp: net_ok_def net_init_def packets_ok_def calls_wf_def replies_ok_def
        answers_ok_def config_init_def)
qed

lemma nreach_ok: "nreach c owner n \<Longrightarrow> wire_ok c \<Longrightarrow> net_ok c owner n"
  by (induction rule: reach.induct) (auto intro: net_ok_init net_ok_nstep)

section \<open>An example run\<close>

text \<open>
  Client \<open>0\<close> has nonce \<open>5\<close>, the others have none; it makes one call, which the server executes and
  answers over connection \<open>0\<close>, and whose reply it reads.
\<close>

definition net_handler :: "unit handler" where
  "net_handler = make_handler (\<lambda>j. ret ()) (\<lambda>_. JUint 0) (\<lambda>_ s. (ret (OK, ()), s))"

definition net_server :: "unit server" where
  "net_server =
     \<lparr>srv_nonce = 9, procs = [BIND \<mapsto> net_handler], wins = windows_new, client_sockets = [],
      alive = [], stoped = False, num_worker = 2, app = ()\<rparr>"

definition net_demo :: "(unit, unit) net" where
  "net_demo =
     \<lparr>clts = (\<lambda>i. demo_s (demo_v0 (if i = 0 then 5 else 0)) {#} {#} {#} {#} 0 []),
      srvr = \<lparr>srv = net_server, pool = {#}, failed = None, events = []\<rparr>,
      uplink = (\<lambda>i. {}), downlink = (\<lambda>i. {})\<rparr>"

lemma handler_ok_demo: "handler_ok net_handler"
  unfolding net_handler_def by (rule handler_ok_make_handler) auto

lemma handlers_ok_net_server: "procs v = procs net_server \<Longrightarrow> handlers_ok v"
  by (simp add: handlers_ok_def net_server_def handler_ok_demo)

lemma net_demo_init: "nreach c owner net_demo"
proof (rule reach_init)
  have "cconfig_init (demo_s (demo_v0 (if r then 5 else 0)) {#} {#} {#} {#} 0 [])" for r
  proof -
    have "\<exists>h q n r' rnd. RpcClient_new True True h q n r' rnd = ret (demo_v0 (if r then 5 else 0))"
      by (intro exI [of _ "[]"] exI [of _ 2] exI [of _ r] exI [of _ 5])
         (simp add: RpcClient_new_def demo_v0_def)
    then show ?thesis unfolding cconfig_init_def by (simp add: demo_s_def)
  qed
  from this [of True] this [of False] have "cconfig_init (clts net_demo i)" for i
    by (simp add: net_demo_def)
  then show "net_init net_demo"
    by (simp add: net_init_def config_init_def net_demo_def handlers_ok_def net_server_def
        handler_ok_demo)
qed

text \<open>One step of client \<open>0\<close>, and what it leaves.\<close>

lemma move_client:
  assumes "nreach c owner n" and "cstep c (clts n i) t" and "replies_got t = replies_got (clts n i)"
    and "calls_wf t"
  obtains n' where "nreach c owner n'" and "clts n' i = t" and "srvr n' = srvr n"
    and "downlink n' = downlink n" and "uplink n i \<union> packets t \<subseteq> uplink n' i"
  by (rule that [of "set_client i t n"])
     (use reach_step [OF assms(1) nstep.client_moves [OF assms(2-4)]] in auto)

lemma move_server:
  assumes "nreach c owner n" and "sstep c (srvr n) t" and "size (pool t) \<le> size (pool (srvr n))"
    and "handlers_ok (srv t)"
  obtains n' where "nreach c owner n'" and "clts n' = clts n" and "srvr n' = t"
  by (rule that [of "set_server t 0 {} n"])
     (use reach_step [OF assms(1) nstep.server_moves [OF assms(2-4)]] in auto)

lemma calls_wf_simps [simp]:
  "calls_wf (demo_s v {#} A X S n E)" "calls_wf (demo_s v {#Requested p#} A X S n E)"
  "calls_wf (demo_s v {#Registered q demo_req p#} A X S n E)"
  "calls_wf (demo_s v {#Taken u h p#} A X S n E)" "calls_wf (demo_s v {#Marked u h p#} A X S n E)"
  using Marshall_put_wf [OF wf_marshall_new demo_arg(1)] demo_req_put
  by (auto simp: calls_wf_def)

lemma replies_got_demo [simp]:
  "replies_got (demo_s v T A X S n E) = concat (map got E)"
  by (simp add: replies_got_def)

text \<open>The call is sent, and the client waits for its reply.\<close>

lemma net_requested:
  obtains n b u where "nreach demo_codec (\<lambda>k. 0) n" and "b \<in> uplink n 0" and "srvr n = srvr net_demo"
    and "clts n 0 = demo_s (demo_v1 5 False OK b) {#Requested 0#} {#} {#} {#} 1 [Made 0 2]"
    and "Unmarshall_of demo_codec b = ret u"
    and "Unmarshall_get_req u = ret \<lparr>req_xid = 2, req_proc = BIND, req_clt_nonce = 5,
           req_srv_nonce = 0, req_xid_rep = 0\<rparr>"
    and "Unmarshall_get (\<lambda>j. ret ()) u = ret ((), u\<lparr>un_id := 1\<rparr>)"
proof -
  let ?h = "\<lparr>req_xid = 2, req_proc = BIND, req_clt_nonce = 5, req_srv_nonce = 0, req_xid_rep = 0\<rparr>"
  obtain b m u where s: "cstep demo_codec (demo_s (demo_v0 5) {#} {#} {#} {#} 0 [])
      (demo_s (demo_v1 5 False OK []) {#Registered BIND demo_req 0#} {#} {#} {#} 0 [Made 0 2])"
    "cstep demo_codec
      (demo_s (demo_v1 5 False OK []) {#Registered BIND demo_req 0#} {#} {#} {#} 0 [Made 0 2])
      (demo_s (demo_v1 5 False OK b) {#Requested 0#} {#} {#} {#2#} 0 [Made 0 2])"
    and u: "Unmarshall_of demo_codec b = ret u" "Unmarshall_get_req u = ret ?h"
      "Unmarshall_get (\<lambda>j. ret ()) u = ret ((), u\<lparr>un_id := 1\<rparr>)"
    by (rule demo_request_steps [of 5])
  have "b \<noteq> []"
  proof
    assume "b = []"
    with u(1) show False
      by (auto simp: Unmarshall_of_def Unmarshall_TakeBuf_def json_codec_def
          parse_text_def skip_bom_def)
  qed
  have c0: "cstep demo_codec (clts net_demo 0)
      (demo_s (demo_v1 5 False OK []) {#Registered BIND demo_req 0#} {#} {#} {#} 0 [Made 0 2])"
    using s(1) by (simp add: net_demo_def)
  obtain n1 where n1: "nreach demo_codec (\<lambda>k. 0) n1" "srvr n1 = srvr net_demo"
    "clts n1 0 = demo_s (demo_v1 5 False OK []) {#Registered BIND demo_req 0#} {#} {#} {#} 0
      [Made 0 2]"
    by (rule move_client [OF net_demo_init [of demo_codec "\<lambda>k. 0"] c0]) (simp_all add: net_demo_def)
  have c1: "cstep demo_codec (clts n1 0)
      (demo_s (demo_v1 5 False OK b) {#Requested 0#} {#} {#} {#2#} 0 [Made 0 2])"
    using s(2) n1(3) by simp
  obtain n2 where n2: "nreach demo_codec (\<lambda>k. 0) n2" "srvr n2 = srvr net_demo"
    "clts n2 0 = demo_s (demo_v1 5 False OK b) {#Requested 0#} {#} {#} {#2#} 0 [Made 0 2]"
    "packets (clts n2 0) \<subseteq> uplink n2 0"
    by (rule move_client [OF n1(1) c1]) (simp_all add: n1)
  have up: "b \<in> uplink n2 0"
    using n2(3,4) \<open>b \<noteq> []\<close> by (force simp: packets_def)
  have c2: "cstep demo_codec (clts n2 0)
      (demo_s (demo_v1 5 False OK b) {#Requested 0#} {#} {#} {#} 1 [Made 0 2])"
    using cstep.sent [of "clts n2 0" 2 "{#}" demo_codec] n2(3) by (simp add: ListenFromServer_def)
  obtain n3 where n3: "nreach demo_codec (\<lambda>k. 0) n3" "srvr n3 = srvr net_demo"
    "clts n3 0 = demo_s (demo_v1 5 False OK b) {#Requested 0#} {#} {#} {#} 1 [Made 0 2]"
    "uplink n2 0 \<subseteq> uplink n3 0"
    by (rule move_client [OF n2(1) c2]) (simp_all add: n2)
  from that [OF n3(1) _ n3(2,3) u] up n3(4) show thesis by blast
qed

text \<open>The server accepts the packet and admits the request.\<close>

lemma net_admitted:
  obtains n :: "(unit, unit) net" and j v b where "nreach demo_codec (\<lambda>k. 0) n"
    and "srvr n = \<lparr>srv = v, pool = {#Admitted j#}, failed = None, events = []\<rparr>"
    and "procs v = procs net_server" and "job_clt j = 5" and "job_xid j = 2" and "job_sock j = 0"
    and "job_handler j = net_handler"
    and "Unmarshall_get (\<lambda>j. ret ()) (job_req j) = ret ((), (job_req j)\<lparr>un_id := 1\<rparr>)"
    and "wins v = \<lparr>reply_window = [5 \<mapsto> [ReplyT_new 2]], max_ackowledged_rep = [5 \<mapsto> 0]\<rparr>"
    and "clts n 0 = demo_s (demo_v1 5 False OK b) {#Requested 0#} {#} {#} {#} 1 [Made 0 2]"
proof -
  let ?c = demo_codec and ?o = "\<lambda>k :: sock. 0 :: nat"
  let ?h = "\<lparr>req_xid = 2, req_proc = BIND, req_clt_nonce = 5, req_srv_nonce = 0, req_xid_rep = 0\<rparr>"
  obtain n0 b u where n0: "nreach ?c ?o n0" "b \<in> uplink n0 0" "srvr n0 = srvr net_demo"
    "clts n0 0 = demo_s (demo_v1 5 False OK b) {#Requested 0#} {#} {#} {#} 1 [Made 0 2]"
    and u: "Unmarshall_of ?c b = ret u" "Unmarshall_get_req u = ret ?h"
      "Unmarshall_get (\<lambda>j. ret ()) u = ret ((), u\<lparr>un_id := 1\<rparr>)"
    by (rule net_requested)
  define j where "j = \<lparr>job_sock = 0, job_req = u, job_hdr = ?h, job_handler = net_handler\<rparr>"
  have j: "job_clt j = 5" "job_xid j = 2" "job_sock j = 0" "req_xid_rep (job_hdr j) = 0"
    "job_handler j = net_handler" "job_req j = u" by (simp_all add: j_def)
  have srv0: "srvr n0 = \<lparr>srv = net_server, pool = {#}, failed = None, events = []\<rparr>"
    using n0(3) by (simp add: net_demo_def)
  have lk: "dispatch_lookup ?c (Some 0) b (srv (srvr n0)) = ret (Found j)"
    unfolding j_def by (rule dispatch_lookup_FoundI [OF u(1,2)]) (simp_all add: srv0 net_server_def)
  define n1 where "n1 = set_server ((srvr n0)\<lparr>pool := add_mset (enter j) (pool (srvr n0))\<rparr>) 0 {} n0"
  have n1: "nreach ?c ?o n1"
    unfolding n1_def
    by (rule reach_step [OF n0(1) nstep.server_reads [where k = 0, OF _ _ _ lk]])
       (use n0(2) in \<open>simp_all add: srv0 net_server_def\<close>)
  have s1: "srvr n1 = \<lparr>srv = net_server, pool = {#Looked j#}, failed = None, events = []\<rparr>"
    "clts n1 = clts n0"
    by (simp_all add: n1_def srv0 enter_def j)
  let ?v1 = "dispatch_known j net_server"
  obtain n2 where n2: "nreach ?c ?o n2" "clts n2 = clts n0"
    "srvr n2 = \<lparr>srv = ?v1, pool = {#Known j#}, failed = None, events = []\<rparr>"
    by (rule move_server [OF n1 sstep.known [where j = j and P = "{#}"]])
       (simp_all add: s1 dispatch_known_def handlers_ok_net_server)
  obtain v2 where v2: "dispatch_check j ?v1 = (NEW, v2)" "procs v2 = procs net_server"
    "wins v2 = \<lparr>reply_window = [5 \<mapsto> [ReplyT_new 2]], max_ackowledged_rep = [5 \<mapsto> 0]\<rparr>"
    by (simp add: dispatch_check_def dispatch_known_def j net_server_def EnsureWindow_def
        windows_new_def CheckDuplicateAndUpdate_def acked_def window_of_def Let_def ReplyT_new_def)
  obtain n3 where "nreach ?c ?o n3" "clts n3 = clts n0"
    "srvr n3 = \<lparr>srv = v2, pool = {#Admitted j#}, failed = None, events = []\<rparr>"
    by (rule move_server [OF n2(1) sstep.check [where j = j and P = "{#}" and st = NEW and v = v2]])
       (use v2 n2 in \<open>simp_all add: handlers_ok_net_server\<close>)
  with that v2 j n0(4) u(3) show thesis by simp
qed

text \<open>Its handler runs, the reply is recorded and sent.\<close>

lemma net_answered:
  obtains n :: "(unit, unit) net" and b rb u where "nreach demo_codec (\<lambda>k. 0) n" and "rb \<in> downlink n 0"
    and "Exec 5 2 \<in> set (events (srvr n))"
    and "clts n 0 = demo_s (demo_v1 5 False OK b) {#Requested 0#} {#} {#} {#} 1 [Made 0 2]"
    and "got_read demo_codec rb = ret (u, \<lparr>rep_xid = 2, rep_err = OK\<rparr>)"
    and "demo_re u = ret (Any_value ())"
proof -
  let ?c = demo_codec and ?o = "\<lambda>k :: sock. 0 :: nat"
  obtain n3 :: "(unit, unit) net" and j v2 b where n3: "nreach ?c ?o n3"
    "srvr n3 = \<lparr>srv = v2, pool = {#Admitted j#}, failed = None, events = []\<rparr>"
    and v2: "procs v2 = procs net_server"
      "wins v2 = \<lparr>reply_window = [5 \<mapsto> [ReplyT_new 2]], max_ackowledged_rep = [5 \<mapsto> 0]\<rparr>"
    and j: "job_clt j = 5" "job_xid j = 2" "job_sock j = 0" "job_handler j = net_handler"
      "Unmarshall_get (\<lambda>j. ret ()) (job_req j) = ret ((), (job_req j)\<lparr>un_id := 1\<rparr>)"
    and cl: "clts n3 0 = demo_s (demo_v1 5 False OK b) {#Requested 0#} {#} {#} {#} 1 [Made 0 2]"
    by (rule net_admitted)
  let ?r = "\<lparr>rep_xid = 2, rep_err = OK\<rparr>"
  obtain m0 m rb u where m: "Marshall_put (JUint 0) Marshall_new = ret m0" "Marshall_put_rep ?r m0 = ret m"
    and rb: "Marshall_Buf ?c m = ret rb"
    and u: "Unmarshall_of ?c rb = ret u" "Unmarshall_get_rep u = ret ?r"
    and g: "\<And>conv :: json \<Rightarrow> unit any res. Unmarshall_get conv u =
      bind_res (conv (canon (JUint 0))) (\<lambda>x. ret (x, u\<lparr>un_id := 1\<rparr>))"
    by (rule jw.reply_read [where t = "JUint 0" and r = ?r and fl = "\<lambda>d. []" and
          strtod = "\<lambda>s. 0", OF demo_arg]) (rule that; assumption)
  have "job_handler j (job_req j) Marshall_new (app v2) = (ret (OK, m0), app v2)"
    by (simp add: j(4) net_handler_def make_handler_def j(5) m(1))
  then have ex: "dispatch_execute j v2 = (ret m, v2)"
    using m(2) by (simp add: dispatch_execute_def j)
  obtain n4 where n4: "nreach ?c ?o n4" "clts n4 = clts n3"
    "srvr n4 = \<lparr>srv = v2, pool = {#Executed j m#}, failed = None, events = [Exec 5 2]\<rparr>"
    by (rule move_server [OF n3(1) sstep.execute [where j = j and P = "{#}" and rep = m and v = v2]])
       (use v2 n3 ex in \<open>simp_all add: handlers_ok_net_server executed_def j\<close>)
  obtain v5 where v5: "dispatch_record ?c j m v2 = ret v5" "procs v5 = procs net_server"
    by (simp add: dispatch_record_def rb AddReply_def v2 j ReplyT_new_def)
  obtain n5 where n5: "nreach ?c ?o n5" "clts n5 = clts n3" "srvr n5 =
      \<lparr>srv = v5, pool = {#Answered j m#}, failed = None, events = [Exec 5 2, Recorded 5 2 rb]\<rparr>"
    by (rule move_server [OF n4(1)
          sstep.record_reply [where j = j and P = "{#}" and rep = m and v = v5 and b = rb]])
       (use v5 n4 rb in \<open>simp_all add: handlers_ok_net_server j\<close>)
  let ?t = "(srvr n5)\<lparr>pool := {#}, events := events (srvr n5) @ [Sent (job_clt j) (job_xid j) rb]\<rparr>"
  have "nreach ?c ?o (set_server ?t (?o (job_sock j)) {rb} n5)"
    by (rule reach_step [OF n5(1)
          nstep.server_sends [where j = j and P = "{#}" and rep = m and b = rb and k = Checked]])
       (simp_all add: n5 dispatch_send_def rb)
  moreover have "demo_re u = ret (Any_value ())" by (simp add: demo_re_def ReplyExtractor_def g)
  ultimately show thesis
    using that [of "set_server ?t 0 {rb} n5" rb b u] got_read_eq [OF u] cl n5 by simp
qed

text \<open>The client reads the reply and runs the callback.\<close>

lemma net_delivery:
  obtains n n' :: "(unit, unit) net" where "nreach demo_codec (\<lambda>k. 0) n"
    and "nstep demo_codec (\<lambda>k. 0) n n'" and "cevents (clts n 0) = [Made 0 2, Got 2]"
    and "cevents (clts n' 0) = [Made 0 2, Got 2, Delivered 0 (Some 2) OK]"
    and "nonce_of n 0 = 5" and "nonce_of n' 0 = 5"
    and "srvr n' = srvr n" and "Exec 5 2 \<in> set (events (srvr n))"
proof -
  let ?c = demo_codec and ?o = "\<lambda>k :: sock. 0 :: nat"
  obtain n :: "(unit, unit) net" and b rb u where n: "nreach ?c ?o n" "rb \<in> downlink n 0" "Exec 5 2 \<in> set (events (srvr n))"
    "clts n 0 = demo_s (demo_v1 5 False OK b) {#Requested 0#} {#} {#} {#} 1 [Made 0 2]"
    and u: "got_read ?c rb = ret (u, \<lparr>rep_xid = 2, rep_err = OK\<rparr>)"
      and re: "demo_re u = ret (Any_value ())"
    by (rule net_answered)
  let ?h = "\<lparr>rep_xid = 2, rep_err = OK\<rparr> :: ReplyHeader"
  let ?v1 = "got_update ?h (demo_v1 5 False OK b)" and ?T = "{#Requested 0#} :: cpc multiset"
  let ?E = "[Made 0 2, Got 2]"
  have "nreach ?c ?o (set_client 0 (settle (got_update ?h (cl (clts n 0)))
      (add_mset (Received u ?h) (threads (clts n 0))) [Got (rep_xid ?h)]
      ((clts n 0)\<lparr>receives := 0\<rparr>)) n)"
    by (rule reach_step [OF n(1) nstep.client_reads [OF _ _ n(2) u]]) (simp_all add: n(4))
  moreover define n1 where "n1 = set_client 0 (settle (got_update ?h (cl (clts n 0)))
      (add_mset (Received u ?h) (threads (clts n 0))) [Got (rep_xid ?h)]
      ((clts n 0)\<lparr>receives := 0\<rparr>)) n"
  ultimately have n1: "nreach ?c ?o n1" "srvr n1 = srvr n"
    "clts n1 0 = demo_s ?v1 (add_mset (Received u ?h) ?T) {#} {#} {#} 0 ?E"
    by (simp_all add: n(4) made_def got_update_def)
  obtain v3 where s:
    "cstep ?c (demo_s ?v1 (add_mset (Received u ?h) ?T) {#} {#} {#} 0 ?E)
       (demo_s (?v1\<lparr>callers := Map.empty\<rparr>) (add_mset (Taken u ?h 0) ?T) {#} {#} {#} 0 ?E)"
    "cstep ?c (demo_s (?v1\<lparr>callers := Map.empty\<rparr>) (add_mset (Taken u ?h 0) ?T) {#} {#} {#} 0 ?E)
       (demo_s v3 (add_mset (Marked u ?h 0) ?T) {#} {#} {#} 0 ?E)"
    "cstep ?c (demo_s v3 (add_mset (Marked u ?h 0) ?T) {#} {#} {#} 0 ?E)
       (demo_s (demo_v2 5) ?T {#} {#} {#} 0 [Made 0 2, Got 2, Delivered 0 (Some 2) OK])"
    using demo_answer_steps [OF u _ re, of "{#}" 5 b ?T "{#}" "{#}" "[Made 0 2]"] by auto
  have wf: "calls_wf (demo_s v (add_mset (Taken u ?h 0) ?T) {#} {#} {#} 0 E)"
    "calls_wf (demo_s v (add_mset (Marked u ?h 0) ?T) {#} {#} {#} 0 E)" for v E
    by (simp_all add: calls_wf_def)
  obtain n2 where n2: "nreach ?c ?o n2" "srvr n2 = srvr n"
    "clts n2 0 = demo_s (?v1\<lparr>callers := Map.empty\<rparr>) (add_mset (Taken u ?h 0) ?T) {#} {#} {#} 0 ?E"
    by (rule move_client [OF n1(1) s(1) [folded n1(3)]]) (simp_all add: n1 wf)
  obtain n3 where n3: "nreach ?c ?o n3" "srvr n3 = srvr n"
    "clts n3 0 = demo_s v3 (add_mset (Marked u ?h 0) ?T) {#} {#} {#} 0 ?E"
    by (rule move_client [OF n2(1) s(2) [folded n2(3)]]) (simp_all add: n2 wf)
  let ?t = "demo_s (demo_v2 5) ?T {#} {#} {#} 0 [Made 0 2, Got 2, Delivered 0 (Some 2) OK]"
  have "nstep ?c ?o n3 (set_client 0 ?t n3)"
    by (rule nstep.client_moves [OF s(3) [folded n3(3)]]) (simp_all add: n3(3))
  moreover have "nonce_of n3 0 = 5"
    using cstep_frame(1) [OF s(3) [folded n3(3)]] creach_inv [of ?c "clts n3 0"]
      nreach_components [OF n3(1)] by (simp add: cconfig_inv_def demo_v2_def)
  ultimately show thesis
    by (intro that [OF n3(1), of "set_client 0 ?t n3"])
       (simp_all add: n3(2,3) n(3) demo_v2_def)
qed

lemma net_delivered:
  obtains n :: "(unit, unit) net" where "nreach demo_codec (\<lambda>k. 0) n"
    and "Delivered 0 (Some 2) OK \<in> set (cevents (clts n 0))" and "nonce_of n 0 = 5"
    and "Exec 5 2 \<in> set (events (srvr n))"
proof -
  obtain n n' :: "(unit, unit) net" where "nreach demo_codec (\<lambda>k. 0) n"
    "nstep demo_codec (\<lambda>k. 0) n n'"
    "cevents (clts n' 0) = [Made 0 2, Got 2, Delivered 0 (Some 2) OK]" "nonce_of n' 0 = 5"
    "srvr n' = srvr n" "Exec 5 2 \<in> set (events (srvr n))"
    by (rule net_delivery)
  then show thesis by (intro that [of n']) (auto intro: reach_step)
qed

section \<open>Properties\<close>

text \<open>
  C1: exactly once, over the whole system. When a client with a nonce has run a callback for a
  reply that is no error of the dispatcher, the call was made under the reply's transaction, the
  server has run the handler exactly once for it and has recorded exactly one reply, which is the
  text the client read, and the callback has run exactly once; however threads interleave, and
  however often requests and replies were lost, repeated or delayed.
\<close>

theorem exactly_once:
  assumes "wire_ok c" and "nreach c owner n" and "nonce_of n i > 0"
    and "Delivered p (Some x) e \<in> set (cevents (clts n i))"
    and "e \<noteq> OLDSERVER_FAILURE" and "e \<noteq> ATMOST_ONCE_FAILURE"
  shows "Made p x \<in> set (cevents (clts n i)) \<and> deliveries (clts n i) p = 1 \<and>
    count_list (events (srvr n)) (Exec (nonce_of n i) x) = 1 \<and>
    (\<exists>b. count_list (events (srvr n)) (Recorded (nonce_of n i) x b) = 1 \<and>
       reads_reply c b \<lparr>rep_xid = x, rep_err = e\<rparr>)"
proof -
  note ok = net_okD [OF nreach_ok [OF assms(2,1)]]
  have cr: "creach c (clts n i)" and sr: "sreach c (srvr n)"
    using nreach_components [OF assms(2)] by simp_all
  have "Made p x \<in> set (cevents (clts n i))" by (rule delivered_origin [OF cr assms(4)])
  moreover have "deliveries (clts n i) p \<le> 1"
    using deliveries_bound [OF cr, of p] no_failures_with_nonce [OF cr assms(3), of p] by simp
  moreover have "deliveries (clts n i) p \<noteq> 0"
    using assms(4) by (force simp: deliveries_def filter_empty_conv)
  moreover obtain b u where b: "b \<in> downlink n i" "got_read c b = ret (u, \<lparr>rep_xid = x, rep_err = e\<rparr>)"
    using ok(5) [of i] assms(4) by (fastforce simp: replies_ok_def brought_def)
  then have rd: "reads_reply c b \<lparr>rep_xid = x, rep_err = e\<rparr>" by (auto simp: reads_reply_def)
  from ok(2) [OF b(1)] obtain h where h: "reads_reply c b h"
    "rep_err h \<in> {OLDSERVER_FAILURE, ATMOST_ONCE_FAILURE} \<or> nonce_of n i = 0 \<or>
      Sent (nonce_of n i) (rep_xid h) b \<in> set (events (srvr n)) \<or>
      SentAgain (nonce_of n i) (rep_xid h) b \<in> set (events (srvr n))"
    by (auto simp: written_for_def)
  have "h = \<lparr>rep_xid = x, rep_err = e\<rparr>" by (rule reads_reply_unique [OF h(1) rd])
  with h(2) assms(3,5,6) have "Sent (nonce_of n i) x b \<in> set (events (srvr n)) \<or>
      SentAgain (nonce_of n i) x b \<in> set (events (srvr n))" by auto
  from answered_once [OF sr assms(3) this] rd calculation show ?thesis by fastforce
qed

theorem exactly_once_witness:
  "\<exists>n :: (unit, unit) net. nreach demo_codec (\<lambda>k. 0) n \<and> nonce_of n 0 = 5 \<and>
     deliveries (clts n 0) 0 = 1 \<and> count_list (events (srvr n)) (Exec 5 2) = 1"
proof -
  obtain n :: "(unit, unit) net" where n: "nreach demo_codec (\<lambda>k. 0) n"
    "Delivered 0 (Some 2) OK \<in> set (cevents (clts n 0))" "nonce_of n 0 = 5"
    by (rule net_delivered)
  from exactly_once [OF demo_wire n(1) _ n(2)] n show ?thesis by (intro exI [of _ n]) simp
qed

text \<open>
  No call out of nothing: what the server executes for the nonce of a client is a call that
  this client has made, whatever the network does with the packets of all clients.
\<close>

theorem executed_was_called:
  assumes "wire_ok c" and "nreach c owner n" and "nonce_of n i > 0"
    and "Exec (nonce_of n i) x \<in> set (events (srvr n))"
  shows "\<exists>p. Made p x \<in> set (cevents (clts n i))"
proof -
  note ok = net_okD [OF nreach_ok [OF assms(2,1)]]
  obtain j where j: "accepted owner n j" "job_clt j = nonce_of n i" "job_xid j = x"
    using answers_ok_Exec [OF ok(6) assms(4)] by auto
  then have "owner (job_sock j) = i" using ok(8) [of "owner (job_sock j)" i] assms(3) by (simp add: accepted_def)
  with j show ?thesis by (auto simp: accepted_def)
qed

theorem executed_was_called_witness:
  "\<exists>(n :: (unit, unit) net) p. nreach demo_codec (\<lambda>k. 0) n \<and>
     Exec 5 2 \<in> set (events (srvr n)) \<and> Made p 2 \<in> set (cevents (clts n 0))"
proof -
  obtain n :: "(unit, unit) net" where n: "nreach demo_codec (\<lambda>k. 0) n" "nonce_of n 0 = 5"
    "Exec 5 2 \<in> set (events (srvr n))"
    by (rule net_delivered)
  have "\<exists>p. Made p 2 \<in> set (cevents (clts n 0))"
    using executed_was_called [OF demo_wire n(1), of 0 2] n by simp
  with n show ?thesis by blast
qed

end
