(* ===== verification/Rpc_Spec.thy ===== *)
theory Rpc_Spec
  imports Network
begin

text \<open>
  What the library promises to one client with a nonce, as a small machine over its calls, and the
  proof that the whole system of \<open>Network\<close> implements it: a call is made once, its transaction is
  executed at most once and only after the call, the execution is answered at most once, and the
  callback runs at most once, with the error code of that answer or with an error of the
  dispatcher. Nothing of threads, packets, windows, timers or the network is left in it.
\<close>

section \<open>The specification\<close>

record rpc_state =
  rpc_calls :: "(caller_ptr \<times> xid_t) list"
  rpc_runs :: "xid_t list"
  rpc_replies :: "(xid_t \<times> Err option) list"   \<comment> \<open>the error code the text of the reply shows\<close>
  rpc_returns :: "(caller_ptr \<times> xid_t option \<times> Err) list"

datatype rpc_event =
    Calls caller_ptr xid_t
  | Runs xid_t
  | Replies xid_t "Err option"
  | Returns caller_ptr xid_t Err

definition rpc_start :: rpc_state where
  "rpc_start = \<lparr>rpc_calls = [], rpc_runs = [], rpc_replies = [], rpc_returns = []\<rparr>"

definition dispatcher_error :: "Err \<Rightarrow> bool" where
  "dispatcher_error e \<longleftrightarrow> e = OLDSERVER_FAILURE \<or> e = ATMOST_ONCE_FAILURE"

fun rpc_allows :: "rpc_state \<Rightarrow> rpc_event \<Rightarrow> bool" where
  "rpc_allows s (Calls p x) \<longleftrightarrow> p \<notin> set (map fst (rpc_calls s))"
| "rpc_allows s (Runs x) \<longleftrightarrow> x \<in> set (map snd (rpc_calls s)) \<and> x \<notin> set (rpc_runs s)"
| "rpc_allows s (Replies x r) \<longleftrightarrow> x \<in> set (rpc_runs s) \<and> x \<notin> set (map fst (rpc_replies s))"
| "rpc_allows s (Returns p x e) \<longleftrightarrow>
     (p, x) \<in> set (rpc_calls s) \<and> p \<notin> set (map fst (rpc_returns s)) \<and>
     (dispatcher_error e \<or> (x, Some e) \<in> set (rpc_replies s))"

fun rpc_next :: "rpc_state \<Rightarrow> rpc_event \<Rightarrow> rpc_state" where
  "rpc_next s (Calls p x) = s\<lparr>rpc_calls := rpc_calls s @ [(p, x)]\<rparr>"
| "rpc_next s (Runs x) = s\<lparr>rpc_runs := rpc_runs s @ [x]\<rparr>"
| "rpc_next s (Replies x r) = s\<lparr>rpc_replies := rpc_replies s @ [(x, r)]\<rparr>"
| "rpc_next s (Returns p x e) = s\<lparr>rpc_returns := rpc_returns s @ [(p, Some x, e)]\<rparr>"

text \<open>A sequence of events, each allowed where it happens.\<close>

fun rpc_run :: "rpc_event list \<Rightarrow> rpc_state \<Rightarrow> rpc_state option" where
  "rpc_run [] s = Some s"
| "rpc_run (a # as) s = (if rpc_allows s a then rpc_run as (rpc_next s a) else None)"

lemma rpc_run_append:
  "rpc_run (as @ bs) s = Option.bind (rpc_run as s) (rpc_run bs)"
  by (induction as arbitrary: s) auto

text \<open>What the machine promises.\<close>

definition rpc_contract :: "rpc_state \<Rightarrow> bool" where
  "rpc_contract s \<longleftrightarrow>
     distinct (map fst (rpc_calls s)) \<and> distinct (rpc_runs s) \<and>
     distinct (map fst (rpc_replies s)) \<and> distinct (map fst (rpc_returns s)) \<and>
     set (rpc_runs s) \<subseteq> snd ` set (rpc_calls s) \<and>
     fst ` set (rpc_replies s) \<subseteq> set (rpc_runs s) \<and>
     (\<forall>(p, r, e) \<in> set (rpc_returns s). \<exists>x. r = Some x \<and> (p, x) \<in> set (rpc_calls s) \<and>
        (dispatcher_error e \<or> (x, Some e) \<in> set (rpc_replies s)))"

lemma rpc_contract_next: "rpc_contract s \<Longrightarrow> rpc_allows s a \<Longrightarrow> rpc_contract (rpc_next s a)"
  by (cases a) (auto simp: rpc_contract_def)

definition rpc_moves :: "rpc_state \<Rightarrow> rpc_state \<Rightarrow> bool" where
  "rpc_moves s t \<longleftrightarrow> (\<exists>a. rpc_allows s a \<and> t = rpc_next s a)"

interpretation rpc_sys: invariant_system "\<lambda>s. s = rpc_start" rpc_moves rpc_contract
  by unfold_locales (auto simp: rpc_moves_def rpc_contract_next, simp add: rpc_contract_def rpc_start_def)

lemma rpc_run_moves: "rpc_run as s = Some t \<Longrightarrow> rpc_moves\<^sup>*\<^sup>* s t"
proof (induction as s rule: rpc_run.induct)
  case (2 a as s)
  then have "rpc_allows s a" "rpc_moves\<^sup>*\<^sup>* (rpc_next s a) t" by (simp_all split: if_splits)
  moreover from this(1) have "rpc_moves s (rpc_next s a)" by (auto simp: rpc_moves_def)
  ultimately show ?case by (simp add: converse_rtranclp_into_rtranclp)
qed simp

section \<open>How the system is read\<close>

fun call_of :: "cevent \<Rightarrow> (caller_ptr \<times> xid_t) list" where
  "call_of (Made p x) = [(p, x)]"
| "call_of _ = []"

fun return_of :: "cevent \<Rightarrow> (caller_ptr \<times> xid_t option \<times> Err) list" where
  "return_of (Delivered p r e) = [(p, r, e)]"
| "return_of _ = []"

fun run_of :: "nonce_t \<Rightarrow> event \<Rightarrow> xid_t list" where
  "run_of k (Exec k' x) = (if k' = k then [x] else [])"
| "run_of k _ = []"

definition shown_error :: "codec \<Rightarrow> string \<Rightarrow> Err option" where
  "shown_error c b = (case got_read c b of Inl _ \<Rightarrow> None | Inr (u, h) \<Rightarrow> Some (rep_err h))"

fun reply_of :: "codec \<Rightarrow> nonce_t \<Rightarrow> event \<Rightarrow> (xid_t \<times> Err option) list" where
  "reply_of c k (Recorded k' x b) = (if k' = k then [(x, shown_error c b)] else [])"
| "reply_of c k _ = []"

definition rpc_view :: "codec \<Rightarrow> nat \<Rightarrow> ('r, 's) net \<Rightarrow> rpc_state" where
  "rpc_view c i n =
     \<lparr>rpc_calls = concat (map call_of (cevents (clts n i))),
      rpc_runs = concat (map (run_of (nonce_of n i)) (events (srvr n))),
      rpc_replies = concat (map (reply_of c (nonce_of n i)) (events (srvr n))),
      rpc_returns = concat (map return_of (cevents (clts n i)))\<rparr>"

lemma rpc_view_simps [simp]:
  "rpc_calls (rpc_view c i n) = concat (map call_of (cevents (clts n i)))"
  "rpc_runs (rpc_view c i n) = concat (map (run_of (nonce_of n i)) (events (srvr n)))"
  "rpc_replies (rpc_view c i n) = concat (map (reply_of c (nonce_of n i)) (events (srvr n)))"
  "rpc_returns (rpc_view c i n) = concat (map return_of (cevents (clts n i)))"
  by (simp_all add: rpc_view_def)

lemma call_of_iff [simp]: "(p, x) \<in> set (call_of a) \<longleftrightarrow> a = Made p x"
  by (cases a) auto

lemma return_of_iff [simp]: "(p, r, e) \<in> set (return_of a) \<longleftrightarrow> a = Delivered p r e"
  by (cases a) auto

lemma run_of_iff [simp]: "x \<in> set (run_of k a) \<longleftrightarrow> a = Exec k x"
  by (cases a) auto

lemma reply_of_iff:
  "(x, r) \<in> set (reply_of c k a) \<longleftrightarrow> (\<exists>b. a = Recorded k x b \<and> r = shown_error c b)"
  by (cases a) auto

section \<open>What one step adds to the events\<close>

text \<open>The numbers of the callers grow, and a client with a nonce never ends a call by itself.\<close>

definition calls_ok :: "'r cconfig \<Rightarrow> bool" where
  "calls_ok s \<longleftrightarrow>
     (\<forall>p x. Made p x \<in> set (cevents s) \<longrightarrow> p < fresh (cl s)) \<and>
     (cl_nonce (cl s) > 0 \<longrightarrow>
        (\<forall>p e. Given_up p e \<notin># threads s \<and> Delivered p None e \<notin> set (cevents s)))"

lemma cstep_news:
  assumes "cstep c s t" and "owners_ok s"
  obtains ds where "cevents t = cevents s @ made (cl s) (cl t) @ ds"
    and "concat (map call_of ds) = []" and "length (concat (map return_of ds)) \<le> 1"
    and "\<And>p e. Delivered p None e \<in> set ds \<Longrightarrow> cl_nonce (cl s) = 0 \<or> Given_up p e \<in># threads s"
  using assms
proof (cases rule: cstep_moves)
  case calm
  then show thesis by (intro that [of "[]"]) auto
next
  case (packet u h)
  then show thesis by (intro that [of "[Got (rep_xid h)]"]) (auto simp: got_update_def made_def)
next
  case (take u h p P)
  then show thesis by (intro that [of "[]"]) auto
next
  case (mark u h p P b)
  then show thesis by (intro that [of "[]"]) auto
next
  case (deliver u h p)
  then show thesis by (intro that [of "[Delivered p (Some (rep_xid h)) (rep_err h)]"]) auto
next
  case (timeout p)
  then show thesis by (intro that [of "[Delivered p None TIMEOUT_FAILURE, TimerRan p]"]) auto
next
  case (timer p)
  then show thesis by (intro that [of "[TimerRan p]"]) (auto simp: made_def)
next
  case (give_up p e P)
  then show thesis by (intro that [of "[SendFailed p]"]) auto
next
  case (fail p e)
  then show thesis by (intro that [of "[Delivered p None e]"]) auto
qed

lemma calls_ok_cstep:
  assumes "cstep c s t" and "owners_ok s" and "calls_ok s"
  shows "calls_ok t"
proof -
  have fr: "fresh (cl s) \<le> fresh (cl t)" by (rule cstep_frame(2) [OF assms(1,2)])
  obtain ds where ds: "cevents t = cevents s @ made (cl s) (cl t) @ ds" "concat (map call_of ds) = []"
    "\<And>p e. Delivered p None e \<in> set ds \<Longrightarrow> cl_nonce (cl s) = 0 \<or> Given_up p e \<in># threads s"
    by (rule cstep_news [OF assms(1,2)]) (rule that; assumption)
  have "p < fresh (cl t)" if "Made p x \<in> set (cevents t)" for p x
  proof -
    have "Made p x \<notin> set ds"
      using ds(2) by (force simp: concat_eq_Nil_conv)
    with that ds(1) have "Made p x \<in> set (cevents s) \<or> Made p x \<in> set (made (cl s) (cl t))" by auto
    then show ?thesis using assms(3) fr
      by (fastforce simp: calls_ok_def made_def split: if_splits)
  qed
  moreover have "Given_up p e \<notin># threads t \<and> Delivered p None e \<notin> set (cevents t)"
    if "cl_nonce (cl t) > 0" for p e
  proof -
    have k: "cl_nonce (cl s) > 0" using that cstep_frame(1) [OF assms(1,2)] by simp
    then have old: "Given_up p e \<notin># threads s" "Delivered p None e \<notin> set (cevents s)"
      using assms(3) by (simp_all add: calls_ok_def)
    moreover have "Given_up p e \<notin># threads t"
      using assms(1) k old(1) by cases (auto split: option.splits if_splits)
    ultimately show ?thesis using ds(1) ds(3) [of p e] k by (auto simp: made_def)
  qed
  ultimately show ?thesis unfolding calls_ok_def by blast
qed

interpretation ccalls: invariant_system cconfig_init "cstep c" "\<lambda>s. cconfig_inv s \<and> calls_ok s"
proof unfold_locales
  fix s :: "'a cconfig"
  assume i: "cconfig_init s"
  then have "creach c s" by (rule reach_init)
  with i show "cconfig_inv s \<and> calls_ok s"
    using creach_inv by (auto simp: calls_ok_def cconfig_init_def)
next
  fix s t :: "'a cconfig"
  assume "cconfig_inv s \<and> calls_ok s" "cstep c s t"
  then show "cconfig_inv t \<and> calls_ok t"
    using csys.inv_step calls_ok_cstep unfolding cconfig_inv_def by blast
qed

lemma sstep_news:
  assumes "sstep c s t"
  obtains es where "events t = events s @ es" and "length es \<le> 1"
proof -
  have "\<exists>es. events t = events s @ es \<and> length es \<le> 1"
    using assms by (induction rule: sstep.induct) auto
  with that show thesis by blast
qed

lemma deliveries_returns:
  "deliveries s p = length (filter (\<lambda>d. fst d = p) (concat (map return_of (cevents s))))"
proof -
  have "length (filter (delivers p) as) = length (filter (\<lambda>d. fst d = p) (concat (map return_of as)))"
    for as
  proof (induction as)
    case (Cons a as)
    then show ?case by (cases a) auto
  qed simp
  then show ?thesis by (simp add: deliveries_def)
qed

section \<open>The system implements the specification\<close>

text \<open>What a callback reports is what the server has recorded, or an error of the dispatcher.\<close>

lemma delivered_recorded:
  assumes "wire_ok c" and "nreach c owner n" and "nonce_of n i > 0"
    and "Delivered p (Some x) e \<in> set (cevents (clts n i))" and "\<not> dispatcher_error e"
  shows "\<exists>b. Recorded (nonce_of n i) x b \<in> set (events (srvr n)) \<and> shown_error c b = Some e"
proof -
  note ok = net_okD [OF nreach_ok [OF assms(2,1)]]
  have sr: "sreach c (srvr n)" using nreach_components [OF assms(2)] by simp
  obtain b u where b: "b \<in> downlink n i" "got_read c b = ret (u, \<lparr>rep_xid = x, rep_err = e\<rparr>)"
    using ok(5) [of i] assms(4) by (fastforce simp: replies_ok_def brought_def)
  then have rd: "reads_reply c b \<lparr>rep_xid = x, rep_err = e\<rparr>" by (auto simp: reads_reply_def)
  from ok(2) [OF b(1)] obtain h where h: "reads_reply c b h"
    "rep_err h \<in> {OLDSERVER_FAILURE, ATMOST_ONCE_FAILURE} \<or> nonce_of n i = 0 \<or>
      Sent (nonce_of n i) (rep_xid h) b \<in> set (events (srvr n)) \<or>
      SentAgain (nonce_of n i) (rep_xid h) b \<in> set (events (srvr n))"
    by (auto simp: written_for_def)
  have "h = \<lparr>rep_xid = x, rep_err = e\<rparr>" by (rule reads_reply_unique [OF h(1) rd])
  with h(2) assms(3,5) have "Sent (nonce_of n i) x b \<in> set (events (srvr n)) \<or>
      SentAgain (nonce_of n i) x b \<in> set (events (srvr n))" by (auto simp: dispatcher_error_def)
  from sent_is_recorded [OF sr assms(3) this] b(2) show ?thesis by (auto simp: shown_error_def)
qed

text \<open>A move of the client itself: at most a new call, then at most one return.\<close>

lemma calls_implement:
  assumes "calls_ok s" and "rpc_calls v = concat (map call_of (cevents s))"
  shows "\<exists>as. rpc_run as v =
    Some (v\<lparr>rpc_calls := rpc_calls v @ concat (map call_of (made (cl s) (cl t)))\<rparr>)"
proof (cases "fresh (cl s) < fresh (cl t)")
  case True
  have "fresh (cl s) \<notin> set (map fst (rpc_calls v))"
    using assms by (fastforce simp: calls_ok_def)
  with True show ?thesis
    by (intro exI [of _ "[Calls (fresh (cl s)) (next_xid (cl s))]"]) (simp add: made_def)
next
  case False
  then show ?thesis by (intro exI [of _ "[]"]) (simp add: made_def)
qed

text \<open>A callback that runs for a call of a client with a nonce is the first one.\<close>

lemma return_implements:
  assumes "creach c t" and "calls_ok t" and "cl_nonce (cl t) > 0" and "cevents t = E @ ds"
    and "concat (map return_of ds) = [(p, r, e)]"
  obtains x where "r = Some x" and "Delivered p (Some x) e \<in> set (cevents t)"
    and "Made p x \<in> set (cevents t)" and "p \<notin> set (map fst (concat (map return_of E)))"
proof -
  have "(p, r, e) \<in> set (concat (map return_of ds))" using assms(5) by simp
  then have del: "Delivered p r e \<in> set (cevents t)" by (auto simp: assms(4))
  then obtain x where r: "r = Some x" using assms(2,3) by (cases r) (auto simp: calls_ok_def)
  have "p \<notin> set (map fst (concat (map return_of E)))"
  proof
    let ?R = "concat (map return_of E)"
    assume "p \<in> set (map fst ?R)"
    then have "filter (\<lambda>d. fst d = p) ?R \<noteq> []" by (force simp: filter_empty_conv)
    moreover have "concat (map return_of (cevents t)) = ?R @ [(p, r, e)]"
      using assms(4,5) by simp
    ultimately have "deliveries t p \<ge> 2"
      by (cases "filter (\<lambda>d. fst d = p) ?R") (auto simp: deliveries_returns)
    then show False
      using deliveries_bound [OF assms(1), of p] no_failures_with_nonce [OF assms(1), of p] assms(3)
      by simp
  qed
  with that r del delivered_origin [OF assms(1)] show thesis by blast
qed

lemma client_implements:
  fixes n :: "('r, 's) net"
  assumes "wire_ok c" and "nreach c owner n" and "nonce_of n i > 0" and "cstep c (clts n i) t"
    and "nreach c owner (set_client i t n)"
  shows "\<exists>as. rpc_run as (rpc_view c i n) = Some (rpc_view c i (set_client i t n))"
proof -
  let ?s = "clts n i" and ?n = "set_client i t n"
  have cs: "creach c ?s" and ct: "creach c t"
    using nreach_components [OF assms(2)] nreach_components [OF assms(5)]
    by (simp, metis set_client_simps(1))
  have own: "owners_ok ?s" using creach_inv [OF cs] by (simp add: cconfig_inv_def)
  have k: "cl_nonce (cl t) = nonce_of n i" using cstep_frame(1) [OF assms(4) own] by simp
  have oks: "calls_ok ?s" and okt: "calls_ok t"
    using ccalls.reach_inv [OF cs] ccalls.reach_inv [OF ct] by simp_all
  obtain ds where ds: "cevents t = cevents ?s @ made (cl ?s) (cl t) @ ds"
    "concat (map call_of ds) = []" "length (concat (map return_of ds)) \<le> 1"
    by (rule cstep_news [OF assms(4) own])
  define v where "v = rpc_view c i n"
  define w where "w = v\<lparr>rpc_calls := rpc_calls v @ concat (map call_of (made (cl ?s) (cl t)))\<rparr>"
  define R where "R = concat (map return_of ds)"
  have m: "concat (map return_of (made (cl ?s) (cl t))) = []" by (simp add: made_def)
  have v': "rpc_view c i ?n = w\<lparr>rpc_returns := rpc_returns w @ R\<rparr>"
    by (simp add: v_def w_def R_def rpc_view_def ds(1,2) m k)
  have "\<exists>as. rpc_run as v = Some w"
    unfolding w_def by (rule calls_implement [OF oks]) (simp add: v_def)
  moreover have "\<exists>as. rpc_run as w = Some (rpc_view c i ?n)"
  proof (cases R)
    case Nil
    then show ?thesis by (intro exI [of _ "[]"]) (simp add: v')
  next
    case (Cons d R')
    then obtain p r e where R: "concat (map return_of ds) = [(p, r, e)]"
      using ds(3) by (cases d) (simp add: R_def)
    obtain x where x: "r = Some x" "Delivered p (Some x) e \<in> set (cevents t)"
      "Made p x \<in> set (cevents t)"
      "p \<notin> set (map fst (concat (map return_of (cevents ?s @ made (cl ?s) (cl t)))))"
      by (rule return_implements [OF ct okt _ _ R, where E = "cevents ?s @ made (cl ?s) (cl t)"])
         (use ds(1) assms(3) k in simp_all)
    have "(p, x) \<in> set (rpc_calls w)"
      using x(3) ds(1,2) by (force simp: v_def w_def concat_eq_Nil_conv)
    moreover have "p \<notin> set (map fst (rpc_returns w))"
      using x(4) m by (simp add: v_def w_def)
    moreover have "(x, Some e) \<notin> set (rpc_replies w) \<Longrightarrow> dispatcher_error e"
      using delivered_recorded [OF assms(1,5), of i p x e] x(2) assms(3) k
      by (force simp: v_def w_def reply_of_iff)
    ultimately show ?thesis
      by (intro exI [of _ "[Returns p x e]"]) (auto simp: v' R_def R x(1))
  qed
  ultimately obtain as bs where "rpc_run as v = Some w" "rpc_run bs w = Some (rpc_view c i ?n)"
    by blast
  then show ?thesis by (intro exI [of _ "as @ bs"]) (simp add: rpc_run_append v_def)
qed

text \<open>A move of the server: at most one event, for this client or another one.\<close>

text \<open>A reply that is recorded is the first one, after the one execution.\<close>

lemma recorded_first:
  assumes "sreach c t" and "events t = E @ [Recorded k x b]" and "k > 0"
  shows "filter (recorded_for k x) E = []" and "Exec k x \<in> set E"
proof -
  let ?f = "filter (recorded_for k x)" and ?e = "filter ((=) (Exec k x))"
  have "length (?f (events t)) \<le> length (?e (events t))" "length (?e (events t)) \<le> 1"
    using recorded_at_most_once [OF assms(1,3)] exec_at_most_once [OF assms(1,3)] by simp_all
  then have "Suc (length (?f E)) \<le> length (?e E)" "length (?e E) \<le> 1"
    by (simp_all add: assms(2))
  then have "length (?f E) = 0" "length (?e E) = 1" by linarith+
  then have "?f E = []" "?e E \<noteq> []" by auto
  then show "?f E = []" "Exec k x \<in> set E" by (auto simp: filter_empty_conv)
qed

lemma server_implements:
  fixes n :: "('r, 's) net"
  assumes "wire_ok c" and "nreach c owner n" and "nonce_of n i > 0" and "sstep c (srvr n) t"
    and "nreach c owner (set_server t j B n)"
  shows "\<exists>as. rpc_run as (rpc_view c i n) = Some (rpc_view c i (set_server t j B n))"
proof -
  let ?n = "set_server t j B n" and ?k = "nonce_of n i"
  define v where "v = rpc_view c i n"
  have st: "sreach c t" using nreach_components [OF assms(5)] by simp
  obtain es where es: "events t = events (srvr n) @ es" "length es \<le> 1"
    by (rule sstep_news [OF assms(4)])
  define X where "X = concat (map (run_of ?k) es)"
  define Y where "Y = concat (map (reply_of c ?k) es)"
  have v': "rpc_view c i ?n = v\<lparr>rpc_runs := rpc_runs v @ X, rpc_replies := rpc_replies v @ Y\<rparr>"
    by (simp add: v_def X_def Y_def rpc_view_def es(1))
  consider (none) "X = []" "Y = []" | (exec) x where "es = [Exec ?k x]"
    | (reply) x b where "es = [Recorded ?k x b]"
  proof (cases es)
    case (Cons a es')
    with es(2) have "es = [a]" by simp
    then show thesis
      by (cases "X = [] \<and> Y = []"; cases a)
         (auto simp: X_def Y_def intro: that split: if_splits)
  qed (use that in \<open>simp add: X_def Y_def\<close>)
  then show ?thesis
  proof cases
    case none
    then show ?thesis by (intro exI [of _ "[]"]) (simp add: v' v_def [symmetric])
  next
    case (exec x)
    have "Exec ?k x \<notin> set (events (srvr n))"
      using exec_at_most_once [OF st assms(3), of x] by (auto simp: es(1) exec filter_empty_conv)
    moreover obtain p where "Made p x \<in> set (cevents (clts n i))"
      using executed_was_called [OF assms(1,5), of i x] assms(3) by (auto simp: es(1) exec)
    ultimately have "rpc_allows v (Runs x)"
      by (force simp: v_def)
    then show ?thesis
      by (intro exI [of _ "[Runs x]"]) (simp add: v' v_def [symmetric] X_def Y_def exec)
  next
    case (reply x b)
    note first = recorded_first [OF st es(1) [unfolded reply] assms(3)]
    then have "rpc_allows v (Replies x (shown_error c b))"
      by (force simp: v_def filter_empty_conv reply_of_iff)
    then show ?thesis
      by (intro exI [of _ "[Replies x (shown_error c b)]"])
         (simp add: v' v_def [symmetric] X_def Y_def reply)
  qed
qed

lemma nstep_nonce:
  assumes "nreach c owner n" and "nstep c owner n n'"
  shows "nonce_of n' i = nonce_of n i"
proof -
  have "cl_nonce (cl t) = nonce_of n j" if "cstep c (clts n j) t" for j t
    using cstep_frame(1) [OF that] creach_inv [of c "clts n j"] nreach_components [OF assms(1)]
    by (simp add: cconfig_inv_def)
  with nstep_components [OF assms(2)] show ?thesis by auto
qed

lemma net_implements:
  assumes "wire_ok c" and "nreach c owner n" and "nonce_of n i > 0" and "nstep c owner n n'"
  shows "\<exists>as. rpc_run as (rpc_view c i n) = Some (rpc_view c i n')"
proof -
  have r: "nreach c owner n'" by (rule reach_step [OF assms(2,4)])
  from nstep_components [OF assms(4)] show ?thesis
  proof (elim disjE exE conjE)
    fix j t assume n': "n' = set_client j t n" and st: "cstep c (clts n j) t"
    show ?thesis
    proof (cases "j = i")
      case True
      then show ?thesis
        using client_implements [OF assms(1-3)] st r n' by auto
    next
      case False
      then have "rpc_view c i n' = rpc_view c i n" by (simp add: rpc_view_def n')
      then show ?thesis by (intro exI [of _ "[]"]) simp
    qed
  next
    fix t j B assume "n' = set_server t j B n" "sstep c (srvr n) t"
    then show ?thesis using server_implements [OF assms(1-3)] r by simp
  qed
qed

lemma rpc_view_init: "net_init n \<Longrightarrow> rpc_view c i n = rpc_start"
  by (simp add: net_init_def cconfig_init_def config_init_def rpc_view_def rpc_start_def)

interpretation rpc: refinement_mapping
  "\<lambda>n. wire_ok c \<and> net_init n \<and> nonce_of n i > 0" "nstep c owner"
  "\<lambda>n. wire_ok c \<and> nreach c owner n \<and> nonce_of n i > 0"
  "\<lambda>s. s = rpc_start" rpc_moves "rpc_view c i" for c owner i
proof unfold_locales
  fix n n' :: "('a, 'b) net"
  assume n: "wire_ok c \<and> nreach c owner n \<and> nonce_of n i > 0" and s: "nstep c owner n n'"
  then have m: "nonce_of n' i = nonce_of n i"
    "\<exists>as. rpc_run as (rpc_view c i n) = Some (rpc_view c i n')"
    using net_implements [of c owner n i n'] nstep_nonce [of c owner n n' i] by simp_all
  show "wire_ok c \<and> nreach c owner n' \<and> nonce_of n' i > 0"
    using n m(1) reach_step [of _ "nstep c owner", OF _ s] by simp
  show "rpc_moves\<^sup>*\<^sup>* (rpc_view c i n) (rpc_view c i n')"
    using m(2) rpc_run_moves by blast
qed (auto intro: reach_init rpc_view_init)

text \<open>So whatever the network does, what a client sees and causes keeps the contract.\<close>

lemma net_contract:
  assumes "reach (\<lambda>n. wire_ok c \<and> net_init n \<and> nonce_of n i > 0) (nstep c owner) n"
  shows "rpc_contract (rpc_view c i n)"
  by (rule rpc_sys.reach_inv [OF rpc.reach_read [OF assms]])

section \<open>Properties\<close>

text \<open>
  C3: the system is an RPC machine. To a client with a nonce, any number of clients, threads,
  connections and lost, repeated, delayed or reordered packets look like the machine that starts
  with nothing and only makes a new call, runs a called transaction for the first time, answers a
  run for the first time, and returns a call for the first time with the error code of its answer
  or with an error of the dispatcher: the machine starts where the system starts, and every step
  of the system is a sequence of events that the machine allows.
\<close>

theorem system_implements_rpc:
  assumes "wire_ok c" and "nreach c owner n" and "nonce_of n i > 0"
  shows "(net_init n \<longrightarrow> rpc_view c i n = rpc_start) \<and>
    (\<forall>n'. nstep c owner n n' \<longrightarrow>
       (\<exists>as. rpc_run as (rpc_view c i n) = Some (rpc_view c i n')))"
  using rpc_view_init net_implements [OF assms] by blast

theorem system_implements_rpc_witness:
  "\<exists>(n :: (unit, unit) net) n' as. nreach demo_codec (\<lambda>k. 0) n \<and> nstep demo_codec (\<lambda>k. 0) n n' \<and>
     rpc_calls (rpc_view demo_codec 0 n) = [(0, 2)] \<and> rpc_returns (rpc_view demo_codec 0 n) = [] \<and>
     rpc_returns (rpc_view demo_codec 0 n') = [(0, Some 2, OK)] \<and>
     rpc_run as (rpc_view demo_codec 0 n) = Some (rpc_view demo_codec 0 n')"
proof -
  obtain n n' :: "(unit, unit) net" where n: "nreach demo_codec (\<lambda>k. 0) n"
    "nstep demo_codec (\<lambda>k. 0) n n'" "cevents (clts n 0) = [Made 0 2, Got 2]"
    "cevents (clts n' 0) = [Made 0 2, Got 2, Delivered 0 (Some 2) OK]" "nonce_of n 0 = 5"
    by (rule net_delivery)
  obtain as where "rpc_run as (rpc_view demo_codec 0 n) = Some (rpc_view demo_codec 0 n')"
    using system_implements_rpc [OF demo_wire n(1), of 0] n(2,5) by auto
  with n show ?thesis by (intro exI [of _ n] exI [of _ n'] exI [of _ as]) simp
qed

end
