(* ===== verification/Framing.thy ===== *)
theory Framing
  imports Rpc_Server Rpc_Client "HOL-Library.Sublist"
begin

text \<open>
  Packets on a byte stream (\<open>ReadIncomingPacket\<close>, \<open>OnReceiveFinished\<close> of \<open>rpc_server.cpp\<close> and
  \<open>rpc_server.h\<close>, \<open>TakeBuf\<close> of \<open>marshall.h\<close>). Packets carry no length, and what one receive has
  brought is taken for one packet. No proper part of a packet from its start is a JSON text, and
  no packet with something of the next one is, so a stream that is cut elsewhere than between
  packets is always noticed, by an exception, on the server and on the client.
\<close>

section \<open>Tokens of a text that is cut short\<close>

text \<open>What the scanner has found stays found when the input goes on.\<close>

lemma get_codepoint_append:
  "get_codepoint s = Some (n, r) \<Longrightarrow> get_codepoint (s @ x) = Some (n, r @ x)"
  by (cases s rule: get_codepoint.cases) (auto split: option.splits)

lemma scan_unicode_append:
  assumes "scan_unicode s = Some (t, r)"
  shows "scan_unicode (s @ x) = Some (t, r @ x)"
proof -
  obtain c1 s1 where g: "get_codepoint s = Some (c1, s1)"
    using assms by (auto simp: scan_unicode_def split: option.splits)
  note ga = get_codepoint_append [OF g, of x]
  show ?thesis
    using assms g ga
    by (auto simp: scan_unicode_def get_codepoint_append split: if_splits list.splits option.splits)
qed

lemma scan_escape_append: "scan_escape s = Some (t, r) \<Longrightarrow> scan_escape (s @ x) = Some (t, r @ x)"
  by (cases s) (auto split: if_splits simp: scan_unicode_append)

lemma next_byte_append:
  "next_byte_in_range rs s = Some (t, r) \<Longrightarrow> next_byte_in_range rs (s @ x) = Some (t, r @ x)"
  using next_byte_in_range_append [of rs s t r] by auto

lemma scan_string_append: "scan_string s = Some (t, r) \<Longrightarrow> scan_string (s @ x) = Some (t, r @ x)"
proof (induction s arbitrary: t rule: scan_string.induct)
  case (2 c s)
  consider "c = CHR 0x22" | "c = CHR 0x5C" | "c \<noteq> CHR 0x22" "c \<noteq> CHR 0x5C" by blast
  then show ?case
  proof cases
    case 2
    with "2.prems" obtain t1 s1 where e: "scan_escape s = Some (t1, s1)"
      by (auto split: option.splits)
    with 2 "2.prems" obtain t2 where "scan_string s1 = Some (t2, r)" "t = t1 @ t2" by auto
    with "2.IH"(1) [OF _ 2 e refl] e 2 show ?thesis by (simp add: scan_escape_append)
  next
    case 3
    with "2.prems" obtain rs t1 s1 where n: "utf8_ranges (of_char c) = Some rs"
      "next_byte_in_range rs s = Some (t1, s1)" "\<not> of_char c \<le> (0x1F :: nat)"
      by (auto split: option.splits if_splits)
    with 3 "2.prems" obtain t2 where "scan_string s1 = Some (t2, r)" "t = c # t1 @ t2" by auto
    with "2.IH"(2) [OF 3 n(3) n(1,2) refl] n 3 show ?thesis by (simp add: next_byte_append)
  qed (use "2.prems" in auto)
qed simp

text \<open>So the text of a string has no closing quote before its end.\<close>

lemma scan_string_cut:
  assumes "utf8 s" and "dump_escaped s = ret o1" and "prefix p o1"
  shows "scan_string p = None"
proof (rule ccontr)
  assume "scan_string p \<noteq> None"
  then obtain t r where p: "scan_string p = Some (t, r)" by auto
  obtain x where "o1 = p @ x" using assms(3) by (auto simp: prefix_def)
  with scan_string_append [OF p, of "x @ [CHR 0x22]"] escaped_utf8 [OF assms(1)] assms(2)
  have "r @ x @ [CHR 0x22] = []" by auto
  then show False by simp
qed

lemma strict_prefix_snoc: "strict_prefix q (s @ [c]) \<longleftrightarrow> prefix q s"
  by (metis prefix_order.dual_order.strict_trans1 prefix_snoc strict_prefixI' strict_prefix_def)

text \<open>A dead end: nothing, an error, or a value without what must follow.\<close>

definition dead_end :: "token list \<Rightarrow> bool" where
  "dead_end ts \<longleftrightarrow> ts \<in> {[], [Parse_error]} \<or> (\<exists>j. ts = [Literal j])"

lemma dead_end_simps [simp]: "dead_end []" "dead_end [Parse_error]" "dead_end [Literal j]"
  by (simp_all add: dead_end_def)

lemma lex_string_cut:
  assumes "utf8 s" and "dump_string s = ret b" and "strict_prefix q b"
  shows "lex sd q \<in> {[], [Parse_error]}"
proof (cases q)
  case (Cons c p)
  obtain o1 where o1: "dump_escaped s = ret o1" "b = CHR 0x22 # o1 @ [CHR 0x22]"
    using assms(2) by (auto simp: dump_string_def res_simps)
  with assms(3) Cons have "c = CHR 0x22" "prefix p o1" by (auto simp: strict_prefix_snoc)
  with scan_string_cut [OF assms(1) o1(1)] Cons show ?thesis
    by (simp add: string_token_def del: scan_string.simps)
qed simp

lemma scan_literal_cut: "strict_prefix q l \<Longrightarrow> scan_literal l q = None"
  by (induction l q rule: scan_literal.induct) auto

lemma lex_literal_cut:
  assumes "strict_prefix q l" and "l \<in> {''true'', ''false'', ''null''}"
  shows "lex sd q \<in> {[], [Parse_error]}"
proof (cases q)
  case (Cons c p)
  with assms have "(c = CHR ''t'' \<and> strict_prefix p ''rue'') \<or> (c = CHR ''f'' \<and> strict_prefix p ''alse'') \<or>
    (c = CHR ''n'' \<and> strict_prefix p ''ull'')" by auto
  with Cons show ?thesis
    by (auto simp: lex.simps(2) is_space_def scan_token_def literal_token_def scan_literal_cut
        simp del: strict_prefix_simps)
qed simp

lemma lex_digits: "is_digit c \<Longrightarrow> c \<noteq> CHR ''0'' \<Longrightarrow> list_all is_digit ds \<Longrightarrow> dead_end (lex sd (c # ds))"
  using scan_number_any1_digits [of ds "[]" Unsigned "[c]"]
  by (simp add: lex_digit scan_number_def digit_not_minus number_token_def delim_def)

lemma lex_negative_digits:
  "is_digit c \<Longrightarrow> c \<noteq> CHR ''0'' \<Longrightarrow> list_all is_digit ds \<Longrightarrow> dead_end (lex sd (CHR ''-'' # c # ds))"
  using scan_number_any1_digits [of ds "[]" Integer "[CHR ''-'', c]"]
  by (simp add: lex_minus scan_number_def number_token_def delim_def)

lemma prefix_digits: "prefix p ds \<Longrightarrow> list_all is_digit ds \<Longrightarrow> list_all is_digit p"
  by (auto simp: prefix_def)

lemma lex_nat_cut: "strict_prefix q (nat_digits n) \<Longrightarrow> dead_end (lex sd q)"
proof -
  assume q: "strict_prefix q (nat_digits n)"
  obtain c s where n: "nat_digits n = c # s" "is_digit c" "list_all is_digit s"
    "n = 0 \<Longrightarrow> c = CHR ''0'' \<and> s = []" "0 < n \<Longrightarrow> c \<noteq> CHR ''0''" by (metis nat_digits_Cons)
  show ?thesis
  proof (cases q)
    case (Cons d p)
    with q n(1) have "d = c" "strict_prefix p s" by auto
    moreover from this(2) have "0 < n" using n(4) by (cases "n = 0") auto
    moreover have "list_all is_digit p"
      using calculation(2) n(3) prefix_digits by (auto simp: strict_prefix_def)
    ultimately show ?thesis using Cons n lex_digits by simp
  qed simp
qed

lemma lex_negative_cut: "0 < n \<Longrightarrow> strict_prefix q (CHR ''-'' # nat_digits n) \<Longrightarrow> dead_end (lex sd q)"
proof -
  assume n0: "0 < n" and q: "strict_prefix q (CHR ''-'' # nat_digits n)"
  obtain c s where n: "nat_digits n = c # s" "is_digit c" "list_all is_digit s"
    "0 < n \<Longrightarrow> c \<noteq> CHR ''0''" by (metis nat_digits_Cons)
  have minus: "lex sd [CHR ''-''] = [Parse_error]"
    by (simp add: lex_minus scan_number_def number_token_def)
  from q n(1) consider "q = []" | "q = [CHR ''-'']"
    | p where "q = CHR ''-'' # c # p" "strict_prefix p s"
    by (cases q; cases "tl q") auto
  then show ?thesis
  proof cases
    case (3 p)
    then have "list_all is_digit p" using n(3) prefix_digits by (auto simp: strict_prefix_def)
    with 3 n n0 lex_negative_digits show ?thesis by simp
  qed (use minus in simp_all)
qed

lemma lex_int_cut: "strict_prefix q (to_string i) \<Longrightarrow> dead_end (lex sd q)"
  using lex_nat_cut [of q "nat i" sd] lex_negative_cut [of "nat (- i)" q sd]
  by (auto simp: to_string_def split: if_splits)

section \<open>Parsing a value that is cut short\<close>

abbreviation throws :: "'a res \<Rightarrow> bool" where
  "throws r \<equiv> \<exists>e. r = throw e"

lemma dead_end_throws:
  assumes "dead_end ts"
  shows "st \<noteq> [] \<Longrightarrow> throws (parse_tokens st Want_value ts)"
    and "throws (parse_tokens (f # st) Want_value ts)"
proof -
  show a: "st \<noteq> [] \<Longrightarrow> throws (parse_tokens st Want_value ts)" for st
    using assms by (cases st) (auto simp: dead_end_def split: json.splits)
  show "throws (parse_tokens (f # st) Want_value ts)" by (rule a) simp
qed

lemma unfinished_key:
  "ts \<in> {[], [Parse_error]} \<Longrightarrow> throws (parse_tokens st (Want_key kvs) ts)"
  by (cases st) auto

text \<open>The texts of arrays and objects.\<close>

lemma text_of_JArr:
  "plain (JArr js) \<Longrightarrow> text_of fl (JArr js) = CHR ''['' # commas (map (text_of fl) js) @ [CHR '']'']"
proof -
  assume "plain (JArr js)"
  then have "\<forall>j \<in> set js. dump_value fl j = ret (text_of fl j)"
    using plain_text by (auto simp: list_all_iff)
  then show ?thesis
    by (subst text_of_def) (simp add: sequence_res_map [where g = "text_of fl"])
qed

lemma text_of_entry_plain:
  assumes "utf8 k" and "plain v"
  obtains b where "dump_string k = ret b" and "text_of_entry fl (k, v) = b @ CHR '':'' # text_of fl v"
    and "\<And>sd rest. lex sd (b @ rest) = String k # lex sd rest"
proof -
  obtain o1 where o1: "dump_escaped k = ret o1"
    "\<And>r. scan_string (o1 @ CHR 0x22 # r) = Some (k, r)" using escaped_utf8 [OF assms(1)] by blast
  show thesis
    by (rule that [of "CHR 0x22 # o1 @ [CHR 0x22]"])
       (simp_all add: dump_string_def text_of_entry_def o1 string_token_def del: scan_string.simps)
qed

lemma text_of_JObj:
  "plain (JObj kvs) \<Longrightarrow>
     text_of fl (JObj kvs) = CHR ''{'' # commas (map (text_of_entry fl) kvs) @ [CHR ''}'']"
proof -
  assume p: "plain (JObj kvs)"
  have "(case kv of (k, v) \<Rightarrow> bind_res (dump_string k) (\<lambda>o1.
        bind_res (dump_value fl v) (\<lambda>o2. ret (o1 @ CHR '':'' # o2)))) = ret (text_of_entry fl kv)"
    if "kv \<in> set kvs" for kv
  proof -
    obtain k v where kv [simp]: "kv = (k, v)" by (cases kv)
    with that p have "utf8 k" "plain v" by (auto simp: list_all_iff)
    then obtain b where "dump_string k = ret b" "text_of_entry fl (k, v) = b @ CHR '':'' # text_of fl v"
      by (rule text_of_entry_plain)
    with plain_text [OF \<open>plain v\<close>, of fl] show ?thesis by simp
  qed
  then show ?thesis
    by (subst text_of_def) (simp add: sequence_res_map [where g = "text_of_entry fl"])
qed

text \<open>The text of a value does not start with white space or a closing bracket.\<close>

lemma nat_digits_start: "nat_digits n = c # s \<Longrightarrow> \<not> is_space c \<and> c \<notin> {CHR '']'', CHR ''}''}"
  using nat_digits_Cons [of n "\<exists>d r. nat_digits n = d # r \<and> is_digit d"]
  by (auto simp: is_digit_def is_space_def less_eq_char_def)

lemma text_start:
  "plain j \<Longrightarrow> text_of fl j = c # s \<Longrightarrow> \<not> is_space c \<and> c \<noteq> CHR '']''"
proof (cases j)
  case (JStr t)
  assume "plain j" "text_of fl j = c # s"
  with JStr show ?thesis
    by (auto simp: text_of_def dump_string_def is_space_def res_simps split: sum.splits)
next
  case (JArr js)
  assume "plain j" "text_of fl j = c # s"
  with JArr text_of_JArr [of js fl] show ?thesis by (auto simp: is_space_def)
next
  case (JObj kvs)
  assume "plain j" "text_of fl j = c # s"
  with JObj text_of_JObj [of kvs fl] show ?thesis by (auto simp: is_space_def)
qed (auto simp: text_of_def to_string_def is_space_def dest: nat_digits_start split: if_splits)

lemma lex_not_End: "lex sd (c # s) = End_array # ts \<Longrightarrow> is_space c \<or> c = CHR '']''"
  by (auto simp: lex.simps(2) scan_token_def literal_token_def string_token_def number_token_def
      split: if_splits option.splits prod.splits)

text \<open>What the elements do, the list of them does.\<close>

definition cut_fails :: "(64 word \<Rightarrow> string) \<Rightarrow> (string \<Rightarrow> 64 word) \<Rightarrow> json \<Rightarrow> bool" where
  "cut_fails fl sd j \<longleftrightarrow> (\<forall>q st. strict_prefix q (text_of fl j) \<longrightarrow> st \<noteq> [] \<longrightarrow>
     throws (parse_tokens st Want_value (lex sd q)))"

lemma unfinished_value:
  assumes "plain j" and "cut_fails fl sd j" and "prefix q (text_of fl j)" and "st \<noteq> []"
  shows "throws (parse_tokens st Want_value (lex sd q))"
proof (cases "q = text_of fl j")
  case True
  have "parse_tokens st Want_value (tokens j) = parse_tokens st (Have (canon j)) []"
    using parse_tokens_plain [OF assms(1), of st "[]"] by simp
  with True assms(4) plain_lex [OF assms(1), of sd fl] show ?thesis by (cases st) simp_all
next
  case False
  with assms show ?thesis by (auto simp: cut_fails_def strict_prefix_def)
qed

lemma lex_value_comma:
  "plain j \<Longrightarrow> lex sd (text_of fl j @ CHR '','' # r) = tokens j @ Value_separator # lex sd r"
  using lexesD [of sd "text_of fl j" "tokens j" "CHR '','' # r"] plain_text [of j fl sd]
  by (simp add: delim_def)

lemma unfinished_elements:
  assumes "\<forall>j \<in> set js. plain j \<and> cut_fails fl sd j" and "prefix q (commas (map (text_of fl) js))"
    and "js \<noteq> []"
  shows "throws (parse_tokens (In_array js0 # st) Want_value (lex sd q))"
  using assms
proof (induction js arbitrary: q js0)
  case (Cons j js)
  then have j: "plain j" "cut_fails fl sd j" by simp_all
  show ?case
  proof (cases "prefix q (text_of fl j)")
    case True
    then show ?thesis by (rule unfinished_value [OF j]) simp
  next
    case False
    with Cons.prems(2) obtain q' where q: "q = text_of fl j @ CHR '','' # q'" "js \<noteq> []"
      "prefix q' (commas (map (text_of fl) js))"
      by (cases js) (auto simp: prefix_append prefix_Cons)
    with Cons.IH [of q' "js0 @ [canon j]"] Cons.prems(1) show ?thesis
      by (simp add: lex_value_comma [OF j(1)] parse_tokens_plain [OF j(1)])
  qed
qed simp

lemma unfinished_entry:
  assumes "utf8 k" and "plain v" and "cut_fails fl sd v" and "prefix q (text_of_entry fl (k, v))"
  shows "throws (parse_tokens st (Want_key kvs) (lex sd q))"
proof -
  obtain b where b: "dump_string k = ret b" "text_of_entry fl (k, v) = b @ CHR '':'' # text_of fl v"
    "\<And>rest. lex sd (b @ rest) = String k # lex sd rest"
    by (rule text_of_entry_plain [OF assms(1,2)]) blast
  from assms(4) b(2) consider "strict_prefix q b" | "q = b" | p where "q = b @ CHR '':'' # p" "prefix p (text_of fl v)"
    by (auto simp: prefix_append prefix_Cons strict_prefix_def)
  then show ?thesis
  proof cases
    case 1
    from lex_string_cut [OF assms(1) b(1) this] show ?thesis by (rule unfinished_key)
  next
    case 2
    with b(3) [of "[]"] show ?thesis by (cases st) simp_all
  next
    case (3 p)
    from unfinished_value [OF assms(2,3) 3(2), of "In_object kvs k # st"] show ?thesis
      by (simp add: 3(1) b(3))
  qed
qed

lemma unfinished_entries:
  assumes "\<forall>(k, v) \<in> set kvs. utf8 k \<and> plain v \<and> cut_fails fl sd v"
    and "prefix q (commas (map (text_of_entry fl) kvs))" and "kvs \<noteq> []"
  shows "throws (parse_tokens st (Want_key kvs0) (lex sd q))"
  using assms
proof (induction kvs arbitrary: q kvs0)
  case (Cons kv kvs)
  obtain k v where kv [simp]: "kv = (k, v)" by (cases kv)
  with Cons.prems(1) have p: "utf8 k" "plain v" "cut_fails fl sd v" by simp_all
  show ?case
  proof (cases "prefix q (text_of_entry fl (k, v))")
    case True
    then show ?thesis by (rule unfinished_entry [OF p])
  next
    case False
    with Cons.prems(2) obtain q' where q: "q = text_of_entry fl (k, v) @ CHR '','' # q'" "kvs \<noteq> []"
      "prefix q' (commas (map (text_of_entry fl) kvs))"
      by (cases kvs) (auto simp: prefix_append prefix_Cons)
    obtain b where b: "text_of_entry fl (k, v) = b @ CHR '':'' # text_of fl v"
      "\<And>rest. lex sd (b @ rest) = String k # lex sd rest"
      by (rule text_of_entry_plain [OF p(1,2)]) blast
    from Cons.IH [of q' "map_set k (canon v) kvs0"] Cons.prems(1) q show ?thesis
      by (simp add: b lex_value_comma [OF p(2)] parse_tokens_plain [OF p(2)])
  qed
qed simp

text \<open>After the opening bracket.\<close>

lemma first_key: "End_object \<notin> set (take 1 ts) \<Longrightarrow>
    parse_tokens st First_key ts = parse_tokens st (Want_key []) ts"
  by (cases ts; cases st) (auto split: token.splits)

lemma first_element: "End_array \<notin> set (take 1 ts) \<Longrightarrow>
    throws (parse_tokens (In_array [] # st) Want_value ts) \<Longrightarrow> throws (parse_tokens st First_element ts)"
  by (cases ts; cases st) auto

lemma lex_start:
  "prefix q (c # s) \<Longrightarrow> \<not> is_space c \<and> c \<noteq> CHR '']'' \<Longrightarrow> End_array \<notin> set (take 1 (lex sd q))"
proof (cases q)
  case (Cons d p)
  assume "prefix q (c # s)" "\<not> is_space c \<and> c \<noteq> CHR '']''"
  with Cons lex_not_End [of sd c p] show ?thesis by (cases "lex sd (c # p)") auto
qed simp

lemma commas_start: "ss \<noteq> [] \<Longrightarrow> hd ss = c # s \<Longrightarrow> \<exists>r. commas ss = c # r"
  by (cases ss rule: commas.cases) auto

lemma unfinished_array:
  assumes "plain (JArr js)" and "\<forall>j \<in> set js. cut_fails fl sd j" and "prefix q (commas (map (text_of fl) js))"
  shows "throws (parse_tokens st First_element (lex sd q))"
proof (cases js)
  case Nil
  with assms(3) show ?thesis by (cases st) simp_all
next
  case (Cons j js')
  then have pj: "plain j" using assms(1) by simp
  obtain c s where c: "text_of fl j = c # s" using plain_nonempty [OF pj, of fl] by (cases "text_of fl j") auto
  obtain r where "commas (map (text_of fl) js) = c # r"
    using commas_start [of "map (text_of fl) js" c s] Cons c by auto
  with assms(3) text_start [OF pj c] have "End_array \<notin> set (take 1 (lex sd q))"
    by (intro lex_start) auto
  then show ?thesis
    using unfinished_elements [OF _ assms(3), where sd = sd] assms(1,2) Cons
    by (intro first_element) (auto simp: list_all_iff)
qed

lemma dump_string_start: "dump_string k = ret b \<Longrightarrow> \<exists>r. b = CHR 0x22 # r"
  by (auto simp: dump_string_def res_simps)

lemma lex_quote: "prefix q (CHR 0x22 # s) \<Longrightarrow> End_object \<notin> set (take 1 (lex sd q))"
  by (cases q) (auto simp: string_token_def split: option.splits prod.splits)

lemma unfinished_object:
  assumes "plain (JObj kvs)" and "\<forall>(k, v) \<in> set kvs. cut_fails fl sd v"
    and "prefix q (commas (map (text_of_entry fl) kvs))"
  shows "throws (parse_tokens st First_key (lex sd q))"
proof (cases kvs)
  case Nil
  with assms(3) show ?thesis by (cases st) simp_all
next
  case (Cons kv kvs')
  obtain k v where kv: "kv = (k, v)" by (cases kv)
  with assms(1) Cons have "utf8 k" "plain v" by auto
  then obtain b where "dump_string k = ret b" "text_of_entry fl (k, v) = b @ CHR '':'' # text_of fl v"
    by (rule text_of_entry_plain)
  with dump_string_start obtain s where "text_of_entry fl kv = CHR 0x22 # s" using kv by fastforce
  then obtain r where "commas (map (text_of_entry fl) kvs) = CHR 0x22 # r"
    using commas_start [of "map (text_of_entry fl) kvs" "CHR 0x22" s] Cons by auto
  with assms(3) have "End_object \<notin> set (take 1 (lex sd q))" by (intro lex_quote) simp
  then have "parse_tokens st First_key (lex sd q) = parse_tokens st (Want_key []) (lex sd q)"
    by (rule first_key)
  moreover have "\<forall>(k, v) \<in> set kvs. utf8 k \<and> plain v \<and> cut_fails fl sd v"
    using assms(1,2) by (auto simp: list_all_iff)
  ultimately show ?thesis
    using unfinished_entries [OF _ assms(3), of sd st "[]"] Cons by simp
qed

text \<open>So every value that is cut short is an error inside of another one, and an object anywhere.\<close>

lemma cut_object:
  assumes "plain (JObj kvs)" and "\<forall>(k, v) \<in> set kvs. cut_fails fl sd v"
    and "strict_prefix q (text_of fl (JObj kvs))"
  shows "throws (parse_tokens st Want_value (lex sd q))"
proof (cases q)
  case Nil
  then show ?thesis by (cases st) simp_all
next
  case (Cons c p)
  with assms(3) have "c = CHR ''{''" "prefix p (commas (map (text_of_entry fl) kvs))"
    by (auto simp: text_of_JObj [OF assms(1)] strict_prefix_snoc)
  with unfinished_object [OF assms(1,2)] Cons show ?thesis by simp
qed

lemma cut_dead_end:
  assumes "\<And>q. strict_prefix q (text_of fl j) \<Longrightarrow> dead_end (lex sd q)"
  shows "cut_fails fl sd j"
  using assms dead_end_throws(1) unfolding cut_fails_def by metis

lemma error_dead_end: "ts \<in> {[], [Parse_error]} \<Longrightarrow> dead_end ts"
  by (simp add: dead_end_def)

lemma plain_cut_fails: "plain j \<Longrightarrow> cut_fails fl sd j"
proof (induction j)
  case (JStr s)
  then have "utf8 s" by simp
  then obtain b where "dump_string s = ret b" by (rule lexes_string)
  then show ?case
    using lex_string_cut [OF \<open>utf8 s\<close>] by (intro cut_dead_end error_dead_end) (simp add: text_of_def)
next
  case (JArr js)
  then have IH: "\<forall>j \<in> set js. cut_fails fl sd j" by (simp add: list_all_iff)
  show ?case
    unfolding cut_fails_def
  proof (intro allI impI)
    fix q and st :: "frame list"
    assume q: "strict_prefix q (text_of fl (JArr js))" "st \<noteq> []"
    show "throws (parse_tokens st Want_value (lex sd q))"
    proof (cases q)
      case Nil
      with q(2) show ?thesis by (cases st) simp_all
    next
      case (Cons c p)
      with q(1) have "c = CHR ''[''" "prefix p (commas (map (text_of fl) js))"
        by (auto simp: text_of_JArr [OF JArr.prems] strict_prefix_snoc)
      with unfinished_array [OF JArr.prems IH] Cons show ?thesis by simp
    qed
  qed
next
  case (JObj kvs)
  then have "\<forall>(k, v) \<in> set kvs. cut_fails fl sd v" by (fastforce simp: list_all_iff)
  from cut_object [OF JObj.prems this] show ?case by (simp add: cut_fails_def)
next
  case (JInt i)
  show ?case by (rule cut_dead_end) (simp add: text_of_def lex_int_cut)
next
  case (JUint u)
  show ?case by (rule cut_dead_end) (simp add: text_of_def lex_int_cut)
next
  case JNull
  show ?case by (rule cut_dead_end, rule error_dead_end, rule lex_literal_cut) (auto simp: text_of_def)
next
  case (JBool b)
  show ?case by (rule cut_dead_end, rule error_dead_end, rule lex_literal_cut)
    (auto simp: text_of_def split: if_splits)
qed simp

section \<open>Packets\<close>

text \<open>
  A text that \<open>Marshall::Buf\<close> has returned for values without doubles whose strings are UTF-8.
\<close>

definition packet :: "codec \<Rightarrow> string \<Rightarrow> bool" where
  "packet c b \<longleftrightarrow> (\<exists>m. wf_marshall m \<and> Marshall_Buf c m = ret b)"

lemma packetE:
  assumes "packet (json_codec fl sd) b"
  obtains j where "plain j" and "j = JNull \<or> (\<exists>kvs. j = JObj kvs)" and "b = text_of fl j"
proof -
  obtain m where "wf_marshall m" "Marshall_Buf (json_codec fl sd) m = ret b"
    using assms by (auto simp: packet_def)
  then have m: "plain (m_json m)" "is_null (m_json m) \<or> is_object (m_json m)"
    "dump_value fl (m_json m) = ret b"
    by (simp_all add: wf_marshall_def Marshall_Buf_def json_codec_def)
  have "m_json m = JNull \<or> (\<exists>kvs. m_json m = JObj kvs)" using m(2) by (cases "m_json m") auto
  with that [of "m_json m"] m(1,3) plain_text [OF m(1), of fl] show thesis by simp
qed

lemma packet_start:
  assumes "packet (json_codec fl sd) b"
  obtains c s where "b = c # s" and "c = CHR ''{'' \<or> c = CHR ''n''"
  using assms
proof (rule packetE)
  fix j assume "plain j" "j = JNull \<or> (\<exists>kvs. j = JObj kvs)" "b = text_of fl j"
  then show thesis using that by (auto simp: text_of_JObj) (simp add: text_of_def)
qed

lemma skip_bom_start: "prefix q (c # s) \<Longrightarrow> c \<noteq> CHR 0xEF \<Longrightarrow> skip_bom q = Some q"
  by (cases q) (auto simp: skip_bom_def)

lemma Unmarshall_throws: "throws (parse_text sd s) \<Longrightarrow> Unmarshall_of (json_codec fl sd) s = throw Std_exception"
  by (auto simp: Unmarshall_of_def Unmarshall_TakeBuf_def json_codec_def)

text \<open>A packet that is cut short is an error.\<close>

lemma packet_cut:
  assumes "packet (json_codec fl sd) b" and "strict_prefix q b"
  shows "Unmarshall_of (json_codec fl sd) q = throw Std_exception"
proof (rule Unmarshall_throws)
  obtain j where j: "plain j" "j = JNull \<or> (\<exists>kvs. j = JObj kvs)" "b = text_of fl j"
    by (rule packetE [OF assms(1)])
  obtain c s where c: "b = c # s" "c = CHR ''{'' \<or> c = CHR ''n''" by (rule packet_start [OF assms(1)])
  have bom: "skip_bom q = Some q"
    using skip_bom_start [of q c s] assms(2) c by (auto simp: strict_prefix_def)
  have "throws (parse_tokens [] Want_value (lex sd q))"
  proof (cases "j = JNull")
    case True
    with j(3) assms(2) have "lex sd q \<in> {[], [Parse_error]}"
      by (intro lex_literal_cut [of q "''null''"]) (auto simp: text_of_def)
    then show ?thesis by auto
  next
    case False
    with j(2) obtain kvs where kvs: "j = JObj kvs" by blast
    have "\<forall>(k, v) \<in> set kvs. cut_fails fl sd v"
      using j(1) plain_cut_fails unfolding kvs by (auto simp: list_all_iff)
    from cut_object [OF j(1) [unfolded kvs] this assms(2) [unfolded j(3) kvs]] show ?thesis .
  qed
  then show "throws (parse_text sd q)" by (simp add: parse_text_def bom)
qed

text \<open>So is a packet with the start of another one.\<close>

lemma lex_packet_start: "c = CHR ''{'' \<or> c = CHR ''n'' \<Longrightarrow> lex sd (c # s) \<noteq> []"
  by (auto simp: lex.simps(2) is_space_def scan_token_def split: prod.splits)

lemma packet_more:
  assumes "packet (json_codec fl sd) b" and "c = CHR ''{'' \<or> c = CHR ''n''"
  shows "Unmarshall_of (json_codec fl sd) (b @ c # s) = throw Std_exception"
proof (rule Unmarshall_throws)
  obtain j where j: "plain j" "b = text_of fl j" by (rule packetE [OF assms(1)])
  have "lex sd (b @ c # s) = tokens j @ lex sd (c # s)"
    unfolding j(2) using plain_text [OF j(1)] assms(2) by (intro lexesD) (auto simp: delim_def)
  moreover obtain t ts where "lex sd (c # s) = t # ts"
    using lex_packet_start [OF assms(2), of sd s] by (cases "lex sd (c # s)") auto
  ultimately show "throws (parse_text sd (b @ c # s))"
    by (simp add: parse_text_def j(2) skip_bom_text [OF j(1)] parse_tokens_plain [OF j(1)])
qed

lemma packet_read:
  assumes "packet (json_codec fl sd) b"
  obtains u where "Unmarshall_of (json_codec fl sd) b = ret u"
proof -
  obtain m where m: "wf_marshall m" "Marshall_Buf (json_codec fl sd) m = ret b"
    using assms by (auto simp: packet_def)
  obtain s where "Marshall_Buf (json_codec fl sd) m = ret s"
    "\<And>u. Unmarshall_TakeBuf (json_codec fl sd) s u = ret (u\<lparr>un_json := canon (m_json m)\<rparr>)"
    using jw.Buf_TakeBuf [OF m(1)] by metis
  with m(2) that show thesis by (simp add: Unmarshall_of_def)
qed

section \<open>The stream\<close>

text \<open>The next read of a stream of packets succeeds only with exactly the first packet.\<close>

lemma read_is_packet:
  assumes "list_all (packet (json_codec fl sd)) (b # bs)" and "prefix q (b @ concat bs)"
    and "Unmarshall_of (json_codec fl sd) q = ret u"
  shows "q = b"
proof (rule ccontr)
  assume "q \<noteq> b"
  have b: "packet (json_codec fl sd) b" using assms(1) by simp
  show False
  proof (cases "prefix q b")
    case True
    with \<open>q \<noteq> b\<close> have "strict_prefix q b" by (simp add: strict_prefix_def)
    from packet_cut [OF b this] assms(3) show False by simp
  next
    case False
    with assms(2) obtain x where x: "q = b @ x" "x \<noteq> []" "prefix x (concat bs)"
      using \<open>q \<noteq> b\<close> by (auto simp: prefix_append)
    obtain b' bs' where bs: "bs = b' # bs'" using x(2,3) by (cases bs) auto
    with assms(1) have "packet (json_codec fl sd) b'" by simp
    then obtain c s where "b' = c # s" "c = CHR ''{'' \<or> c = CHR ''n''" by (rule packet_start)
    with x bs obtain s' where "x = c # s'" by (cases x) auto
    from packet_more [OF b, of c s'] \<open>c = _ \<or> _\<close> x(1) this assms(3) show False by simp
  qed
qed

lemma empty_read: "Unmarshall_of (json_codec fl sd) [] = throw Std_exception"
  by (rule Unmarshall_throws) (simp add: parse_text_def skip_bom_def)

lemma reads_are_packets:
  "list_all (packet (json_codec fl sd)) bs \<Longrightarrow> concat qs @ rest = concat bs \<Longrightarrow>
     \<forall>q \<in> set qs. \<exists>u. Unmarshall_of (json_codec fl sd) q = ret u \<Longrightarrow> qs = take (length qs) bs"
proof (induction qs arbitrary: bs)
  case (Cons q qs)
  then obtain u where u: "Unmarshall_of (json_codec fl sd) q = ret u" by auto
  show ?case
  proof (cases bs)
    case Nil
    with Cons.prems(2) u empty_read [of fl sd] show ?thesis by simp
  next
    case bs: (Cons b bs')
    have "prefix q (b @ concat bs')" using Cons.prems(2) bs by (metis concat.simps(2) append_assoc prefixI)
    from read_is_packet [OF _ this u] Cons.prems(1) bs have "q = b" by simp
    with Cons bs show ?thesis by simp
  qed
qed simp

lemma other_read_throws:
  assumes "list_all (packet (json_codec fl sd)) (b # bs)" and "n \<le> length (b @ concat bs)"
    and "take n data = take n (b @ concat bs)" and "n \<le> length data" and "n \<noteq> length b"
  shows "Unmarshall_of (json_codec fl sd) (resize n data) = throw Std_exception"
proof -
  let ?q = "take n (b @ concat bs)"
  have "?q \<noteq> b" using assms(2,5) by (metis length_take min.absorb2)
  then have "\<nexists>u. Unmarshall_of (json_codec fl sd) ?q = ret u"
    using read_is_packet [OF assms(1) take_is_prefix] by metis
  then have "Unmarshall_of (json_codec fl sd) ?q = throw Std_exception"
    by (auto simp: Unmarshall_of_def Unmarshall_TakeBuf_def split: sum.splits)
  moreover have "resize n data = ?q" using assms(3,4) by (simp add: resize_def)
  ultimately show ?thesis by simp
qed

text \<open>The buffer of a receive has \<open>DEFAULT_RPC_SZ\<close> bytes.\<close>

lemma oversized_packet:
  assumes "packet (json_codec fl sd) b" and "length b > DEFAULT_RPC_SZ" and "length data = DEFAULT_RPC_SZ"
    and "n \<le> DEFAULT_RPC_SZ" and "take n data = take n b"
  shows "OnReceiveFinished (json_codec fl sd) k data n OK v = (throw Std_exception, v)"
  using other_read_throws [where b = b and bs = "[]" and n = n and data = data] assms
  by (simp add: OnReceiveFinished_def Dispatch_def dispatch_lookup_def)

section \<open>Properties\<close>

text \<open>
  C27: no packet is misread. Whatever packets, of values without doubles and with UTF-8 strings, a
  peer writes to a stream, and however the network cuts the stream into reads: as long as the reads are accepted they are exactly the packets, one
  after the other. No part of a packet and no two packets are ever taken for a packet.
\<close>

theorem accepted_reads:
  assumes "list_all (packet (json_codec fl sd)) bs" and "prefix (concat qs) (concat bs)"
    and "list_all (\<lambda>q. \<exists>u. Unmarshall_of (json_codec fl sd) q = ret u) qs"
  shows "qs = take (length qs) bs"
  using reads_are_packets [OF assms(1)] assms(2,3) by (auto simp: prefix_def list_all_iff)

theorem accepted_reads_witness:
  "\<exists>b. packet demo_codec b \<and> [b] = take (length [b]) [b, b]"
proof -
  obtain b where b: "packet demo_codec b"
    using jw.Buf_TakeBuf [OF wf_marshall_new] unfolding packet_def by (metis wf_marshall_new)
  obtain u where "Unmarshall_of demo_codec b = ret u" by (rule packet_read [OF b])
  with b accepted_reads [of "\<lambda>d. []" "\<lambda>s. 0" "[b, b]" "[b]"] show ?thesis by auto
qed

text \<open>
  C40: a read that is no whole packet. The packets hold values without doubles and with UTF-8
  strings. A read of \<open>n\<close> bytes of a stream that starts with the packet \<open>b\<close>, where \<open>n\<close> is not the length of \<open>b\<close>, is an exception that leaves the worker of the server,
  and that of the client: a packet that arrives in two parts, two packets that arrive together,
  and every packet longer than the buffer.
\<close>

theorem only_whole_packets:
  assumes "list_all (packet (json_codec fl sd)) (b # bs)" and "n \<le> length (b @ concat bs)"
    and "take n data = take n (b @ concat bs)" and "n \<le> length data" and "n \<noteq> length b"
  shows "OnReceiveFinished (json_codec fl sd) k data n OK v = (throw Std_exception, v) \<and>
    OnReceiveFinished_client (json_codec fl sd) data n OK cl = (throw Std_exception, cl)"
  using other_read_throws [OF assms]
  by (simp add: OnReceiveFinished_def Dispatch_def dispatch_lookup_def
      OnReceiveFinished_client_def GotPdu_def got_read_def)

theorem only_whole_packets_witness:
  "\<exists>b. packet demo_codec b \<and> (\<forall>(v :: unit server) (cl :: unit client).
     OnReceiveFinished demo_codec 1 (b @ b) (length b + length b) OK v = (throw Std_exception, v) \<and>
     OnReceiveFinished_client demo_codec b (length b - 1) OK cl = (throw Std_exception, cl))"
proof -
  obtain b where b: "packet demo_codec b"
    using jw.Buf_TakeBuf [OF wf_marshall_new] unfolding packet_def by (metis wf_marshall_new)
  then have "b \<noteq> []" using packet_start by (metis list.distinct(1))
  then have l: "length b - 1 \<noteq> length b" "length b + length b \<noteq> length b" by (cases b, simp_all)
  have "OnReceiveFinished demo_codec 1 (b @ b) (length b + length b) OK v = (throw Std_exception, v)"
    for v :: "unit server"
    by (rule only_whole_packets [where b = b and bs = "[b]", THEN conjunct1]) (use b l in simp_all)
  moreover have "OnReceiveFinished_client demo_codec b (length b - 1) OK cl = (throw Std_exception, cl)"
    for cl :: "unit client"
    by (rule only_whole_packets [where b = b and bs = "[b]", THEN conjunct2]) (use b l in simp_all)
  ultimately show ?thesis using b by blast
qed

end
