(* ===== verification/Sockets.thy ===== *)
theory Sockets
  imports Rpc_Types
begin

text \<open>
  The adapters of \<open>src/include/rpc/socket.h\<close> over Boost.Asio: construction, \<open>Close\<close>, the
  operations they start and the translation of a completion's error code to \<open>Err\<close>. Asio itself
  (name resolution, the operating system's socket) is an argument or an operation started.
\<close>

section \<open>Error codes of completions\<close>

text \<open>The values of \<open>boost::system::error_code\<close> that the code tells apart.\<close>

datatype error_code =
    Success
  | Eof
  | Broken_pipe
  | Operation_aborted
  | Other_error nat

text \<open>The completion handlers of \<open>AsyncSocket::Send\<close>, \<open>Receive\<close>, \<open>Connect\<close>, of \<open>Accept\<close> and the timer.\<close>

definition send_result :: "error_code \<Rightarrow> Err" where
  "send_result ec =
     (if ec = Broken_pipe then BROKEN_PIPE else if ec \<noteq> Success then SEND_FAILURE else OK)"

definition receive_result :: "error_code \<Rightarrow> Err" where
  "receive_result ec =
     (if ec = Eof then CONNECTION_CLOSED
      else if ec = Broken_pipe then BROKEN_PIPE
      else if ec \<noteq> Success then RECEIVE_FAILURE else OK)"

definition connect_result :: "error_code \<Rightarrow> nat \<times> Err" where
  "connect_result ec = (0, if ec \<noteq> Success then CONNECT_FAILURE else OK)"

definition accept_result :: "error_code \<Rightarrow> Err" where
  "accept_result ec = (if ec \<noteq> Success then ACCEPT_FAILURE else OK)"

text \<open>\<open>None\<close>: the callback is not called.\<close>

definition timer_result :: "error_code \<Rightarrow> Err option" where
  "timer_result ec =
     (if ec = Operation_aborted then None
      else Some (if ec \<noteq> Success then TIMER_FAILURE else OK))"

section \<open>Objects\<close>

type_synonym endpoint = nat

datatype asio_op =
    Async_send string
  | Async_read_some nat
  | Async_connect endpoint
  | Async_accept
  | Async_wait int
  | Close_socket
  | Cancel_acceptor
  | Close_acceptor
  | Run_context
  | Stop_context

record AsyncSocket =
  closed :: bool

text \<open>
  The constructors, by whether the pointer to the I/O context is set. The one for an accepted
  connection takes over the socket and checks nothing.
\<close>

definition AsyncSocket_new :: "bool \<Rightarrow> AsyncSocket res" where
  "AsyncSocket_new ctx =
     (if \<not> ctx then throw (Runtime_error ''async socket: passing null ctx'')
      else ret \<lparr>closed = False\<rparr>)"

definition AsyncSocket_accepted :: AsyncSocket where
  "AsyncSocket_accepted = \<lparr>closed = False\<rparr>"

definition AsioIoContext_new :: "bool \<Rightarrow> unit res" where
  "AsioIoContext_new ctx =
     (if \<not> ctx then throw (Runtime_error ''null ctx for AsioIoContext'') else ret ())"

definition AsioTimer_new :: "bool \<Rightarrow> int \<Rightarrow> int res" where
  "AsioTimer_new ctx miliseconds =
     (if \<not> ctx then throw (Runtime_error ''asio timer: null ctx for constructor'')
      else ret miliseconds)"

text \<open>The first endpoint of a name; the iterator of an empty result must not be dereferenced.\<close>

definition first_endpoint :: "endpoint list res \<Rightarrow> endpoint res" where
  "first_endpoint r =
     bind_res r (\<lambda>es. case es of [] \<Rightarrow> throw Undefined_behaviour | e # _ \<Rightarrow> ret e)"

definition AsyncAcceptor_new ::
  "(string \<Rightarrow> string \<Rightarrow> endpoint list res) \<Rightarrow> bool \<Rightarrow> string \<Rightarrow> string \<Rightarrow> endpoint res" where
  "AsyncAcceptor_new resolve ctx host port =
     (if \<not> ctx then throw (Runtime_error ''passing null ctx for AsyncAcceptor constructor'')
      else first_endpoint (resolve host port))"

definition Send_socket :: "string \<Rightarrow> asio_op list" where
  "Send_socket buf = [Async_send buf]"

definition Receive_socket :: "string \<Rightarrow> asio_op list" where
  "Receive_socket buf = [Async_read_some (length buf)]"

definition Connect_socket ::
  "(string \<Rightarrow> string \<Rightarrow> endpoint list res) \<Rightarrow> string \<Rightarrow> string \<Rightarrow> asio_op list res" where
  "Connect_socket resolve host port =
     bind_res (first_endpoint (resolve host port)) (\<lambda>e. ret [Async_connect e])"

text \<open>\<open>Close\<close> swallows whatever the socket's \<open>close\<close> throws; the destructor calls it again.\<close>

definition Close_sock :: "AsyncSocket \<Rightarrow> AsyncSocket \<times> asio_op list" where
  "Close_sock s = (if closed s then (s, []) else (s\<lparr>closed := True\<rparr>, [Close_socket]))"

definition AsyncSocket_destroy :: "AsyncSocket \<Rightarrow> asio_op list" where
  "AsyncSocket_destroy s = snd (Close_sock s)"

definition Close_acc :: "asio_op list" where
  "Close_acc = [Cancel_acceptor, Close_acceptor]"

definition Accept_acc :: "asio_op list" where
  "Accept_acc = [Async_accept]"

definition Wait_timer :: "int \<Rightarrow> asio_op list" where
  "Wait_timer t = [Async_wait t]"

text \<open>The context of an \<open>AsioIoContext\<close> is never null, so its timers can be built.\<close>

definition Run_io :: "asio_op list" where
  "Run_io = [Run_context]"

definition Stop_io :: "asio_op list" where
  "Stop_io = [Stop_context]"

definition CreateTimer_io :: "int \<Rightarrow> int res" where
  "CreateTimer_io miliseconds = AsioTimer_new True miliseconds"

lemma CreateTimer_io_ret [simp]: "CreateTimer_io t = ret t"
  by (simp add: CreateTimer_io_def AsioTimer_new_def)

section \<open>Properties\<close>

text \<open>
  What completions report. \<open>OK\<close> is reported for success only. A cancelled receive is reported
  as \<open>RECEIVE_FAILURE\<close> and never as \<open>CANCEL\<close>, so the branches of client and server for \<open>CANCEL\<close>
  are never taken with these sockets; a cancelled timer calls nothing, any other one does.
\<close>

theorem completion_errors:
  "(send_result ec = OK \<longleftrightarrow> ec = Success) \<and> (receive_result ec = OK \<longleftrightarrow> ec = Success) \<and>
   (snd (connect_result ec) = OK \<longleftrightarrow> ec = Success) \<and> (accept_result ec = OK \<longleftrightarrow> ec = Success) \<and>
   (timer_result ec = Some OK \<longleftrightarrow> ec = Success) \<and>
   CANCEL \<notin> {send_result ec, receive_result ec, snd (connect_result ec), accept_result ec} \<and>
   receive_result Operation_aborted = RECEIVE_FAILURE \<and>
   (timer_result ec = None \<longleftrightarrow> ec = Operation_aborted)"
  by (cases ec) (simp_all add: send_result_def receive_result_def connect_result_def
      accept_result_def timer_result_def)

text \<open>
  A socket is closed once. Of any number of calls of \<open>Close\<close>, the one of the destructor
  included, only the first reaches the operating system.
\<close>

theorem close_once:
  "snd (Close_sock s) = (if closed s then [] else [Close_socket]) \<and>
   Close_sock (fst (Close_sock s)) = (fst (Close_sock s), []) \<and> closed (fst (Close_sock s)) \<and>
   AsyncSocket_destroy (fst (Close_sock s)) = []"
  by (simp add: Close_sock_def AsyncSocket_destroy_def)

end
