(* ===== verification/Fibers.thy ===== *)
theory Fibers
  imports Prelude "HOL-Library.Multiset"
begin

text \<open>
  The thread pool of \<open>common/fiber_thread_manager.h\<close> and \<open>common/fiber_thread_pool.h\<close>: the
  constructor with its barrier, the loop of the workers on the condition variable, the destructor,
  and the tasks that \<open>Submit\<close> hands to the scheduler. Barrier, mutex, condition variable and the
  \<open>shared_work\<close> scheduler are Boost.Fiber's; they enter through the guards of the steps, which
  say what their documentation promises: the barrier opens when all have arrived, the mutex has
  one holder, a wait may end without a notification, ready fibers are served in their order by any
  thread that has joined the scheduler and whose own fiber is suspended.
\<close>

section \<open>Configurations\<close>

text \<open>Where the thread stands that owns the pool.\<close>

datatype main_pc =
    Spawning          \<comment> \<open>constructor: the loop that starts the workers\<close>
  | Main_at_barrier   \<comment> \<open>constructor: \<open>b->wait()\<close>\<close>
  | Open              \<comment> \<open>between constructor and destructor\<close>
  | Closing           \<comment> \<open>destructor: holds \<open>mu_\<close>\<close>
  | Finishing         \<comment> \<open>destructor: \<open>*finish_\<close> is set, \<open>mu_\<close> still held\<close>
  | Notifying         \<comment> \<open>destructor: before \<open>notify_all\<close>\<close>
  | Detaching         \<comment> \<open>destructor: the loop over the workers\<close>
  | Gone

text \<open>Where a worker stands in its lambda.\<close>

datatype worker_pc =
    Started
  | Joined            \<comment> \<open>takes part in the scheduling\<close>
  | At_barrier
  | Passed            \<comment> \<open>before \<open>unique_lock l(*mu)\<close>\<close>
  | Checking          \<comment> \<open>evaluates the predicate of \<open>wait\<close>, holds \<open>mu\<close>\<close>
  | Blocking          \<comment> \<open>the predicate was false; \<open>wait\<close> still holds \<open>mu\<close>\<close>
  | Waiting
  | Woken             \<comment> \<open>to lock \<open>mu\<close> again\<close>
  | Exited

datatype holder = Main | Worker nat

type_synonym ('s, 'a) task = "'s \<Rightarrow> 'a res \<times> 's"

record ('s, 'a) pool_state =
  main_pc :: main_pc
  workers :: "worker_pc list"
  arrived :: nat                            \<comment> \<open>threads that have called \<open>b->wait()\<close>\<close>
  finish :: bool
  mu :: "holder option"
  ready :: "(nat \<times> ('s, 'a) task) list"     \<comment> \<open>fibers of \<open>Submit\<close> not yet run\<close>
  next_fut :: nat
  futures :: "nat \<Rightarrow> 'a res option"         \<comment> \<open>the shared states of the futures\<close>
  shared :: 's                              \<comment> \<open>what the tasks act on\<close>
  tasks :: "nat \<Rightarrow> ('s, 'a) task option"     \<comment> \<open>ghost: all tasks submitted\<close>
  runs :: "(nat \<times> 's) list"                 \<comment> \<open>ghost: the tasks run, with the state before\<close>

definition pool_init :: "('s, 'a) pool_state \<Rightarrow> bool" where
  "pool_init s \<longleftrightarrow>
     main_pc s = Spawning \<and> workers s = [] \<and> arrived s = 0 \<and> \<not> finish s \<and> mu s = None \<and>
     ready s = [] \<and> next_fut s = 0 \<and> futures s = Map.empty \<and> tasks s = Map.empty \<and> runs s = []"

text \<open>\<open>Submit\<close>: the packaged task with its future, on a detached fiber.\<close>

definition Submit :: "('s, 'a) task \<Rightarrow> ('s, 'a) pool_state \<Rightarrow> nat \<times> ('s, 'a) pool_state" where
  "Submit f s =
     (next_fut s, s\<lparr>ready := ready s @ [(next_fut s, f)], next_fut := Suc (next_fut s),
                    tasks := (tasks s)(next_fut s \<mapsto> f)\<rparr>)"

text \<open>The body of the fiber: the result of the task, or its exception, goes to the future.\<close>

definition run_task :: "nat \<Rightarrow> ('s, 'a) task \<Rightarrow> ('s, 'a) pool_state \<Rightarrow> ('s, 'a) pool_state" where
  "run_task q f s =
     (case f (shared s) of
        (r, v) \<Rightarrow>
          s\<lparr>shared := v, futures := (futures s)(q \<mapsto> r), runs := runs s @ [(q, shared s)]\<rparr>)"

definition wake :: "worker_pc \<Rightarrow> worker_pc" where
  "wake p = (if p = Waiting then Woken else p)"

section \<open>Steps\<close>

text \<open>A worker on its own: the new position, with the mutex, the flag and the barrier around it.\<close>

inductive wstep ::
  "nat \<Rightarrow> nat \<Rightarrow> bool \<times> holder option \<times> nat \<times> worker_pc \<Rightarrow> holder option \<times> nat \<times> worker_pc \<Rightarrow> bool"
  for n i :: nat where
  join: "wstep n i (b, m, a, Started) (m, a, Joined)"
| arrive: "wstep n i (b, m, a, Joined) (m, Suc a, At_barrier)"
| pass: "a = n \<Longrightarrow> wstep n i (b, m, a, At_barrier) (m, a, Passed)"
| lock: "p = Passed \<or> p = Woken \<Longrightarrow> wstep n i (b, None, a, p) (Some (Worker i), a, Checking)"
| leave: "wstep n i (True, m, a, Checking) (None, a, Exited)"
| not_yet: "wstep n i (False, m, a, Checking) (m, a, Blocking)"
| block: "wstep n i (b, m, a, Blocking) (None, a, Waiting)"
| spurious: "wstep n i (b, m, a, Waiting) (m, a, Woken)"

inductive_cases wstepE: "wstep n i (b, m, a, p) (m', a', p')"

inductive fstep :: "nat \<Rightarrow> ('s, 'a) pool_state \<Rightarrow> ('s, 'a) pool_state \<Rightarrow> bool" for n :: nat where
  spawn: "main_pc s = Spawning \<Longrightarrow> length (workers s) < n - 1 \<Longrightarrow>
     fstep n s (s\<lparr>workers := workers s @ [Started]\<rparr>)"
| main_arrive: "main_pc s = Spawning \<Longrightarrow> length (workers s) = n - 1 \<Longrightarrow>
     fstep n s (s\<lparr>main_pc := Main_at_barrier, arrived := Suc (arrived s)\<rparr>)"
| main_pass: "main_pc s = Main_at_barrier \<Longrightarrow> arrived s = n \<Longrightarrow> fstep n s (s\<lparr>main_pc := Open\<rparr>)"
| worker: "i < length (workers s) \<Longrightarrow>
     wstep n i (finish s, mu s, arrived s, workers s ! i) (m, a, p) \<Longrightarrow>
     fstep n s (s\<lparr>mu := m, arrived := a, workers := (workers s)[i := p]\<rparr>)"
| submit: "main_pc s = Open \<Longrightarrow> Submit f s = (q, t) \<Longrightarrow> fstep n s t"
| run_main: "main_pc s = Open \<or> main_pc s = Gone \<Longrightarrow> ready s = (q, f) # fs \<Longrightarrow>
     fstep n s (run_task q f (s\<lparr>ready := fs\<rparr>))"
| run_worker: "i < length (workers s) \<Longrightarrow> workers s ! i \<in> {Passed, Waiting, Woken} \<Longrightarrow>
     ready s = (q, f) # fs \<Longrightarrow> fstep n s (run_task q f (s\<lparr>ready := fs\<rparr>))"
| close: "main_pc s = Open \<Longrightarrow> mu s = None \<Longrightarrow>
     fstep n s (s\<lparr>main_pc := Closing, mu := Some Main\<rparr>)"
| set_finish: "main_pc s = Closing \<Longrightarrow> fstep n s (s\<lparr>main_pc := Finishing, finish := True\<rparr>)"
| unlock: "main_pc s = Finishing \<Longrightarrow> fstep n s (s\<lparr>main_pc := Notifying, mu := None\<rparr>)"
| notify: "main_pc s = Notifying \<Longrightarrow>
     fstep n s (s\<lparr>main_pc := Detaching, workers := map wake (workers s)\<rparr>)"
| detach: "main_pc s = Detaching \<Longrightarrow> fstep n s (s\<lparr>main_pc := Gone\<rparr>)"

abbreviation freach :: "nat \<Rightarrow> ('s, 'a) pool_state \<Rightarrow> bool" where
  "freach n \<equiv> reach pool_init (fstep n)"

text \<open>
  The condition variable may end a wait without a notification, but nobody may rely on it: a step
  that wakes a worker in this way, and a step that the program takes by itself.
\<close>

definition spurious_wake :: "('s, 'a) pool_state \<Rightarrow> ('s, 'a) pool_state \<Rightarrow> bool" where
  "spurious_wake s t \<longleftrightarrow>
     (\<exists>i < length (workers s). workers s ! i = Waiting \<and> t = s\<lparr>workers := (workers s)[i := Woken]\<rparr>)"

definition fmove :: "nat \<Rightarrow> ('s, 'a) pool_state \<Rightarrow> ('s, 'a) pool_state \<Rightarrow> bool" where
  "fmove n s t \<longleftrightarrow> fstep n s t \<and> \<not> spurious_wake s t"

section \<open>The workers and the barrier\<close>

text \<open>Workers that have not called \<open>b->wait()\<close>, and work left until all have exited.\<close>

definition early :: "worker_pc \<Rightarrow> nat" where
  "early p = (if p = Started \<or> p = Joined then 1 else 0)"

definition past_barrier :: "worker_pc \<Rightarrow> bool" where
  "past_barrier p \<longleftrightarrow> p \<notin> {Started, Joined, At_barrier}"

lemma sum_list_update_nat:
  "i < length xs \<Longrightarrow> sum_list (map f (xs[i := y])) + f (xs ! i) = sum_list (map f xs) + (f y :: nat)"
  by (induction xs arbitrary: i) (auto split: nat.split)

lemma early_wake [simp]: "early (wake p) = early p"
  by (simp add: early_def wake_def)

lemma early_simps [simp]: "early Started = 1" "early Joined = 1" "early At_barrier = 0"
  by (simp_all add: early_def)

lemma past_barrier_simps [simp]:
  "\<not> past_barrier Started" "\<not> past_barrier Joined" "\<not> past_barrier At_barrier"
  by (simp_all add: past_barrier_def)

lemma past_barrier_wake [simp]: "past_barrier (wake p) \<longleftrightarrow> past_barrier p"
  by (simp add: past_barrier_def wake_def)

lemma wake_eq [simp]:
  "wake p = Started \<longleftrightarrow> p = Started" "wake p = Joined \<longleftrightarrow> p = Joined"
  "wake p = Exited \<longleftrightarrow> p = Exited" "wake p = Checking \<longleftrightarrow> p = Checking" "wake p \<noteq> Waiting"
  by (simp_all add: wake_def)

lemma set_update_cases: "x \<in> set (xs[i := y]) \<Longrightarrow> x = y \<or> x \<in> set xs"
  using set_update_subset_insert by fastforce

text \<open>What a worker step keeps of the barrier.\<close>

lemma wstep_barrier:
  assumes "wstep n i (b, m, a, p) (m', a', p')"
  shows "a' + early p' = a + early p" and "past_barrier p' \<Longrightarrow> past_barrier p \<or> a = n" and "a \<le> a'"
    and "a < a' \<Longrightarrow> early p = 1"
  using assms by (auto elim!: wstepE simp: early_def past_barrier_def)

definition barrier_inv :: "nat \<Rightarrow> ('s, 'a) pool_state \<Rightarrow> bool" where
  "barrier_inv n s \<longleftrightarrow>
     length (workers s) \<le> n - 1 \<and> (main_pc s \<noteq> Spawning \<longrightarrow> length (workers s) = n - 1) \<and>
     arrived s + sum_list (map early (workers s)) =
       (if main_pc s = Spawning then 0 else 1) + length (workers s) \<and>
     ((\<exists>p \<in> set (workers s). past_barrier p) \<or> main_pc s \<notin> {Spawning, Main_at_barrier} \<longrightarrow>
       arrived s = n)"

lemma early_sum_0: "sum_list (map early ws) = 0 \<longleftrightarrow> Started \<notin> set ws \<and> Joined \<notin> set ws"
  by (auto simp: early_def)

lemma early_sum_le: "sum_list (map early ws) \<le> length ws"
  by (induction ws) (auto simp: early_def)

text \<open>When the barrier is open everybody has arrived.\<close>

lemma barrier_open:
  assumes "barrier_inv n s" and "arrived s = n" and "n > 0"
  shows "sum_list (map early (workers s)) = 0" and "length (workers s) = n - 1"
    and "main_pc s \<noteq> Spawning"
  using assms by (auto simp: barrier_inv_def split: if_splits)

lemma barrier_inv_worker:
  assumes "barrier_inv n s" and "i < length (workers s)"
    and "wstep n i (finish s, mu s, arrived s, workers s ! i) (m, a, p)"
  shows "barrier_inv n (s\<lparr>mu := m, arrived := a, workers := (workers s)[i := p]\<rparr>)"
proof -
  note w = wstep_barrier [OF assms(3)]
  have sum: "a + sum_list (map early ((workers s)[i := p])) =
      arrived s + sum_list (map early (workers s))"
    using w(1) sum_list_update_nat [OF assms(2), of early p] by simp
  have le: "a + sum_list (map early ((workers s)[i := p])) \<le> n" if "n > 0"
    using sum assms(1) that by (auto simp: barrier_inv_def split: if_splits)
  have n: "n > 0" using assms(1,2) by (auto simp: barrier_inv_def)
  have "a = n" if "arrived s = n" using le n that w(3) by simp
  moreover have "arrived s = n" if "past_barrier q" "q \<in> set ((workers s)[i := p])" for q
    using set_update_cases [OF that(2)] that(1) w(2) assms(1,2)
    by (auto simp: barrier_inv_def)
  ultimately show ?thesis using assms(1) sum by (auto simp: barrier_inv_def)
qed

lemma main_pc_run_task [simp]:
  "main_pc (run_task q f s) = main_pc s" "workers (run_task q f s) = workers s"
  "arrived (run_task q f s) = arrived s" "finish (run_task q f s) = finish s"
  "mu (run_task q f s) = mu s" "next_fut (run_task q f s) = next_fut s"
  "ready (run_task q f s) = ready s"
  by (simp_all add: run_task_def split: prod.split)

lemma barrier_inv_step: "fstep n s t \<Longrightarrow> barrier_inv n s \<Longrightarrow> barrier_inv n t"
proof (induction rule: fstep.induct)
  case (worker i s m a p)
  then show ?case by (intro barrier_inv_worker) auto
next
  case (main_arrive s)
  have "arrived s \<noteq> n \<or> n = 0"
    using barrier_open [OF main_arrive.prems] main_arrive.hyps by auto
  with main_arrive show ?case by (auto simp: barrier_inv_def)
qed (auto simp: barrier_inv_def Submit_def comp_def)

section \<open>The mutex and the shutdown\<close>

definition holds_mu :: "worker_pc \<Rightarrow> bool" where
  "holds_mu p \<longleftrightarrow> p = Checking \<or> p = Blocking"

lemma holds_mu_wake [simp]: "holds_mu (wake p) \<longleftrightarrow> holds_mu p"
  by (simp add: holds_mu_def wake_def)

definition mutex_inv :: "('s, 'a) pool_state \<Rightarrow> bool" where
  "mutex_inv s \<longleftrightarrow>
     (mu s = Some Main \<longleftrightarrow> main_pc s = Closing \<or> main_pc s = Finishing) \<and>
     (\<forall>i < length (workers s). holds_mu (workers s ! i) \<longleftrightarrow> mu s = Some (Worker i)) \<and>
     (\<forall>i. mu s = Some (Worker i) \<longrightarrow> i < length (workers s))"

definition flags_inv :: "('s, 'a) pool_state \<Rightarrow> bool" where
  "flags_inv s \<longleftrightarrow>
     (finish s \<longleftrightarrow> main_pc s \<in> {Finishing, Notifying, Detaching, Gone}) \<and>
     (\<forall>p \<in> set (workers s).
        (p = Exited \<longrightarrow> finish s) \<and> (p = Blocking \<longrightarrow> \<not> finish s) \<and>
        (p = Waiting \<longrightarrow> main_pc s \<noteq> Detaching \<and> main_pc s \<noteq> Gone))"

lemma wstep_mutex:
  assumes "wstep n i (b, m, a, p) (m', a', p')" and "holds_mu p \<longleftrightarrow> m = Some (Worker i)"
  shows "holds_mu p' \<longleftrightarrow> m' = Some (Worker i)"
    and "m' = m \<or> {m, m'} \<subseteq> {None, Some (Worker i)}"
  using assms by (auto elim!: wstepE simp: holds_mu_def)

lemma mutex_inv_worker:
  assumes "mutex_inv s" and "i < length (workers s)"
    and "wstep n i (finish s, mu s, arrived s, workers s ! i) (m, a, p)"
  shows "mutex_inv (s\<lparr>mu := m, arrived := a, workers := (workers s)[i := p]\<rparr>)"
proof -
  have "holds_mu (workers s ! i) \<longleftrightarrow> mu s = Some (Worker i)"
    using assms(1,2) by (simp add: mutex_inv_def)
  note w = wstep_mutex [OF assms(3) this]
  have "m = Some h \<longleftrightarrow> mu s = Some h" if "h \<noteq> Worker i" for h
    using w(2) that by auto
  with w(1) assms(1,2) show ?thesis
    by (auto simp: mutex_inv_def nth_list_update)
qed

lemma mutex_inv_step: "fstep n s t \<Longrightarrow> mutex_inv s \<Longrightarrow> mutex_inv t"
proof (induction rule: fstep.induct)
  case (worker i s m a p)
  then show ?case by (intro mutex_inv_worker) auto
qed (auto simp: mutex_inv_def Submit_def nth_append less_Suc_eq holds_mu_def [of Started])

text \<open>The flag is set under the mutex, so no worker is between its test and its wait.\<close>

lemma flags_inv_step: "fstep n s t \<Longrightarrow> mutex_inv s \<Longrightarrow> flags_inv s \<Longrightarrow> flags_inv t"
proof (induction rule: fstep.induct)
  case (worker i s m a p)
  have old: "workers s ! i \<in> set (workers s)" using worker.hyps(1) by simp
  have "(p = Exited \<longrightarrow> finish s) \<and> (p = Blocking \<longrightarrow> \<not> finish s) \<and>
      (p = Waiting \<longrightarrow> main_pc s \<noteq> Detaching \<and> main_pc s \<noteq> Gone)"
    using worker.hyps(2) worker.prems(2) old
    by (cases rule: wstep.cases) (auto simp: flags_inv_def)
  with worker.prems(2) show ?case
    by (auto simp: flags_inv_def dest!: set_update_cases)
next
  case (set_finish s)
  then have "\<not> holds_mu q" if "q \<in> set (workers s)" for q
    using that by (auto simp: mutex_inv_def in_set_conv_nth)
  then have "Blocking \<notin> set (workers s)" by (auto simp: holds_mu_def)
  with set_finish show ?case by (auto simp: flags_inv_def)
next
  case (notify s)
  then show ?case by (auto simp: flags_inv_def wake_def)
qed (auto simp: flags_inv_def Submit_def)

section \<open>The tasks\<close>

text \<open>Every future stands for one task, which waits or has run.\<close>

definition tasks_inv :: "('s, 'a) pool_state \<Rightarrow> bool" where
  "tasks_inv s \<longleftrightarrow>
     mset (map fst (ready s)) + mset (map fst (runs s)) = mset [0..<next_fut s] \<and>
     (\<forall>q f. (q, f) \<in> set (ready s) \<longrightarrow> tasks s q = Some f) \<and>
     (\<forall>q r. futures s q = Some r \<longleftrightarrow>
        (\<exists>f v. (q, v) \<in> set (runs s) \<and> tasks s q = Some f \<and> fst (f v) = r)) \<and>
     (\<forall>q v. (q, v) \<in> set (runs s) \<longrightarrow> tasks s q \<noteq> None)"

lemma count_list_distinct: "distinct xs \<Longrightarrow> x \<in> set xs \<Longrightarrow> count_list xs x = 1"
  by (induction xs) (auto simp: count_list_0_iff)

lemma tasks_inv_ids:
  assumes "tasks_inv s"
  shows "distinct (map fst (ready s) @ map fst (runs s))"
    and "fst ` set (ready s) \<union> fst ` set (runs s) = {..<next_fut s}"
proof -
  have m: "mset (map fst (ready s) @ map fst (runs s)) = mset [0..<next_fut s]"
    using assms by (simp add: tasks_inv_def)
  show "distinct (map fst (ready s) @ map fst (runs s))"
    using mset_eq_imp_distinct_iff [OF m] by simp
  show "fst ` set (ready s) \<union> fst ` set (runs s) = {..<next_fut s}"
    using mset_eq_setD [OF m] by (simp add: atLeast0LessThan)
qed

lemma tasks_inv_run:
  assumes "tasks_inv s" and "ready s = (q, f) # fs"
  shows "tasks_inv (run_task q f (s\<lparr>ready := fs\<rparr>))"
proof -
  obtain r v where r: "f (shared s) = (r, v)" by fastforce
  have "q \<notin> fst ` set (runs s)"
    using tasks_inv_ids(1) [OF assms(1)] assms(2) by auto
  then have "(q, v') \<notin> set (runs s)" for v' by force
  then show ?thesis
    using assms r by (auto simp: tasks_inv_def run_task_def)
qed

lemma tasks_inv_submit:
  assumes "tasks_inv s" and "Submit f s = (q, t)"
  shows "tasks_inv t"
proof -
  have "next_fut s \<notin> fst ` set (ready s)" "next_fut s \<notin> fst ` set (runs s)"
    using tasks_inv_ids(2) [OF assms(1)] by auto
  then have "(next_fut s, x) \<notin> set (ready s)" "(next_fut s, v) \<notin> set (runs s)" for x v
    by force+
  with assms show ?thesis
    by (auto simp: tasks_inv_def Submit_def atLeastLessThanSuc split: if_splits) blast
qed

lemma tasks_inv_step: "fstep n s t \<Longrightarrow> tasks_inv s \<Longrightarrow> tasks_inv t"
proof (induction rule: fstep.induct)
  case (submit s f q t)
  then show ?case using tasks_inv_submit by blast
next
  case (run_main s q f fs)
  then show ?case using tasks_inv_run by blast
next
  case (run_worker i s q f fs)
  then show ?case using tasks_inv_run by blast
qed (auto simp: tasks_inv_def)

section \<open>The pool as an invariant system\<close>

definition pool_inv :: "nat \<Rightarrow> ('s, 'a) pool_state \<Rightarrow> bool" where
  "pool_inv n s \<longleftrightarrow> barrier_inv n s \<and> mutex_inv s \<and> flags_inv s \<and> tasks_inv s"

lemma pool_inv_init: "pool_init s \<Longrightarrow> pool_inv n s"
  by (auto simp: pool_inv_def pool_init_def barrier_inv_def mutex_inv_def flags_inv_def tasks_inv_def)

lemma pool_inv_step: "pool_inv n s \<Longrightarrow> fstep n s t \<Longrightarrow> pool_inv n t"
  by (auto simp: pool_inv_def
      intro: barrier_inv_step mutex_inv_step flags_inv_step tasks_inv_step)

interpretation pool_sys: invariant_system pool_init "fstep n" "pool_inv n"
  by unfold_locales (fact pool_inv_init pool_inv_step)+

lemma pool_invD:
  assumes "freach n s"
  shows "barrier_inv n s" and "mutex_inv s" and "flags_inv s" and "tasks_inv s"
  using pool_sys.reach_inv [OF assms] by (simp_all add: pool_inv_def)

lemma freach_relpow: "(fstep n ^^ k) s t \<Longrightarrow> freach n s \<Longrightarrow> freach n t"
  by (induction k arbitrary: t) (auto intro: reach_step)

section \<open>The shutdown\<close>

text \<open>Steps that are left at most once the workers have been notified.\<close>

fun effort :: "worker_pc \<Rightarrow> nat" where
  "effort Started = 5"
| "effort Joined = 4"
| "effort At_barrier = 3"
| "effort Passed = 2"
| "effort Checking = 1"
| "effort Blocking = 4"
| "effort Waiting = 3"
| "effort Woken = 2"
| "effort Exited = 0"

definition work :: "('s, 'a) pool_state \<Rightarrow> nat" where
  "work s = (if main_pc s = Detaching then 1 else 0) + length (ready s) +
     sum_list (map effort (workers s))"

definition stopping :: "('s, 'a) pool_state \<Rightarrow> bool" where
  "stopping s \<longleftrightarrow> main_pc s = Detaching \<or> main_pc s = Gone"

lemma stopping_step: "fstep n s t \<Longrightarrow> stopping s \<Longrightarrow> stopping t"
  by (induction rule: fstep.induct) (auto simp: stopping_def)

lemma wstep_effort:
  "wstep n i (b, m, a, p) (m', a', p') \<Longrightarrow> b \<Longrightarrow> effort p' < effort p"
  by (erule wstepE) auto

lemma work_decreases:
  assumes "fstep n s t" and "stopping s" and "flags_inv s"
  shows "work t < work s"
  using assms
proof (induction rule: fstep.induct)
  case (worker i s m a p)
  have "finish s" using worker.prems by (auto simp: flags_inv_def stopping_def)
  then have "effort p < effort (workers s ! i)" by (rule wstep_effort [OF worker.hyps(2)])
  with sum_list_update_nat [OF worker.hyps(1), of effort p] show ?case by (simp add: work_def)
qed (auto simp: stopping_def work_def)

text \<open>As long as a worker has not exited, one of them can go on.\<close>

lemma worker_moves:
  assumes "pool_inv n s" and "stopping s" and "i < length (workers s)" and "workers s ! i \<noteq> Exited"
  shows "\<exists>t. fstep n s t"
proof -
  have bar: "barrier_inv n s" and mx: "mutex_inv s" and fl: "flags_inv s"
    using assms(1) by (simp_all add: pool_inv_def)
  have "n > 0" using bar assms(3) by (auto simp: barrier_inv_def)
  have a: "arrived s = n" using bar assms(2) by (auto simp: barrier_inv_def stopping_def)
  have fin: "finish s" using fl assms(2) by (auto simp: flags_inv_def stopping_def)
  have here: "workers s ! i \<in> set (workers s)" using assms(3) by simp
  have step: "\<exists>t. fstep n s t"
    if "j < length (workers s)" "wstep n j (finish s, mu s, arrived s, workers s ! j) (m, b, p)"
    for j m b p
    using fstep.worker [OF that] by blast
  show ?thesis
  proof (cases "mu s")
    case (Some h)
    then obtain j where h: "h = Worker j" "j < length (workers s)"
      using mx assms(2) by (cases h) (auto simp: mutex_inv_def stopping_def)
    then have "holds_mu (workers s ! j)" using mx Some by (simp add: mutex_inv_def)
    moreover have "workers s ! j \<in> set (workers s)" using h(2) by simp
    ultimately have "workers s ! j = Checking" using fl fin by (auto simp: flags_inv_def holds_mu_def)
    with h(2) fin show ?thesis by (intro step) (auto intro: wstep.leave)
  next
    case None
    have "Started \<notin> set (workers s)" "Joined \<notin> set (workers s)"
      using barrier_open(1) [OF bar a \<open>n > 0\<close>] by (auto simp: early_sum_0)
    moreover have "\<not> holds_mu (workers s ! i)" using mx None assms(3) by (simp add: mutex_inv_def)
    moreover have "workers s ! i \<noteq> Waiting" using fl assms(2) here
      by (auto simp: flags_inv_def stopping_def)
    ultimately consider "workers s ! i = At_barrier" | "workers s ! i = Passed \<or> workers s ! i = Woken"
      using assms(4) here by (cases "workers s ! i") (auto simp: holds_mu_def)
    then show ?thesis
    proof cases
      case 1
      with a assms(3) show ?thesis by (intro step) (auto intro: wstep.pass)
    next
      case 2
      with None assms(3) show ?thesis by (intro step) (auto intro: wstep.lock)
    qed
  qed
qed

text \<open>After the notification nobody waits, so every step is one that the program takes by itself.\<close>

lemma fmove_stopping:
  assumes "flags_inv s" and "stopping s"
  shows "fmove n s t \<longleftrightarrow> fstep n s t"
proof -
  have "Waiting \<notin> set (workers s)" using assms by (auto simp: flags_inv_def stopping_def)
  then have "\<not> spurious_wake s t" by (auto simp: spurious_wake_def in_set_conv_nth)
  then show ?thesis by (simp add: fmove_def)
qed

lemma pool_inv_flags: "pool_inv n s \<Longrightarrow> flags_inv s"
  by (simp add: pool_inv_def)

lemma stuck_iff:
  assumes "pool_inv n s" and "stopping s"
  shows "(\<nexists>t. fmove n s t) \<longleftrightarrow>
    main_pc s = Gone \<and> set (workers s) \<subseteq> {Exited} \<and> ready s = []"
  unfolding fmove_stopping [OF pool_inv_flags [OF assms(1)] assms(2)]
proof
  assume stuck: "\<nexists>t. fstep n s t"
  have gone: "main_pc s = Gone"
    using assms(2) stuck fstep.detach by (auto simp: stopping_def)
  moreover have "set (workers s) \<subseteq> {Exited}"
    using worker_moves [OF assms] stuck by (force simp: in_set_conv_nth)
  moreover have "ready s = []"
    using stuck fstep.run_main gone by (cases "ready s") fastforce+
  ultimately show "main_pc s = Gone \<and> set (workers s) \<subseteq> {Exited} \<and> ready s = []" by blast
next
  assume "main_pc s = Gone \<and> set (workers s) \<subseteq> {Exited} \<and> ready s = []"
  then have "work s = 0" by (induction "workers s") (auto simp: work_def)
  with work_decreases assms show "\<nexists>t. fstep n s t" by (fastforce simp: pool_inv_def)
qed

section \<open>The futures\<close>

text \<open>The threads serve the ready fibers in their order, at the latest the waiting main thread.\<close>

lemma ready_prefix_runs:
  assumes "ready s = qs @ fs" and "main_pc s = Open"
  shows "\<exists>t. (fstep n ^^ length qs) s t \<and> main_pc t = Open \<and> ready t = fs \<and>
    next_fut t = next_fut s"
  using assms
proof (induction qs arbitrary: s)
  case Nil
  then show ?case by auto
next
  case (Cons x qs)
  obtain q f where x: "x = (q, f)" by fastforce
  define u where "u = run_task q f (s\<lparr>ready := qs @ fs\<rparr>)"
  have step: "fstep n s u" using Cons.prems x unfolding u_def by (intro fstep.run_main) auto
  have "\<exists>t. (fstep n ^^ length qs) u t \<and> main_pc t = Open \<and> ready t = fs \<and>
      next_fut t = next_fut u"
    using Cons.prems by (intro Cons.IH) (simp_all add: u_def)
  moreover have "next_fut u = next_fut s" by (simp add: u_def)
  ultimately show ?case using step relpowp_Suc_I2 [of "fstep n" s u] by fastforce
qed

lemma not_ready_has_future:
  assumes "tasks_inv s" and "q < next_fut s" and "q \<notin> fst ` set (ready s)"
  shows "futures s q \<noteq> None"
proof -
  have "q \<in> fst ` set (runs s)" using tasks_inv_ids(2) [OF assms(1)] assms(2,3) by blast
  then obtain v where v: "(q, v) \<in> set (runs s)" by force
  with assms(1) obtain f where "tasks s q = Some f" by (force simp: tasks_inv_def)
  with v assms(1) have "futures s q = Some (fst (f v))" by (auto simp: tasks_inv_def)
  then show ?thesis by simp
qed

section \<open>An example run\<close>

text \<open>A pool of two threads that is given one task and destroyed before the task has run.\<close>

definition demo_task :: "(nat, nat) task" where
  "demo_task k = (ret (k + 5), k + 1)"

definition demo_pool ::
  "main_pc \<Rightarrow> worker_pc list \<Rightarrow> nat \<Rightarrow> bool \<Rightarrow> holder option \<Rightarrow> (nat, nat) pool_state" where
  "demo_pool m ws a b h =
     \<lparr>main_pc = m, workers = ws, arrived = a, finish = b, mu = h, ready = [], next_fut = 0,
      futures = Map.empty, shared = 1, tasks = Map.empty, runs = []\<rparr>"

definition with_task :: "(nat, nat) pool_state \<Rightarrow> (nat, nat) pool_state" where
  "with_task s = snd (Submit demo_task s)"

lemma demo_worker:
  assumes "freach 2 (demo_pool m [p] a b h)" and "wstep 2 0 (b, h, a, p) (h', a', p')"
  shows "freach 2 (demo_pool m [p'] a' b h')"
  using reach_step [OF assms(1) fstep.worker [where i = 0]] assms(2) by (simp add: demo_pool_def)

lemma demo_worker_task:
  assumes "freach 2 (with_task (demo_pool m [p] a b h))" and "wstep 2 0 (b, h, a, p) (h', a', p')"
  shows "freach 2 (with_task (demo_pool m [p'] a' b h'))"
  using reach_step [OF assms(1) fstep.worker [where i = 0]] assms(2)
  by (simp add: demo_pool_def with_task_def Submit_def)

lemma demo_open: "freach 2 (with_task (demo_pool Open [Waiting] 2 False None))"
proof -
  have "freach 2 (demo_pool Spawning [] 0 False None)"
    by (rule reach_init) (simp add: demo_pool_def pool_init_def)
  from reach_step [OF this fstep.spawn] have "freach 2 (demo_pool Spawning [Started] 0 False None)"
    by (simp add: demo_pool_def)
  from reach_step [OF this fstep.main_arrive]
  have "freach 2 (demo_pool Main_at_barrier [Started] 1 False None)" by (simp add: demo_pool_def)
  from demo_worker [OF this wstep.join] have "freach 2 (demo_pool Main_at_barrier [Joined] 1 False None)" .
  from demo_worker [OF this wstep.arrive]
  have "freach 2 (demo_pool Main_at_barrier [At_barrier] 2 False None)" by (simp add: numeral_2_eq_2)
  from demo_worker [OF this wstep.pass] have "freach 2 (demo_pool Main_at_barrier [Passed] 2 False None)"
    by simp
  from reach_step [OF this fstep.main_pass] have "freach 2 (demo_pool Open [Passed] 2 False None)"
    by (simp add: demo_pool_def)
  from reach_step [OF this fstep.submit [where f = demo_task, OF _ surjective_pairing]]
  have "freach 2 (with_task (demo_pool Open [Passed] 2 False None))"
    by (simp add: demo_pool_def with_task_def)
  from demo_worker_task [OF this wstep.lock]
  have "freach 2 (with_task (demo_pool Open [Checking] 2 False (Some (Worker 0))))" by simp
  from demo_worker_task [OF this wstep.not_yet]
  have "freach 2 (with_task (demo_pool Open [Blocking] 2 False (Some (Worker 0))))" .
  from demo_worker_task [OF this wstep.block] show ?thesis .
qed

lemma demo_gone: "freach 2 (with_task (demo_pool Gone [Woken] 2 True None))"
proof -
  note defs = demo_pool_def with_task_def Submit_def wake_def
  from reach_step [OF demo_open fstep.close]
  have "freach 2 (with_task (demo_pool Closing [Waiting] 2 False (Some Main)))" by (simp add: defs)
  from reach_step [OF this fstep.set_finish]
  have "freach 2 (with_task (demo_pool Finishing [Waiting] 2 True (Some Main)))" by (simp add: defs)
  from reach_step [OF this fstep.unlock]
  have "freach 2 (with_task (demo_pool Notifying [Waiting] 2 True None))" by (simp add: defs)
  from reach_step [OF this fstep.notify]
  have "freach 2 (with_task (demo_pool Detaching [Woken] 2 True None))" by (simp add: defs)
  from reach_step [OF this fstep.detach] show ?thesis by (simp add: defs)
qed

section \<open>Properties\<close>

text \<open>
  C36: when the constructor has returned, all \<open>num_worker - 1\<close> workers have been started and each one
  takes part in the scheduling.
\<close>

theorem constructor_waits_for_all:
  assumes "freach n s" and "main_pc s \<noteq> Spawning" and "main_pc s \<noteq> Main_at_barrier"
  shows "length (workers s) = n - 1 \<and> Started \<notin> set (workers s) \<and> Joined \<notin> set (workers s)"
proof -
  note inv = pool_invD(1) [OF assms(1)]
  have a: "arrived s = n" using inv assms(2,3) by (simp add: barrier_inv_def)
  then have "n > 0" using inv assms(2) early_sum_le [of "workers s"] by (auto simp: barrier_inv_def)
  from barrier_open [OF inv a this] show ?thesis unfolding early_sum_0 by blast
qed

theorem constructor_waits_for_all_witness:
  "length (workers (with_task (demo_pool Open [Waiting] 2 False None))) = 2 - 1"
  using constructor_waits_for_all [OF demo_open]
  by (simp add: demo_pool_def with_task_def Submit_def)

text \<open>
  C35: the shutdown ends. From the moment the destructor has notified the workers every run of all
  threads has at most \<open>work s\<close> steps, whatever the schedule. Such a run can go on without the help
  of spurious wake-ups until the destructor has returned, every worker has exited and no task is
  waiting, and only then it stops: no wake-up is lost.
\<close>

theorem shutdown_terminates:
  assumes "freach n s" and "main_pc s = Detaching \<or> main_pc s = Gone" and "(fstep n ^^ k) s t"
  shows "k \<le> work s \<and>
    ((\<nexists>u. fmove n t u) \<longleftrightarrow> main_pc t = Gone \<and> set (workers t) \<subseteq> {Exited} \<and> ready t = [])"
proof -
  have "stopping s" using assms(2) by (simp add: stopping_def)
  with assms(3,1) have "stopping t \<and> k + work t \<le> work s"
  proof (induction k arbitrary: t)
    case (Suc k)
    then obtain u where u: "(fstep n ^^ k) s u" "fstep n u t" by auto
    have "flags_inv u" by (rule pool_invD(3) [OF freach_relpow [OF u(1) Suc.prems(2)]])
    with Suc.IH [OF u(1) Suc.prems(2,3)] u(2) show ?case
      using stopping_step work_decreases by fastforce
  qed auto
  moreover have "pool_inv n t"
    by (rule pool_sys.reach_inv [OF freach_relpow [OF assms(3,1)]])
  ultimately show ?thesis using stuck_iff [of n t] by simp
qed

theorem shutdown_terminates_witness:
  "\<nexists>t. (fstep 2 ^^ 4) (with_task (demo_pool Gone [Woken] 2 True None)) t"
proof
  assume "\<exists>t. (fstep 2 ^^ 4) (with_task (demo_pool Gone [Woken] 2 True None)) t"
  then obtain t where "(fstep 2 ^^ 4) (with_task (demo_pool Gone [Woken] 2 True None)) t" by blast
  from shutdown_terminates [OF demo_gone _ this] show False
    by (simp add: work_def demo_pool_def with_task_def Submit_def)
qed

text \<open>
  A future that is ready holds what its own task returned, or the exception it threw, in a
  state the shared data really had; the task has run exactly once and will not run again.
\<close>

theorem future_value:
  assumes "freach n s" and "futures s q = Some r"
  shows "(\<exists>f v. tasks s q = Some f \<and> (q, v) \<in> set (runs s) \<and> fst (f v) = r) \<and>
    count_list (map fst (runs s)) q = 1 \<and> q \<notin> fst ` set (ready s)"
proof -
  note inv = pool_invD(4) [OF assms(1)]
  obtain f v where v: "tasks s q = Some f" "(q, v) \<in> set (runs s)" "fst (f v) = r"
    using inv assms(2) by (auto simp: tasks_inv_def)
  then have q: "q \<in> set (map fst (runs s))" by force
  have d: "distinct (map fst (runs s))" "q \<notin> fst ` set (ready s)"
    using tasks_inv_ids(1) [OF inv] q by auto
  from count_list_distinct [OF d(1) q] d(2) v show ?thesis by blast
qed

theorem future_value_witness:
  "\<exists>s :: (nat, nat) pool_state. freach 2 s \<and> futures s 0 = Some (ret 6) \<and> count_list (map fst (runs s)) 0 = 1"
proof -
  let ?s = "with_task (demo_pool Open [Waiting] 2 False None)"
  define t where "t = run_task 0 demo_task (?s\<lparr>ready := []\<rparr>)"
  have "fstep 2 ?s t" unfolding t_def
    by (rule fstep.run_worker [where i = 0]) (simp_all add: demo_pool_def with_task_def Submit_def)
  then have r: "freach 2 t" by (rule reach_step [OF demo_open])
  moreover have f: "futures t 0 = Some (ret 6)"
    by (simp add: t_def run_task_def demo_task_def demo_pool_def with_task_def Submit_def)
  ultimately show ?thesis using future_value [OF r f] by blast
qed

text \<open>
  \<open>get\<close> on a future of an open pool does not wait for ever: after at most as many steps as there
  are ready tasks the future can be ready, even if no worker moves.
\<close>

theorem future_becomes_ready:
  assumes "freach n s" and "main_pc s = Open" and "q < next_fut s"
  shows "\<exists>k t. k \<le> length (ready s) \<and> (fstep n ^^ k) s t \<and> futures t q \<noteq> None"
proof -
  obtain t where t: "(fstep n ^^ length (ready s)) s t" "ready t = []" "next_fut t = next_fut s"
    using ready_prefix_runs [of s "ready s" "[]" n] assms(2) by auto
  have "tasks_inv t" by (rule pool_invD(4) [OF freach_relpow [OF t(1) assms(1)]])
  with t assms(3) not_ready_has_future [of t q] show ?thesis by auto
qed

theorem future_becomes_ready_witness:
  "\<exists>t. (fstep 2 ^^ 1) (with_task (demo_pool Open [Waiting] 2 False None)) t \<and> futures t 0 \<noteq> None"
proof -
  let ?s = "with_task (demo_pool Open [Waiting] 2 False None)"
  have "futures ?s 0 = None" "length (ready ?s) = 1" "main_pc ?s = Open" "0 < next_fut ?s"
    by (simp_all add: demo_pool_def with_task_def Submit_def)
  with future_becomes_ready [OF demo_open, of 0] obtain k t
    where k: "k \<le> 1" "(fstep 2 ^^ k) ?s t" "futures t 0 \<noteq> None" by auto
  have "k \<noteq> 0"
  proof
    assume "k = 0"
    with k(2,3) \<open>futures ?s 0 = None\<close> show False by simp
  qed
  with k(1) have "k = 1" by simp
  with k show ?thesis by blast
qed

end
