(* ===== verification/Scope_Guard.thy ===== *)
theory Scope_Guard
  imports Reply_Window
begin

text \<open>
  The scope guard of \<open>common/marco.h\<close> and its one use, the trimming in
  \<open>RpcServer::CheckDuplicateAndUpdate\<close>. The function is written here statement by statement, with
  the guard and an iterator loop, and shown equal to the version of \<open>Reply_Window\<close> that the other
  theories use.
\<close>

section \<open>The guard\<close>

text \<open>\<open>[&]\<close> captures by reference: the stored function acts on the state around the block.\<close>

record 's ScopeGuard =
  func :: "'s \<Rightarrow> 's"

definition ScopeGuard_of :: "('s \<Rightarrow> 's) \<Rightarrow> 's ScopeGuard" where
  "ScopeGuard_of f = \<lparr>func = f\<rparr>"

text \<open>The move constructor: the new object, and what is left in the old one.\<close>

definition ScopeGuard_move :: "'s ScopeGuard \<Rightarrow> 's ScopeGuard \<times> 's ScopeGuard" where
  "ScopeGuard_move other = (\<lparr>func = func other\<rparr>, other)"

definition ScopeGuard_destroy :: "'s ScopeGuard \<Rightarrow> 's \<Rightarrow> 's" where
  "ScopeGuard_destroy g s = func g s"

text \<open>\<open>MakeGuard\<close> and \<open>operator+\<close> return the object that they build in place.\<close>

definition MakeGuard :: "('s \<Rightarrow> 's) \<Rightarrow> 's ScopeGuard" where
  "MakeGuard f = ScopeGuard_of f"

definition ScopeGuardOnExit_plus :: "('s \<Rightarrow> 's) \<Rightarrow> 's ScopeGuard" where
  "ScopeGuardOnExit_plus f = ScopeGuard_of f"

text \<open>
  \<open>ON_SCOPE_EXIT { f }; body\<close>: the rest of the block runs with the guard alive; whether it returns
  or throws, the guard is destroyed after it.
\<close>

definition ON_SCOPE_EXIT :: "('s \<Rightarrow> 's) \<Rightarrow> ('s \<Rightarrow> 'a res \<times> 's) \<Rightarrow> 's \<Rightarrow> 'a res \<times> 's" where
  "ON_SCOPE_EXIT f body s =
     (let g = ScopeGuardOnExit_plus f in
      case body s of (r, s') \<Rightarrow> (r, ScopeGuard_destroy g s'))"

text \<open>The same for a guard that is moved into a second variable of the block.\<close>

definition guard_moved_in_block ::
  "('s \<Rightarrow> 's) \<Rightarrow> ('s \<Rightarrow> 'a res \<times> 's) \<Rightarrow> 's \<Rightarrow> 'a res \<times> 's" where
  "guard_moved_in_block f body s =
     (case ScopeGuard_move (MakeGuard f) of (g2, g1) \<Rightarrow>
      case body s of (r, s') \<Rightarrow> (r, ScopeGuard_destroy g1 (ScopeGuard_destroy g2 s')))"

lemmas guard_defs = ScopeGuard_of_def ScopeGuard_move_def ScopeGuard_destroy_def MakeGuard_def
  ScopeGuardOnExit_plus_def

lemma on_scope_exit_cases:
  "body s = (r, s') \<Longrightarrow> ON_SCOPE_EXIT f body s = (r, f s')"
  by (simp add: ON_SCOPE_EXIT_def guard_defs)

section \<open>\<open>CheckDuplicateAndUpdate\<close> as it is written\<close>

text \<open>The acknowledgement; \<open>operator[]\<close> leaves an entry for the client.\<close>

definition update_acknowledged :: "nonce_t \<Rightarrow> xid_t \<Rightarrow> windows \<Rightarrow> windows" where
  "update_acknowledged clt xid_rep w =
     (let w1 = w\<lparr>max_ackowledged_rep := (max_ackowledged_rep w)(clt \<mapsto> acked w clt)\<rparr>
      in if xid_rep > acked w clt
         then w1\<lparr>max_ackowledged_rep := (max_ackowledged_rep w1)(clt \<mapsto> xid_rep)\<rparr> else w1)"

text \<open>The erase loop always looks at the first entry: \<open>erase\<close> returns the new first one.\<close>

definition trim_on_exit :: "nonce_t \<Rightarrow> windows \<Rightarrow> windows" where
  "trim_on_exit clt w =
     w\<lparr>reply_window := (reply_window w)(clt \<mapsto> trim (acked w clt) (window_of w clt))\<rparr>"

text \<open>
  The search loop with the iterator as an index, from the entry \<open>i\<close> on: the state returned, the
  entry that \<open>*rep_buf\<close> is set to, and the window.
\<close>

function search_from ::
  "xid_t \<Rightarrow> ReplyT list \<Rightarrow> nat \<Rightarrow> (State \<times> nat option) \<times> ReplyT list" where
  "search_from xid rs i =
     (if length rs \<le> i then ((NEW, None), rs @ [ReplyT_new xid])
      else if rp_xid (rs ! i) = xid then
        ((if cb_present (rs ! i) then (DONE, Some i) else (INPROGRESS, None)), rs)
      else if rp_xid (rs ! i) > xid then ((NEW, None), take i rs @ ReplyT_new xid # drop i rs)
      else search_from xid rs (Suc i))"
  by pat_completeness auto
termination
  by (relation "measure (\<lambda>(_, rs, i). length rs - i)") auto

declare search_from.simps [simp del]

definition check_body ::
  "nonce_t \<Rightarrow> xid_t \<Rightarrow> windows \<Rightarrow> (State \<times> nat option) res \<times> windows" where
  "check_body clt xid w =
     (if xid \<le> acked w clt then (ret (FORGOTTEN, None), w)
      else case search_from xid (window_of w clt) 0 of
        (r, rs) \<Rightarrow> (ret r, w\<lparr>reply_window := (reply_window w)(clt \<mapsto> rs)\<rparr>))"

definition CheckDuplicateAndUpdate_written ::
  "nonce_t \<Rightarrow> xid_t \<Rightarrow> xid_t \<Rightarrow> windows \<Rightarrow> (State \<times> nat option) res \<times> windows" where
  "CheckDuplicateAndUpdate_written clt xid xid_rep w =
     ON_SCOPE_EXIT (trim_on_exit clt) (check_body clt xid) (update_acknowledged clt xid_rep w)"

section \<open>The loop and the list function\<close>

text \<open>From entry \<open>i\<close> on the loop is \<open>scan\<close> on the rest of the list.\<close>

lemma search_from_scan:
  "map_prod fst id (search_from xid rs i) =
   map_prod id (\<lambda>t. take i rs @ t) (scan xid (drop i rs))"
proof (induction xid rs i rule: search_from.induct)
  case (1 xid rs i)
  show ?case
  proof (cases "length rs \<le> i")
    case True
    then show ?thesis by (subst search_from.simps) simp
  next
    case False
    then have d: "drop i rs = rs ! i # drop (Suc i) rs" by (simp add: Cons_nth_drop_Suc)
    then have split: "take i rs @ rs ! i # drop (Suc i) rs = rs"
      by (metis append_take_drop_id)
    show ?thesis
    proof (cases "rp_xid (rs ! i) = xid \<or> rp_xid (rs ! i) > xid")
      case True
      then show ?thesis using False by (subst search_from.simps) (auto simp: d split scan.simps)
    next
      case last: False
      then have "map_prod fst id (search_from xid rs (Suc i)) =
          map_prod id (\<lambda>t. take (Suc i) rs @ t) (scan xid (drop (Suc i) rs))"
        using "1.IH" False by (simp add: id_def)
      then show ?thesis using False last
        by (subst search_from.simps) (auto simp: d take_Suc_conv_app_nth scan.simps split: prod.splits)
    qed
  qed
qed

text \<open>What \<open>*rep_buf\<close> points to.\<close>

lemma search_from_pointer:
  assumes "search_from xid rs i = ((st, q), rs')"
  shows "(st = DONE \<longleftrightarrow> q \<noteq> None) \<and>
    (\<forall>j. q = Some j \<longrightarrow> rs' = rs \<and> j < length rs \<and> rp_xid (rs ! j) = xid \<and> cb_present (rs ! j))"
  using assms
proof (induction xid rs i rule: search_from.induct)
  case (1 xid rs i)
  note unfold = search_from.simps [of xid rs i]
  show ?case using "1.prems" "1.IH" unfolding unfold by (auto split: if_splits)
qed

lemma update_acknowledged_eq:
  "update_acknowledged clt xid_rep w =
   w\<lparr>max_ackowledged_rep := (max_ackowledged_rep w)
     (clt \<mapsto> if xid_rep > acked w clt then xid_rep else acked w clt)\<rparr>"
  by (simp add: update_acknowledged_def Let_def)

lemma acked_update [simp]:
  "acked (update_acknowledged clt xid_rep w) clt =
   (if xid_rep > acked w clt then xid_rep else acked w clt)"
  by (simp add: update_acknowledged_eq acked_def)

lemma window_of_update [simp]: "window_of (update_acknowledged clt xid_rep w) clt = window_of w clt"
  by (simp add: update_acknowledged_eq window_of_def)

lemma acked_reply_window [simp]: "acked (w\<lparr>reply_window := r\<rparr>) clt = acked w clt"
  by (simp add: acked_def)

lemma window_of_reply_window [simp]:
  "window_of (w\<lparr>reply_window := (reply_window w)(clt \<mapsto> rs)\<rparr>) clt = rs"
  by (simp add: window_of_def)

text \<open>The list version after the acknowledgement.\<close>

lemma check_after_update:
  assumes "u = update_acknowledged clt xid_rep w"
  shows "CheckDuplicateAndUpdate clt xid xid_rep w =
    (case (if xid \<le> acked u clt then (FORGOTTEN, window_of u clt) else scan xid (window_of u clt)) of
      (st, rs) \<Rightarrow> (st, u\<lparr>reply_window := (reply_window u)(clt \<mapsto> trim (acked u clt) rs)\<rparr>))"
  unfolding assms acked_update CheckDuplicateAndUpdate_def Let_def
  by (simp only: update_acknowledged_eq)

text \<open>Of two guards the later one acts first; a guard that has been moved from still acts.\<close>

lemma guards_nest: "ON_SCOPE_EXIT f (ON_SCOPE_EXIT g body) s = (fst (body s), f (g (snd (body s))))"
  by (simp add: ON_SCOPE_EXIT_def guard_defs split_beta)

lemma moved_guard_acts_twice: "guard_moved_in_block f body s = (fst (body s), f (f (snd (body s))))"
  by (simp add: guard_moved_in_block_def guard_defs split_beta)

section \<open>Properties\<close>

text \<open>
  C19: \<open>CheckDuplicateAndUpdate\<close> with its guard and its iterator loop never throws and computes the
  state and the windows of the list version; it sets \<open>*rep_buf\<close> exactly for \<open>DONE\<close>, to an entry of
  the window with this transaction and a reply.
\<close>

theorem check_as_written:
  "\<exists>st q w'. CheckDuplicateAndUpdate_written clt xid xid_rep w = (ret (st, q), w') \<and>
     CheckDuplicateAndUpdate clt xid xid_rep w = (st, w') \<and>
     (case q of
        None \<Rightarrow> st \<noteq> DONE
      | Some j \<Rightarrow> st = DONE \<and> j < length (window_of w clt) \<and>
          rp_xid (window_of w clt ! j) = xid \<and> cb_present (window_of w clt ! j))"
proof -
  define u where "u = update_acknowledged clt xid_rep w"
  have win: "window_of u clt = window_of w clt" by (simp add: u_def)
  obtain st q rs where s: "search_from xid (window_of w clt) 0 = ((st, q), rs)"
    by (metis surj_pair)
  have sc: "scan xid (window_of w clt) = (st, rs)"
    using search_from_scan [of xid "window_of w clt" 0] s
    by (auto simp: map_prod_def split: prod.splits)
  note check = check_after_update [OF u_def, of xid]
  show ?thesis
  proof (cases "xid \<le> acked u clt")
    case True
    then have "check_body clt xid u = (ret (FORGOTTEN, None), u)"
      by (simp add: check_body_def)
    then show ?thesis
      unfolding CheckDuplicateAndUpdate_written_def u_def [symmetric]
      using True check by (simp add: on_scope_exit_cases trim_on_exit_def)
  next
    case False
    then have "check_body clt xid u =
        (ret (st, q), u\<lparr>reply_window := (reply_window u)(clt \<mapsto> rs)\<rparr>)"
      using s by (simp add: check_body_def win)
    then show ?thesis
      unfolding CheckDuplicateAndUpdate_written_def u_def [symmetric]
      using False check sc search_from_pointer [OF s] win
      by (auto simp: on_scope_exit_cases trim_on_exit_def split: option.split)
  qed
qed

end
