(* ===== verification/Dump_Integer.thy ===== *)
theory Dump_Integer
  imports Prelude
begin

text \<open>
  \<open>dump_integer\<close> of nlohmann's serializer as it is written (\<open>detail/output/serializer.hpp\<close>): the
  number of digits is counted first, then a buffer of 64 characters is filled from that place
  backwards, two digits at a time from a table. It writes the decimal text of \<open>Prelude\<close>, for every
  signed and unsigned number of 64 bits, and stays inside the buffer.
\<close>

section \<open>The routine\<close>

function count_digits_from :: "nat \<Rightarrow> 64 word \<Rightarrow> nat" where
  "count_digits_from n_digits x =
     (if x < 10 then n_digits
      else if x < 100 then n_digits + 1
      else if x < 1000 then n_digits + 2
      else if x < 10000 then n_digits + 3
      else count_digits_from (n_digits + 4) (x div 10000))"
  by pat_completeness auto
termination
proof (relation "measure (\<lambda>(_, x). unat x)")
  show "((n + 4, x div 10000), (n, x)) \<in> measure (\<lambda>(_, x). unat x)" if "\<not> x < 10" for n and x :: "64 word"
  proof -
    from that have "10 \<le> unat x" by (simp add: word_less_nat_alt)
    then show ?thesis by (simp add: unat_div)
  qed
qed simp

declare count_digits_from.simps [simp del]

definition count_digits :: "64 word \<Rightarrow> nat" where
  "count_digits x = count_digits_from 1 x"

text \<open>The absolute value of a negative number, as an unsigned one.\<close>

definition remove_sign :: "64 word \<Rightarrow> 64 word res" where
  "remove_sign x =
     (if sint x < 0 \<and> sint x < 2 ^ 63 - 1 then ret (- (x + 1) + 1) else throw Assertion_failed)"

definition digits_to_99 :: "string list" where
  "digits_to_99 = [
    ''00'', ''01'', ''02'', ''03'', ''04'', ''05'', ''06'', ''07'', ''08'', ''09'',
    ''10'', ''11'', ''12'', ''13'', ''14'', ''15'', ''16'', ''17'', ''18'', ''19'',
    ''20'', ''21'', ''22'', ''23'', ''24'', ''25'', ''26'', ''27'', ''28'', ''29'',
    ''30'', ''31'', ''32'', ''33'', ''34'', ''35'', ''36'', ''37'', ''38'', ''39'',
    ''40'', ''41'', ''42'', ''43'', ''44'', ''45'', ''46'', ''47'', ''48'', ''49'',
    ''50'', ''51'', ''52'', ''53'', ''54'', ''55'', ''56'', ''57'', ''58'', ''59'',
    ''60'', ''61'', ''62'', ''63'', ''64'', ''65'', ''66'', ''67'', ''68'', ''69'',
    ''70'', ''71'', ''72'', ''73'', ''74'', ''75'', ''76'', ''77'', ''78'', ''79'',
    ''80'', ''81'', ''82'', ''83'', ''84'', ''85'', ''86'', ''87'', ''88'', ''89'',
    ''90'', ''91'', ''92'', ''93'', ''94'', ''95'', ''96'', ''97'', ''98'', ''99'']"

text \<open>\<open>*(--buffer_ptr) = c\<close>: the place of the pointer and the buffer.\<close>

definition put_back :: "char \<Rightarrow> nat \<times> string \<Rightarrow> (nat \<times> string) res" where
  "put_back c pb =
     (case pb of (p, buf) \<Rightarrow>
        if 0 < p \<and> p \<le> length buf then ret (p - 1, buf[p - 1 := c]) else throw Undefined_behaviour)"

definition put_pair :: "64 word \<Rightarrow> nat \<times> string \<Rightarrow> (nat \<times> string) res" where
  "put_pair i pb =
     bind_res (put_back (digits_to_99 ! unat i ! 1) pb) (put_back (digits_to_99 ! unat i ! 0))"

function put_digits :: "64 word \<Rightarrow> nat \<times> string \<Rightarrow> (nat \<times> string) res" where
  "put_digits abs_value pb =
     (if abs_value \<ge> 100 then bind_res (put_pair (abs_value mod 100) pb) (put_digits (abs_value div 100))
      else if abs_value \<ge> 10 then put_pair abs_value pb
      else put_back (char_of (48 + unat abs_value)) pb)"
  by pat_completeness auto
termination
proof (relation "measure (\<lambda>(x, _). unat x)")
  show "((x div 100, y), (x, pb)) \<in> measure (\<lambda>(x, _). unat x)" if "100 \<le> x" for y pb and x :: "64 word"
  proof -
    from that have "100 \<le> unat x" by (simp add: word_le_nat_alt)
    then show ?thesis by (simp add: unat_div)
  qed
qed simp

declare put_digits.simps [simp del]

text \<open>\<open>number_buffer\<close> holds 64 characters; what it holds before does not matter.\<close>

definition dump_integer :: "bool \<Rightarrow> string \<Rightarrow> 64 word \<Rightarrow> string res" where
  "dump_integer is_signed number_buffer x =
     (if x = 0 then ret ''0''
      else
        bind_res (if is_signed \<and> sint x < 0
          then bind_res (remove_sign x) (\<lambda>a. ret (number_buffer[0 := CHR ''-''], a, 1 + count_digits a))
          else ret (number_buffer, x, count_digits x)) (\<lambda>(buf, abs_value, n_chars).
        if n_chars < length number_buffer - 1
        then bind_res (put_digits abs_value (n_chars, buf)) (\<lambda>(_, buf'). ret (take n_chars buf'))
        else throw Assertion_failed))"

section \<open>It writes the decimal text\<close>

lemma nat_digits_small: "n < 10 \<Longrightarrow> nat_digits n = [digit_char n]"
  by (subst nat_digits.simps) simp

lemma nat_digits_step: "10 \<le> n \<Longrightarrow> nat_digits n = nat_digits (n div 10) @ [digit_char (n mod 10)]"
  by (subst nat_digits.simps) simp

lemma nat_digits_pair: "100 \<le> n \<Longrightarrow>
    nat_digits n = nat_digits (n div 100) @ [digit_char (n div 10 mod 10), digit_char (n mod 10)]"
  by (simp add: nat_digits_step [of n] nat_digits_step [of "n div 10"] div_mult2_eq [symmetric])

lemma count_digits_from:
  "count_digits_from n x + 1 = n + length (nat_digits (unat x))"
proof (induction n x rule: count_digits_from.induct)
  case (1 n x)
  let ?m = "unat x"
  have u: "unat (x div 10000) = ?m div 10000" by (simp add: unat_div)
  have lt: "x < 10 \<longleftrightarrow> ?m < 10" "x < 100 \<longleftrightarrow> ?m < 100" "x < 1000 \<longleftrightarrow> ?m < 1000" "x < 10000 \<longleftrightarrow> ?m < 10000"
    by (simp_all add: word_less_nat_alt)
  consider "?m < 10" | "10 \<le> ?m" "?m < 100" | "100 \<le> ?m" "?m < 1000" | "1000 \<le> ?m" "?m < 10000" | "10000 \<le> ?m"
    by linarith
  then show ?case
  proof cases
    case 5
    then have "length (nat_digits ?m) = 4 + length (nat_digits (?m div 10000))"
      by (simp add: nat_digits_pair [of ?m] nat_digits_pair [of "?m div 100"] div_mult2_eq [symmetric])
    moreover have "count_digits_from n x = count_digits_from (n + 4) (x div 10000)"
      using 5 lt by (subst count_digits_from.simps) simp
    ultimately show ?thesis using 1 5 lt u by simp
  qed (subst count_digits_from.simps,
      simp add: lt nat_digits_small nat_digits_step div_mult2_eq [symmetric])+
qed

lemma count_digits: "count_digits x = length (nat_digits (unat x))"
  using count_digits_from [of 1 x] by (simp add: count_digits_def)

lemma digits_to_99:
  assumes "i < 100"
  shows "digits_to_99 ! i = [digit_char (i div 10), digit_char (i mod 10)]"
proof -
  have "digits_to_99 = map (\<lambda>i. [digit_char (i div 10), digit_char (i mod 10)]) [0..<100]" by code_simp
  then have "digits_to_99 ! i = map (\<lambda>i. [digit_char (i div 10), digit_char (i mod 10)]) [0..<100] ! i"
    by (rule arg_cong)
  also have "\<dots> = [digit_char (i div 10), digit_char (i mod 10)]"
    by (subst nth_map_upt) (use assms in simp_all)
  finally show ?thesis .
qed

lemma put_back_ok:
  "0 < p \<Longrightarrow> p \<le> length buf \<Longrightarrow>
     put_back c (p, buf) = ret (p - 1, take (p - 1) buf @ c # drop p buf)"
  by (simp add: put_back_def upd_conv_take_nth_drop)

lemma put_pair_ok:
  assumes "2 \<le> p" and "p \<le> length buf" and "unat i < 100"
  shows "put_pair i (p, buf) =
    ret (p - 2, take (p - 2) buf @ digit_char (unat i div 10) # digit_char (unat i mod 10) # drop p buf)"
proof -
  let ?c = "digit_char (unat i mod 10)"
  obtain q where p: "p = Suc (Suc q)" using assms(1) by (metis add_2_eq_Suc le_Suc_ex)
  have "put_pair i (p, buf) =
      put_back (digit_char (unat i div 10)) (p - 1, take (p - 1) buf @ ?c # drop p buf)"
    using assms by (simp add: put_pair_def put_back_ok digits_to_99)
  also have "\<dots> = ret (p - 2, take (p - 2) buf @ digit_char (unat i div 10) # ?c # drop p buf)"
    using assms(2) unfolding p by (subst put_back_ok) (auto simp: min_def)
  finally show ?thesis .
qed

text \<open>One round of the loop over pairs of digits.\<close>

lemma put_digits_round:
  fixes x :: "64 word"
  defines "n \<equiv> unat x" and "pair \<equiv> [digit_char (unat x mod 100 div 10), digit_char (unat x mod 100 mod 10)]"
  assumes "100 \<le> n" and "p = k + length (nat_digits n)" and "p \<le> length buf"
  obtains buf' where "put_digits x (p, buf) = put_digits (x div 100) (p - 2, buf')"
    and "nat_digits n = nat_digits (n div 100) @ pair" and "p - 2 = k + length (nat_digits (n div 100))"
    and "p - 2 \<le> length buf'" and "take k buf' = take k buf" and "drop (p - 2) buf' = pair @ drop p buf"
proof -
  let ?buf = "take (p - 2) buf @ pair @ drop p buf"
  have dg: "nat_digits n = nat_digits (n div 100) @ pair"
    using assms(3) by (simp add: nat_digits_pair mod_mult2_eq [of "unat x" 10 10, simplified] pair_def n_def)
  then have p: "p - 2 = k + length (nat_digits (n div 100))" "2 \<le> p"
    using assms(4) by (simp_all add: pair_def)
  then have len: "length (take (p - 2) buf) = p - 2" using assms(5) by simp
  have "put_digits x (p, buf) = bind_res (put_pair (x mod 100) (p, buf)) (put_digits (x div 100))"
    using assms(3) by (subst put_digits.simps) (simp add: word_le_nat_alt n_def)
  also have "\<dots> = put_digits (x div 100) (p - 2, ?buf)"
    using p(2) assms(5) by (simp add: put_pair_ok unat_mod pair_def)
  finally show thesis
    by (rule that [OF _ dg p(1)]) (use len p in \<open>simp_all add: min_def\<close>)
qed

lemma put_digits_ok:
  assumes "p = k + length (nat_digits (unat x))" and "p \<le> length buf"
  shows "\<exists>q. put_digits x (p, buf) = ret (q, take k buf @ nat_digits (unat x) @ drop p buf)"
  using assms
proof (induction "unat x" arbitrary: x p buf rule: less_induct)
  case less
  let ?n = "unat x"
  consider "100 \<le> ?n" | "10 \<le> ?n" "?n < 100" | "?n < 10" by linarith
  then show ?case
  proof cases
    case 1
    have u: "unat (x div 100) = ?n div 100" by (simp add: unat_div)
    obtain buf' where r: "put_digits x (p, buf) = put_digits (x div 100) (p - 2, buf')"
      "nat_digits ?n = nat_digits (?n div 100) @
        [digit_char (?n mod 100 div 10), digit_char (?n mod 100 mod 10)]"
      "p - 2 = k + length (nat_digits (?n div 100))" "p - 2 \<le> length buf'"
      "take k buf' = take k buf" "drop (p - 2) buf' =
        [digit_char (?n mod 100 div 10), digit_char (?n mod 100 mod 10)] @ drop p buf"
      by (rule put_digits_round [OF 1 less.prems])
    have "unat (x div 100) < ?n" using 1 u by simp
    from less.hyps [OF this _ r(4), folded r(1)] show ?thesis using r(2,3,5,6) u by simp
  next
    case 2
    then have dg: "nat_digits ?n = [digit_char (?n div 10), digit_char (?n mod 10)]"
      by (simp add: nat_digits_step nat_digits_small)
    have "put_digits x (p, buf) = put_pair x (p, buf)"
      using 2 by (subst put_digits.simps) (simp add: word_le_nat_alt)
    with 2 less.prems dg show ?thesis by (simp add: put_pair_ok)
  next
    case 3
    have "put_digits x (p, buf) = put_back (digit_char ?n) (p, buf)"
      using 3 by (subst put_digits.simps) (simp add: word_le_nat_alt digit_char_def)
    with 3 less.prems show ?thesis by (simp add: put_back_ok nat_digits_small)
  qed
qed

lemma nat_digits_length:
  assumes "n < 10 ^ k" and "0 < k"
  shows "length (nat_digits n) \<le> k"
  using assms
proof (induction k arbitrary: n)
  case (Suc k)
  show ?case
  proof (cases "n < 10")
    case False
    with Suc.prems have "n div 10 < 10 ^ k" by (simp add: less_mult_imp_div_less mult.commute)
    moreover from this False have "0 < k" by (cases k) auto
    ultimately show ?thesis using Suc.IH [of "n div 10"] False by (simp add: nat_digits_step)
  qed (simp add: nat_digits_small)
qed simp

lemma digits_64: "length (nat_digits (unat (x :: 64 word))) \<le> 20"
proof (rule nat_digits_length)
  have "unat x < 2 ^ 64" using unsigned_less [of x] by simp
  then show "unat x < 10 ^ 20" by simp
qed simp

lemma unat_remove_sign:
  fixes x :: "64 word"
  assumes "sint x < 0"
  shows "remove_sign x = ret (- x)" and "unat (- x) = nat (- sint x)"
proof -
  show "remove_sign x = ret (- x)" using assms by (simp add: remove_sign_def)
  have "take_bit 64 (- sint x) = - sint x"
    using assms sint_ge [of x] by (intro take_bit_int_eq_self) simp_all
  moreover have "- x = word_of_int (- sint x)" by simp
  then have "unat (- x) = unat (word_of_int (- sint x) :: 64 word)" by (rule arg_cong)
  then have "unat (- x) = nat (take_bit 64 (- sint x))" unfolding unsigned_of_int by simp
  ultimately show "unat (- x) = nat (- sint x)" by simp
qed

lemma dump_integer_text:
  assumes "length b = 64"
  shows "dump_integer True b x = ret (to_string (sint x))" and
    "dump_integer False b x = ret (to_string (uint x))"
proof -
  have pos: "dump_integer is_signed b x = ret (nat_digits (unat x))" if "\<not> (is_signed \<and> sint x < 0)" for is_signed
  proof (cases "x = 0")
    case True
    then show ?thesis by (simp add: dump_integer_def nat_digits_0)
  next
    case False
    have n: "count_digits x \<le> 20" using digits_64 [of x] by (simp add: count_digits)
    with put_digits_ok [of "count_digits x" 0 x b] assms obtain q where
      "put_digits x (count_digits x, b) = ret (q, nat_digits (unat x) @ drop (count_digits x) b)"
      by (auto simp: count_digits)
    with that False n assms show ?thesis by (auto simp: dump_integer_def count_digits)
  qed
  have neg: "dump_integer True b x = ret (CHR ''-'' # nat_digits (nat (- sint x)))" if "sint x < 0"
  proof -
    note rs = unat_remove_sign [OF that]
    let ?b = "b[0 := CHR ''-'']" and ?k = "1 + count_digits (- x)"
    have n: "count_digits (- x) \<le> 20" using digits_64 [of "- x"] by (simp add: count_digits)
    with put_digits_ok [of ?k 1 "- x" ?b] assms obtain q where
      "put_digits (- x) (?k, ?b) = ret (q, CHR ''-'' # nat_digits (unat (- x)) @ drop ?k ?b)"
      by (cases b) (auto simp: count_digits)
    with that n assms rs show ?thesis by (auto simp: dump_integer_def count_digits)
  qed
  show "dump_integer True b x = ret (to_string (sint x))"
  proof (cases "sint x < 0")
    case True
    with neg show ?thesis by (simp add: to_string_def)
  next
    case False
    then have "take_bit 64 (sint x) = sint x"
      using sint_less [of x] by (intro take_bit_int_eq_self) simp_all
    then have "sint x = uint x" by (simp add: uint_sint)
    with False pos [of True] show ?thesis by (simp add: to_string_def)
  qed
  show "dump_integer False b x = ret (to_string (uint x))"
    using pos [of False] by (simp add: to_string_def)
qed

section \<open>Property\<close>

text \<open>
  C24: decimal text. For every signed and every unsigned number of 64 bits, whatever the buffer of 64
  characters holds, \<open>dump_integer\<close> stays inside the buffer, no assertion fails, and it writes the
  decimal text of the number.
\<close>

theorem dump_integer_as_written:
  assumes "length number_buffer = 64"
  shows "dump_integer True number_buffer x = ret (to_string (sint x)) \<and>
    dump_integer False number_buffer x = ret (to_string (uint x))"
  using dump_integer_text [OF assms] by blast

theorem dump_integer_as_written_witness:
  "dump_integer True (replicate 64 (CHR ''x'')) (2 ^ 63) = ret (to_string (- (2 ^ 63))) \<and>
     dump_integer False (replicate 64 (CHR ''x'')) 18446744073709551615 = ret (to_string (2 ^ 64 - 1))"
  using dump_integer_as_written [of "replicate 64 (CHR ''x'')"] by simp

end
