(* ===== verification/Serializer.thy ===== *)
theory Serializer
  imports Json_Text Dump_Integer
begin

text \<open>
  \<open>dump_escaped\<close> of nlohmann's serializer as it is written (\<open>detail/output/serializer.hpp\<close>): it walks
  over the bytes with the table-driven automaton \<open>decode\<close> and collects its output in a buffer of 512
  bytes. A write outside the buffer is \<open>Undefined_behaviour\<close>. It equals the definition of
  \<open>Json_Text\<close>, so no write is outside, and the strings it accepts are the UTF-8 strings.
\<close>

unbundle bit_operations_syntax

section \<open>The automaton\<close>

definition utf8d :: "nat list" where
  "utf8d = [
    0, 0, 0, 0, 0, 0, 0, 0, 0, 0, 0, 0, 0, 0, 0, 0, 0, 0, 0, 0, 0, 0, 0, 0, 0, 0, 0, 0, 0, 0, 0, 0,
    0, 0, 0, 0, 0, 0, 0, 0, 0, 0, 0, 0, 0, 0, 0, 0, 0, 0, 0, 0, 0, 0, 0, 0, 0, 0, 0, 0, 0, 0, 0, 0,
    0, 0, 0, 0, 0, 0, 0, 0, 0, 0, 0, 0, 0, 0, 0, 0, 0, 0, 0, 0, 0, 0, 0, 0, 0, 0, 0, 0, 0, 0, 0, 0,
    0, 0, 0, 0, 0, 0, 0, 0, 0, 0, 0, 0, 0, 0, 0, 0, 0, 0, 0, 0, 0, 0, 0, 0, 0, 0, 0, 0, 0, 0, 0, 0,
    1, 1, 1, 1, 1, 1, 1, 1, 1, 1, 1, 1, 1, 1, 1, 1, 9, 9, 9, 9, 9, 9, 9, 9, 9, 9, 9, 9, 9, 9, 9, 9,
    7, 7, 7, 7, 7, 7, 7, 7, 7, 7, 7, 7, 7, 7, 7, 7, 7, 7, 7, 7, 7, 7, 7, 7, 7, 7, 7, 7, 7, 7, 7, 7,
    8, 8, 2, 2, 2, 2, 2, 2, 2, 2, 2, 2, 2, 2, 2, 2, 2, 2, 2, 2, 2, 2, 2, 2, 2, 2, 2, 2, 2, 2, 2, 2,
    10, 3, 3, 3, 3, 3, 3, 3, 3, 3, 3, 3, 3, 4, 3, 3, 11, 6, 6, 6, 5, 8, 8, 8, 8, 8, 8, 8, 8, 8, 8, 8,
    0, 1, 2, 3, 5, 8, 7, 1, 1, 1, 4, 6, 1, 1, 1, 1, 1, 1, 1, 1, 1, 1, 1, 1, 1, 1, 1, 1, 1, 1, 1, 1,
    1, 0, 1, 1, 1, 1, 1, 0, 1, 0, 1, 1, 1, 1, 1, 1, 1, 2, 1, 1, 1, 1, 1, 2, 1, 2, 1, 1, 1, 1, 1, 1,
    1, 1, 1, 1, 1, 1, 1, 2, 1, 1, 1, 1, 1, 1, 1, 1, 1, 2, 1, 1, 1, 1, 1, 1, 1, 2, 1, 1, 1, 1, 1, 1,
    1, 1, 1, 1, 1, 1, 1, 3, 1, 3, 1, 1, 1, 1, 1, 1, 1, 3, 1, 1, 1, 1, 1, 3, 1, 3, 1, 1, 1, 1, 1, 1,
    1, 3, 1, 1, 1, 1, 1, 1, 1, 1, 1, 1, 1, 1, 1, 1]"

text \<open>\<open>decode\<close>: the next state and the code point read so far. 0 accepts, 1 rejects.\<close>

definition decode :: "nat \<Rightarrow> 32 word \<Rightarrow> nat \<Rightarrow> nat \<times> 32 word" where
  "decode state codep byte =
     (let type = utf8d ! byte in
      (utf8d ! (256 + state * 16 + type),
       if state \<noteq> 0 then (word_of_nat byte AND 0x3F) OR push_bit 6 codep
       else drop_bit type 0xFF AND word_of_nat byte))"

text \<open>What the states stand for: the ranges of the bytes to come.\<close>

definition to_come :: "nat \<Rightarrow> (nat \<times> nat) list option" where
  "to_come st =
     (if st = 0 then Some []
      else if st = 2 then Some [(0x80, 0xBF)]
      else if st = 3 then Some [(0x80, 0xBF), (0x80, 0xBF)]
      else if st = 4 then Some [(0xA0, 0xBF), (0x80, 0xBF)]
      else if st = 5 then Some [(0x80, 0x9F), (0x80, 0xBF)]
      else if st = 6 then Some [(0x90, 0xBF), (0x80, 0xBF), (0x80, 0xBF)]
      else if st = 7 then Some [(0x80, 0xBF), (0x80, 0xBF), (0x80, 0xBF)]
      else if st = 8 then Some [(0x80, 0x8F), (0x80, 0xBF), (0x80, 0xBF)]
      else None)"

text \<open>The class of a byte, and the table of transitions.\<close>

definition byte_class :: "nat \<Rightarrow> nat" where
  "byte_class b =
     (if b < 128 then 0 else if b < 144 then 1 else if b < 160 then 9 else if b < 192 then 7
      else if b < 194 then 8 else if b < 224 then 2 else if b = 224 then 10 else if b = 237 then 4
      else if b < 240 then 3 else if b = 240 then 11 else if b < 244 then 6 else if b = 244 then 5
      else 8)"

lemma utf8d_class: "b < 256 \<Longrightarrow> utf8d ! b = byte_class b"
proof -
  have "take 256 utf8d = map byte_class [0..<256]" by code_simp
  then show "b < 256 \<Longrightarrow> utf8d ! b = byte_class b"
    by (metis add_0 diff_zero length_upt nth_map nth_take nth_upt)
qed

definition next_state :: "nat \<Rightarrow> nat \<Rightarrow> nat" where
  "next_state st t =
     (if st = 0 then
        (if t \<le> 3 then t else if t = 4 then 5 else if t = 5 then 8 else if t = 6 then 7
         else if t = 10 then 4 else if t = 11 then 6 else 1)
      else if st = 2 then (if t = 1 \<or> t = 7 \<or> t = 9 then 0 else 1)
      else if st = 3 then (if t = 1 \<or> t = 7 \<or> t = 9 then 2 else 1)
      else if st = 4 then (if t = 7 then 2 else 1)
      else if st = 5 then (if t = 1 \<or> t = 9 then 2 else 1)
      else if st = 6 then (if t = 7 \<or> t = 9 then 3 else 1)
      else if st = 7 then (if t = 1 \<or> t = 7 \<or> t = 9 then 3 else 1)
      else if st = 8 then (if t = 1 then 3 else 1)
      else 1)"

lemma utf8d_next:
  assumes "st < 9" and "t < 16"
  shows "utf8d ! (256 + st * 16 + t) = next_state st t"
proof -
  have "drop 256 utf8d = map (\<lambda>i. next_state (i div 16) (i mod 16)) [0..<144]" by code_simp
  moreover have "length utf8d = 400" by code_simp
  then have "utf8d ! (256 + (st * 16 + t)) = drop 256 utf8d ! (st * 16 + t)"
    by (subst nth_drop) simp_all
  ultimately show ?thesis using assms by (simp add: add.assoc)
qed

lemma byte_class_less: "byte_class b < 16"
  by (simp add: byte_class_def)

lemma to_come_less: "to_come st = Some rs \<Longrightarrow> st < 9"
  by (auto simp: to_come_def split: if_splits)

lemma decode_state:
  assumes "b < 256" and "to_come st = Some rs"
  shows "fst (decode st cp b) = next_state st (byte_class b)"
  using utf8d_next [OF to_come_less [OF assms(2)] byte_class_less] utf8d_class [OF assms(1)]
  by (simp add: decode_def Let_def)

text \<open>A first byte leads to the ranges of the bytes after it, or is rejected.\<close>

lemma decode_start:
  assumes "b < 256"
  shows "case utf8_ranges b of None \<Rightarrow> fst (decode 0 cp b) = 1
     | Some rs \<Rightarrow> to_come (fst (decode 0 cp b)) = Some rs"
proof -
  have st: "fst (decode 0 cp b) = next_state 0 (byte_class b)"
    using assms by (intro decode_state [where rs = "[]"]) (simp_all add: to_come_def)
  consider "b < 128" | "128 \<le> b" "b < 194" | "194 \<le> b" "b < 224" | "b = 224" | "b = 237" | "b = 240"
    | "225 \<le> b" "b < 237" | "b = 238" | "b = 239" | "241 \<le> b" "b < 244" | "b = 244" | "245 \<le> b"
    by linarith
  then show ?thesis
    unfolding st by cases (simp_all add: byte_class_def next_state_def utf8_ranges_def to_come_def)
qed

text \<open>A later byte is in the range, or is rejected.\<close>

lemma decode_next:
  assumes "b < 256" and "to_come st = Some ((lo, hi) # rs)"
  shows "if lo \<le> b \<and> b \<le> hi then to_come (fst (decode st cp b)) = Some rs
    else fst (decode st cp b) = 1"
proof -
  have st: "fst (decode st cp b) = next_state st (byte_class b)"
    by (rule decode_state [OF assms])
  consider "b < 128" | "128 \<le> b" "b < 144" | "144 \<le> b" "b < 160" | "160 \<le> b" "b < 192" | "192 \<le> b"
    by linarith
  then show ?thesis
    unfolding st by cases (use assms in \<open>auto simp: byte_class_def next_state_def to_come_def split: if_splits\<close>)
qed

section \<open>The code point\<close>

text \<open>
  A code point of more than one byte is at least 128: one of its bits is high enough, or will be
  after the shifts by the bytes to come.
\<close>

definition wide :: "nat \<Rightarrow> 32 word \<Rightarrow> bool" where
  "wide k cp \<longleftrightarrow> (\<exists>n. bit cp n \<and> 7 \<le> n + 6 * k \<and> n + 6 * k < 32)"

text \<open>In the states 4 and 6 the next byte brings the bit.\<close>

definition wide_in :: "nat \<Rightarrow> 32 word \<Rightarrow> bool" where
  "wide_in st cp \<longleftrightarrow>
     (case to_come st of None \<Rightarrow> True | Some rs \<Rightarrow> rs \<noteq> [] \<longrightarrow> st = 4 \<or> st = 6 \<or> wide (length rs) cp)"

lemma wide_shift:
  assumes "wide (Suc k) cp"
  shows "wide k (x OR push_bit 6 cp)"
proof -
  from assms obtain n where n: "bit cp n" "7 \<le> n + 6 * Suc k" "n + 6 * Suc k < 32"
    by (auto simp: wide_def)
  then have "bit (x OR push_bit 6 cp) (n + 6)" by (simp add: bit_simps)
  with n show ?thesis unfolding wide_def by (intro exI [of _ "n + 6"]) simp
qed

lemma wide_0: "wide 0 cp \<Longrightarrow> 128 \<le> unat cp"
proof (rule ccontr)
  assume "wide 0 cp" and "\<not> 128 \<le> unat cp"
  then obtain n where n: "bit cp n" "7 \<le> n" by (auto simp: wide_def)
  have "(2 :: nat) ^ 7 \<le> 2 ^ n" using n(2) by (intro power_increasing) simp_all
  with \<open>\<not> 128 \<le> unat cp\<close> have "unat cp < 2 ^ n" by simp
  then have "take_bit n (unat cp) = unat cp" by (rule take_bit_nat_eq_self)
  then have "\<not> bit (unat cp) n" by (metis bit_take_bit_iff less_irrefl)
  with n(1) show False by (simp add: bit_unsigned_iff)
qed

text \<open>The bits that the first byte, and the second one in the states 4 and 6, contributes.\<close>

lemma list_all_upt: "list_all P [m..<n] \<Longrightarrow> m \<le> b \<Longrightarrow> b < n \<Longrightarrow> P b"
  by (simp only: list_all_iff set_upt) simp

definition wide_start :: "nat \<Rightarrow> bool" where
  "wide_start b \<longleftrightarrow>
     (case utf8_ranges b of
        None \<Rightarrow> True
      | Some rs \<Rightarrow>
          byte_class b = 10 \<or> byte_class b = 11 \<or>
          list_ex (\<lambda>n. bit (drop_bit (byte_class b) 0xFF AND word_of_nat b :: 32 word) n \<and>
              7 \<le> n + 6 * length rs \<and> n + 6 * length rs < 32) [0..<8])"

lemma wide_starts: "128 \<le> b \<Longrightarrow> b < 256 \<Longrightarrow> wide_start b"
proof -
  have "list_all wide_start [128..<256]" by code_simp
  then show "128 \<le> b \<Longrightarrow> b < 256 \<Longrightarrow> wide_start b" using list_all_upt by blast
qed

lemma decode_start_wide:
  assumes "128 \<le> b" and "b < 256"
  shows "wide_in (fst (decode 0 cp b)) (snd (decode 0 cp b))"
proof (cases "utf8_ranges b")
  case None
  with decode_start [OF assms(2), of cp] show ?thesis by (simp add: wide_in_def to_come_def)
next
  case (Some rs)
  with decode_start [OF assms(2), of cp] have st: "to_come (fst (decode 0 cp b)) = Some rs" by simp
  have nx: "fst (decode 0 cp b) = next_state 0 (byte_class b)"
    using assms by (intro decode_state [where rs = "[]"]) (simp_all add: to_come_def)
  have cp: "snd (decode 0 cp b) = drop_bit (byte_class b) 0xFF AND word_of_nat b"
    using utf8d_class [OF assms(2)] by (simp add: decode_def Let_def)
  from wide_starts [OF assms] Some
  consider "byte_class b = 10" | "byte_class b = 11"
    | "wide (length rs) (drop_bit (byte_class b) 0xFF AND word_of_nat b)"
    unfolding wide_start_def wide_def by (auto simp only: list_ex_iff option.case)
  then have "fst (decode 0 cp b) = 4 \<or> fst (decode 0 cp b) = 6 \<or>
      wide (length rs) (snd (decode 0 cp b))"
    unfolding cp nx by cases (simp_all add: next_state_def)
  with st show ?thesis by (simp add: wide_in_def)
qed

lemma second_bits:
  "0xA0 \<le> b \<Longrightarrow> b \<le> 0xBF \<Longrightarrow> bit (word_of_nat b AND 0x3F :: 32 word) 5"
  "0x90 \<le> b \<Longrightarrow> b \<le> 0xBF \<Longrightarrow>
     bit (word_of_nat b AND 0x3F :: 32 word) 4 \<or> bit (word_of_nat b AND 0x3F :: 32 word) 5"
proof -
  have "list_all (\<lambda>b. bit (word_of_nat b AND 0x3F :: 32 word) 5) [0xA0..<0xC0]"
    "list_all (\<lambda>b. bit (word_of_nat b AND 0x3F :: 32 word) 4 \<or>
       bit (word_of_nat b AND 0x3F :: 32 word) 5) [0x90..<0xC0]"
    by code_simp+
  note this [THEN list_all_upt]
  from this [of b] show "0xA0 \<le> b \<Longrightarrow> b \<le> 0xBF \<Longrightarrow> bit (word_of_nat b AND 0x3F :: 32 word) 5"
    "0x90 \<le> b \<Longrightarrow> b \<le> 0xBF \<Longrightarrow>
     bit (word_of_nat b AND 0x3F :: 32 word) 4 \<or> bit (word_of_nat b AND 0x3F :: 32 word) 5"
    by simp_all
qed

lemma decode_next_wide:
  assumes "b < 256" and "to_come st = Some ((lo, hi) # rs)" and "lo \<le> b" and "b \<le> hi"
    and "wide_in st cp"
  shows "wide (length rs) (snd (decode st cp b))"
proof -
  have cp: "snd (decode st cp b) = (word_of_nat b AND 0x3F) OR push_bit 6 cp"
    using assms(2) by (auto simp: decode_def Let_def to_come_def split: if_splits)
  consider "st = 4" | "st = 6" | "wide (Suc (length rs)) cp"
    using assms(2,5) by (auto simp: wide_in_def)
  then show ?thesis
  proof cases
    case 1
    with assms(2-4) have "bit (word_of_nat b AND 0x3F :: 32 word) 5" "length rs = 1"
      by (auto simp: to_come_def intro: second_bits)
    then show ?thesis unfolding cp wide_def by (intro exI [of _ 5]) (simp add: bit_simps)
  next
    case 2
    with assms(2-4) have l: "length rs = 2" "0x90 \<le> b" "b \<le> 0xBF" by (auto simp: to_come_def)
    from second_bits(2) [OF l(2,3)] obtain n where
      "bit (word_of_nat b AND 0x3F :: 32 word) n" "n = 4 \<or> n = 5" by blast
    then show ?thesis unfolding cp wide_def l(1)
      by (intro exI [of _ n]) (auto simp: bit_simps)
  next
    case 3
    then show ?thesis unfolding cp by (rule wide_shift)
  qed
qed

section \<open>The loop\<close>

text \<open>
  The locals of \<open>dump_escaped\<close>: the state and code point of \<open>decode\<close>, the bytes in
  \<open>string_buffer\<close> (their number is \<open>bytes\<close>), and what has been passed to \<open>write_characters\<close>.
\<close>

record writer =
  w_state :: nat
  w_codepoint :: "32 word"
  string_buffer :: string
  written :: string

definition writer_new :: writer where
  "writer_new = \<lparr>w_state = 0, w_codepoint = 0, string_buffer = [], written = []\<rparr>"

definition put_bytes :: "string \<Rightarrow> writer \<Rightarrow> writer res" where
  "put_bytes s w =
     (if length (string_buffer w) + length s \<le> 512
      then ret (w\<lparr>string_buffer := string_buffer w @ s\<rparr>) else throw Undefined_behaviour)"

text \<open>\<open>snprintf\<close> of \<open>\u%04x\<close>, which writes a NUL behind the six bytes that count.\<close>

definition put_unicode :: "nat \<Rightarrow> writer \<Rightarrow> writer res" where
  "put_unicode n w =
     (if length (string_buffer w) + 7 \<le> 512
      then put_bytes [CHR 0x5C, CHR ''u'', hex_digit (n div 4096 mod 16), hex_digit (n div 256 mod 16),
             hex_digit (n div 16 mod 16), hex_digit (n mod 16)] w
      else throw Undefined_behaviour)"

text \<open>The switch over the code point, with \<open>ensure_ascii\<close> off.\<close>

definition put_codepoint :: "32 word \<Rightarrow> char \<Rightarrow> writer \<Rightarrow> writer res" where
  "put_codepoint cp c w =
     (if cp = 0x08 then put_bytes [CHR 0x5C, CHR ''b''] w
      else if cp = 0x09 then put_bytes [CHR 0x5C, CHR ''t''] w
      else if cp = 0x0A then put_bytes [CHR 0x5C, CHR ''n''] w
      else if cp = 0x0C then put_bytes [CHR 0x5C, CHR ''f''] w
      else if cp = 0x0D then put_bytes [CHR 0x5C, CHR ''r''] w
      else if cp = 0x22 then put_bytes [CHR 0x5C, CHR 0x22] w
      else if cp = 0x5C then put_bytes [CHR 0x5C, CHR 0x5C] w
      else if cp \<le> 0x1F then put_unicode (unat cp) w
      else put_bytes [c] w)"

definition flush :: "writer \<Rightarrow> writer" where
  "flush w =
     (if 512 - length (string_buffer w) < 13
      then w\<lparr>written := written w @ string_buffer w, string_buffer := []\<rparr> else w)"

definition dump_byte :: "char \<Rightarrow> writer \<Rightarrow> writer res" where
  "dump_byte c w =
     (case decode (w_state w) (w_codepoint w) (of_char c) of
        (st, cp) \<Rightarrow>
          (let v = w\<lparr>w_state := st, w_codepoint := cp\<rparr> in
           if st = 0 then bind_res (put_codepoint cp c v) (\<lambda>u. ret (flush u))
           else if st = 1 then throw (Json_error 316)
           else put_bytes [c] v))"

fun dump_bytes :: "string \<Rightarrow> writer \<Rightarrow> writer res" where
  "dump_bytes [] w = ret w"
| "dump_bytes (c # s) w = bind_res (dump_byte c w) (dump_bytes s)"

text \<open>After the last byte: the rest of the buffer, or the error for an incomplete string.\<close>

definition dump_rest :: "writer \<Rightarrow> string res" where
  "dump_rest w =
     (if w_state w = 0 then ret (if string_buffer w \<noteq> [] then written w @ string_buffer w else written w)
      else throw (Json_error 316))"

definition dump_escaped_written :: "string \<Rightarrow> string res" where
  "dump_escaped_written s = bind_res (dump_bytes s writer_new) dump_rest"

text \<open>There is room for what the next byte can bring.\<close>

definition room :: "writer \<Rightarrow> (nat \<times> nat) list \<Rightarrow> bool" where
  "room w rs \<longleftrightarrow> length (string_buffer w) + length rs \<le> (if rs = [] then 499 else 503)"

lemma to_come_0: "to_come st = Some [] \<longleftrightarrow> st = 0"
  by (auto simp: to_come_def split: if_splits)

lemma to_come_length: "to_come st = Some rs \<Longrightarrow> length rs \<le> 3"
  by (auto simp: to_come_def split: if_splits)

lemma put_ok: "length (string_buffer w) + length s \<le> 512 \<Longrightarrow>
    put_bytes s w = ret (w\<lparr>string_buffer := string_buffer w @ s\<rparr>)"
  by (simp add: put_bytes_def)

lemma flush_ok:
  assumes "length (string_buffer w) \<le> 506"
  shows "room (flush w) []" and "w_state (flush w) = w_state w"
    and "written (flush w) @ string_buffer (flush w) = written w @ string_buffer w"
  using assms by (auto simp: flush_def room_def)

lemma put_special:
  assumes "c \<in> {CHR 0x08, CHR 0x09, CHR 0x0A, CHR 0x0C, CHR 0x0D, CHR 0x22, CHR 0x5C}"
    and "length (string_buffer w) \<le> 499"
  shows "put_codepoint (word_of_nat (of_char c)) c w =
      ret (w\<lparr>string_buffer := string_buffer w @ escape c\<rparr>)"
  using assms(1)
  by (elim insertE emptyE) (use assms(2) in \<open>simp_all add: put_codepoint_def escape_def put_ok\<close>)

lemma put_other:
  assumes "cp \<notin> {0x08, 0x09, 0x0A, 0x0C, 0x0D, 0x22, 0x5C}"
  shows "put_codepoint cp c w = (if cp \<le> 0x1F then put_unicode (unat cp) w else put_bytes [c] w)"
  using assms by (simp add: put_codepoint_def)

lemma hex_digit_0: "hex_digit 0 = CHR ''0''"
  by code_simp

lemma put_ascii:
  assumes "(of_char c :: nat) < 128" and "length (string_buffer w) \<le> 499"
  shows "put_codepoint (word_of_nat (of_char c)) c w =
      ret (w\<lparr>string_buffer := string_buffer w @ escape c\<rparr>)"
proof (cases "c \<in> {CHR 0x08, CHR 0x09, CHR 0x0A, CHR 0x0C, CHR 0x0D, CHR 0x22, CHR 0x5C}")
  case True
  then show ?thesis using assms(2) by (rule put_special)
next
  case False
  define n :: nat where "n = of_char c"
  from False have "n \<notin> of_char ` {CHR 0x08, CHR 0x09, CHR 0x0A, CHR 0x0C, CHR 0x0D, CHR 0x22, CHR 0x5C}"
    unfolding n_def by (subst inj_image_mem_iff) (auto intro: injI)
  then have "n \<notin> {8, 9, 10, 12, 13, 34, 92}" by simp
  moreover have u: "unat (word_of_nat n :: 32 word) = n"
    using assms(1) by (simp add: unat_of_nat take_bit_nat_eq_self n_def)
  ultimately have cp: "(word_of_nat n :: 32 word) \<notin> {0x08, 0x09, 0x0A, 0x0C, 0x0D, 0x22, 0x5C}"
    by (auto simp del: unsigned_of_nat dest!: arg_cong [where f = unat])
  have "(word_of_nat n :: 32 word) \<le> 0x1F \<longleftrightarrow> n \<le> 0x1F"
    using u by (simp add: word_le_nat_alt)
  moreover have "escape c = (if n \<le> 0x1F then [CHR 0x5C, CHR ''u'', CHR ''0'', CHR ''0'',
      hex_digit (n div 16), hex_digit (n mod 16)] else [c])"
    using False by (simp add: escape_def n_def)
  moreover have "n \<le> 0x1F \<Longrightarrow> put_unicode n w = ret (w\<lparr>string_buffer := string_buffer w @
      [CHR 0x5C, CHR ''u'', CHR ''0'', CHR ''0'', hex_digit (n div 16), hex_digit (n mod 16)]\<rparr>)"
    using assms(2) by (simp add: put_unicode_def put_ok hex_digit_0)
  ultimately show ?thesis
    using assms(2) unfolding n_def [symmetric] put_other [OF cp] u by (simp add: put_ok)
qed

lemma put_wide:
  assumes "128 \<le> unat cp" and "length (string_buffer w) < 512"
  shows "put_codepoint cp c w = ret (w\<lparr>string_buffer := string_buffer w @ [c]\<rparr>)"
proof -
  have "cp \<notin> {0x08, 0x09, 0x0A, 0x0C, 0x0D, 0x22, 0x5C}" and "\<not> cp \<le> 0x1F"
    using assms(1) by (auto simp: word_le_nat_alt)
  with assms(2) show ?thesis by (simp add: put_other put_ok)
qed

text \<open>One byte, according to the ranges that are awaited.\<close>

lemma of_char_byte [simp]: "(of_char c :: nat) < 256"
  by simp

lemma ranges_Nil: "utf8_ranges b = Some [] \<Longrightarrow> b < 128"
  by (auto simp: utf8_ranges_def split: if_splits)

lemma ranges_Cons: "utf8_ranges b = Some (r # rs) \<Longrightarrow> 128 \<le> b"
  by (auto simp: utf8_ranges_def split: if_splits)

lemma low_byte: "b < 128 \<Longrightarrow> 0xFF AND word_of_nat b = (word_of_nat b :: 32 word)"
proof -
  have "list_all (\<lambda>b. 0xFF AND word_of_nat b = (word_of_nat b :: 32 word)) [0..<128]" by code_simp
  from list_all_upt [OF this, of b] show "b < 128 \<Longrightarrow> 0xFF AND word_of_nat b = (word_of_nat b :: 32 word)"
    by simp
qed

lemma dump_byte_reject:
  assumes "fst (decode (w_state w) (w_codepoint w) (of_char c)) = 1"
  shows "dump_byte c w = throw (Json_error 316)"
  using assms by (cases "decode (w_state w) (w_codepoint w) (of_char c)") (simp add: dump_byte_def)

definition follows :: "writer \<Rightarrow> string \<Rightarrow> (nat \<times> nat) list \<Rightarrow> writer \<Rightarrow> bool" where
  "follows w o1 rs v \<longleftrightarrow>
     to_come (w_state v) = Some rs \<and> wide_in (w_state v) (w_codepoint v) \<and> room v rs \<and>
     written v @ string_buffer v = written w @ string_buffer w @ o1"

lemma dump_byte_accept:
  assumes "decode (w_state w) (w_codepoint w) (of_char c) = (0, cp)"
    and "put_codepoint cp c (w\<lparr>w_state := 0, w_codepoint := cp\<rparr>) =
      ret (w\<lparr>w_state := 0, w_codepoint := cp, string_buffer := string_buffer w @ o1\<rparr>)"
    and "length (string_buffer w @ o1) \<le> 506"
  shows "\<exists>v. dump_byte c w = ret v \<and> follows w o1 [] v"
proof -
  let ?v = "w\<lparr>w_state := 0, w_codepoint := cp, string_buffer := string_buffer w @ o1\<rparr>"
  from flush_ok [of ?v] assms(3) have "follows w o1 [] (flush ?v)"
    by (simp add: follows_def to_come_def wide_in_def)
  with assms(1,2) show ?thesis by (simp add: dump_byte_def)
qed

lemma dump_byte_pending:
  assumes "decode (w_state w) (w_codepoint w) (of_char c) = (st, cp)"
    and "to_come st = Some (r # rs)" and "wide_in st cp"
    and "length (string_buffer w) + length rs \<le> 501"
  shows "\<exists>v. dump_byte c w = ret v \<and> follows w [c] (r # rs) v"
proof -
  have "st \<noteq> 0" "st \<noteq> 1" using assms(2) by (auto simp: to_come_def split: if_splits)
  with assms show ?thesis
    by (simp add: dump_byte_def put_ok follows_def room_def)
qed

lemma dump_byte_first:
  assumes "w_state w = 0" and "room w []"
  shows "case utf8_ranges (of_char c) of
      None \<Rightarrow> dump_byte c w = throw (Json_error 316)
    | Some rs \<Rightarrow> \<exists>v. dump_byte c w = ret v \<and> follows w (escape c) rs v"
proof (cases "utf8_ranges (of_char c)")
  case None
  with decode_start [of "of_char c" "w_codepoint w"] assms(1) show ?thesis
    by (simp add: dump_byte_reject)
next
  case (Some rs)
  obtain st cp where d: "decode 0 (w_codepoint w) (of_char c) = (st, cp)" by fastforce
  with decode_start [of "of_char c" "w_codepoint w"] Some have tc: "to_come st = Some rs" by simp
  have l: "length (string_buffer w) \<le> 499" using assms(2) by (simp add: room_def)
  show ?thesis
  proof (cases rs)
    case Nil
    with tc Some have st: "st = 0" and a: "(of_char c :: nat) < 128"
      by (simp_all add: to_come_0 ranges_Nil)
    have "cp = 0xFF AND word_of_nat (of_char c)"
      using d utf8d_class [of "of_char c"] a by (auto simp: decode_def Let_def byte_class_def)
    then have cp: "cp = word_of_nat (of_char c)"
      using low_byte [OF a] by simp
    have "length (escape c) \<le> 6" by (simp add: escape_def)
    then have "\<exists>v. dump_byte c w = ret v \<and> follows w (escape c) [] v"
      using d st l a assms(1) by (intro dump_byte_accept [where cp = cp]) (simp_all add: cp put_ascii)
    with Some Nil show ?thesis by simp
  next
    case (Cons r rs')
    with Some have "128 \<le> (of_char c :: nat)" using ranges_Cons by blast
    moreover from this have "wide_in st cp"
      using decode_start_wide [of "of_char c" "w_codepoint w"] d by simp
    ultimately have "\<exists>v. dump_byte c w = ret v \<and> follows w [c] rs v"
      using d tc Cons l assms(1) to_come_length [OF tc]
      unfolding Cons by (intro dump_byte_pending) simp_all
    with Some \<open>128 \<le> of_char c\<close> show ?thesis by (simp add: escape_long)
  qed
qed

lemma dump_byte_next:
  assumes "to_come (w_state w) = Some ((lo, hi) # rs)" and "wide_in (w_state w) (w_codepoint w)"
    and "room w ((lo, hi) # rs)"
  shows "if lo \<le> of_char c \<and> of_char c \<le> hi then \<exists>v. dump_byte c w = ret v \<and> follows w [c] rs v
    else dump_byte c w = throw (Json_error 316)"
proof (cases "lo \<le> of_char c \<and> of_char c \<le> hi")
  case False
  with decode_next [OF _ assms(1), of "of_char c" "w_codepoint w"] show ?thesis
    by (auto simp: dump_byte_reject)
next
  case True
  obtain st cp where d: "decode (w_state w) (w_codepoint w) (of_char c) = (st, cp)" by fastforce
  with decode_next [OF _ assms(1), of "of_char c" "w_codepoint w"] True
  have tc: "to_come st = Some rs" by simp
  have wd: "wide (length rs) cp"
    using decode_next_wide [OF _ assms(1) _ _ assms(2), of "of_char c"] True d by simp
  have l: "length (string_buffer w) + length rs \<le> 502" using assms(3) by (simp add: room_def)
  have "\<exists>v. dump_byte c w = ret v \<and> follows w [c] rs v"
  proof (cases rs)
    case Nil
    with tc have "st = 0" by (simp add: to_come_0)
    with Nil wd d l show ?thesis
      unfolding Nil by (intro dump_byte_accept [where cp = cp]) (simp_all add: put_wide wide_0)
  next
    case (Cons r rs')
    moreover from this tc wd have "wide_in st cp" by (simp add: wide_in_def)
    ultimately show ?thesis using d tc l unfolding Cons by (intro dump_byte_pending) simp_all
  qed
  with True show ?thesis by simp
qed

text \<open>One byte of the automaton, then the rest.\<close>

lemma dump_bytes_follow:
  assumes "\<exists>v. dump_byte c w = ret v \<and> follows w o1 rs v"
    and "\<And>v rs. to_come (w_state v) = Some rs \<Longrightarrow> wide_in (w_state v) (w_codepoint v) \<Longrightarrow>
       room v rs \<Longrightarrow> bind_res (dump_bytes s v) dump_rest =
         (case next_byte_in_range rs s of
            None \<Rightarrow> throw (Json_error 316)
          | Some (t, s') \<Rightarrow>
              bind_res (dump_escaped s') (\<lambda>o2. ret (written v @ string_buffer v @ t @ o2)))"
  shows "bind_res (dump_bytes (c # s) w) dump_rest =
    (case next_byte_in_range rs s of
       None \<Rightarrow> throw (Json_error 316)
     | Some (t, s') \<Rightarrow>
         bind_res (dump_escaped s') (\<lambda>o2. ret (written w @ string_buffer w @ o1 @ t @ o2)))"
proof -
  from assms(1) obtain v where v: "dump_byte c w = ret v" "to_come (w_state v) = Some rs"
    "wide_in (w_state v) (w_codepoint v)" "room v rs"
    "written v @ string_buffer v = written w @ string_buffer w @ o1"
    by (auto simp: follows_def)
  then have e: "written v @ string_buffer v @ r = written w @ string_buffer w @ o1 @ r" for r
    by (metis append.assoc)
  show ?thesis using assms(2) [OF v(2-4)] v(1) by (simp add: e split: option.split)
qed

lemma dump_bytes_escaped:
  assumes "to_come (w_state w) = Some rs" and "wide_in (w_state w) (w_codepoint w)" and "room w rs"
  shows "bind_res (dump_bytes s w) dump_rest =
    (case next_byte_in_range rs s of
       None \<Rightarrow> throw (Json_error 316)
     | Some (t, s') \<Rightarrow>
         bind_res (dump_escaped s') (\<lambda>o1. ret (written w @ string_buffer w @ t @ o1)))"
  using assms
proof (induction s arbitrary: w rs)
  case Nil
  then show ?case
    by (cases rs) (auto simp: dump_rest_def to_come_0 to_come_def split: if_splits)
next
  case (Cons c s)
  note step = dump_bytes_follow [OF _ Cons.IH]
  show ?case
  proof (cases rs)
    case Nil
    with Cons.prems have "w_state w = 0" "room w []" by (simp_all add: to_come_0)
    note first = dump_byte_first [OF this, of c]
    show ?thesis
    proof (cases "utf8_ranges (of_char c)")
      case None
      with first Nil show ?thesis by simp
    next
      case (Some a)
      with first have "\<exists>v. dump_byte c w = ret v \<and> follows w (escape c) a v" by simp
      from step [OF this] Some Nil show ?thesis
        by (simp add: bind_res_assoc del: dump_bytes.simps split: option.split)
    qed
  next
    case rs: (Cons r rs')
    obtain lo hi where [simp]: "r = (lo, hi)" by fastforce
    from Cons.prems rs have "to_come (w_state w) = Some ((lo, hi) # rs')"
      "wide_in (w_state w) (w_codepoint w)" "room w ((lo, hi) # rs')" by simp_all
    note nxt = dump_byte_next [OF this, of c]
    show ?thesis
    proof (cases "lo \<le> of_char c \<and> of_char c \<le> hi")
      case True
      with nxt have "\<exists>v. dump_byte c w = ret v \<and> follows w [c] rs' v" by simp
      from step [OF this] True rs show ?thesis
        by (simp add: apfst_def map_prod_def del: dump_bytes.simps split: option.split)
    next
      case False
      with nxt rs show ?thesis by auto
    qed
  qed
qed

lemma dump_escaped_same: "dump_escaped_written s = dump_escaped s"
proof -
  have "bind_res (dump_bytes s writer_new) dump_rest = bind_res (dump_escaped s) ret"
    using dump_bytes_escaped [of writer_new "[]" s]
    by (simp add: writer_new_def to_come_def wide_in_def room_def)
  then show ?thesis
    unfolding dump_escaped_written_def by (cases "dump_escaped s") simp_all
qed

section \<open>Properties\<close>

text \<open>
  C20: escaping as written. The automaton with its table, and the buffer with its flushes, give the
  text that the definition over the UTF-8 ranges gives, or the same error; no byte is written
  outside the buffer.
\<close>

theorem dump_escaped_as_written: "dump_escaped_written s = dump_escaped s"
  by (rule dump_escaped_same)

text \<open>
  Only UTF-8 is written. \<open>dump_escaped\<close> fails, with the error 316, for exactly the strings that
  are not the UTF-8 encoding of a sequence of Unicode scalar values.
\<close>

theorem only_utf8_written:
  "dump_escaped_written s = throw (Json_error 316) \<longleftrightarrow>
     (\<nexists>ns. list_all scalar ns \<and> s = concat (map utf8_encode ns))"
  using escaped_utf8 [of s] not_utf8_throws [of s]
  by (auto simp: dump_escaped_same utf8_iff [symmetric])

end
