(* ===== verification/Client_Timers.thy ===== *)
theory Client_Timers
  imports Client_Steps
begin

text \<open>
  The timers of the client (\<open>Call\<close> and \<open>OnTimerExpired\<close> of \<open>rpc_client.cpp\<close>). The timer of a call is
  armed once and its handler does not arm it again, so a packet is resent at most once for a
  timeout, and a call whose repeated packet is lost as well is never called back.
\<close>

section \<open>Which timers an operation arms\<close>

fun armed1 :: "'r call_effect \<Rightarrow> caller_ptr multiset" where
  "armed1 (ArmTimer p n) = {#p#}"
| "armed1 _ = {#}"

definition arms :: "'r call_effect list \<Rightarrow> caller_ptr multiset" where
  "arms es = sum_list (map armed1 es)"

lemma arms_simps [simp]:
  "arms [] = {#}" "arms (e # es) = armed1 e + arms es" "arms (es @ es') = arms es + arms es'"
  by (simp_all add: arms_def)

lemma armed_fold: "armed (fold perform1 es s) = arms es + armed s"
proof (induction es arbitrary: s)
  case (Cons e es)
  then show ?case by (cases e) auto
qed simp

lemma perform_armed [simp]: "armed (perform es s) = arms es + armed s"
  by (simp add: perform_def armed_fold)

text \<open>A callback arms at most the timer of the call that a nested \<open>Bind\<close> has registered.\<close>

definition arms_new :: "'r client \<Rightarrow> 'r client \<Rightarrow> 'r call_effect list \<Rightarrow> bool" where
  "arms_new v v' es \<longleftrightarrow>
     (\<forall>p. count (arms es) p \<le> (if fresh v \<le> p \<and> p < fresh v' then 1 else 0))"

lemma arms_newI: "arms es = {#} \<Longrightarrow> arms_new v v' es"
  by (simp add: arms_new_def)

lemma Call_arms:
  assumes "Call c proc req cb re to v = (ret (x, es), v')"
  shows "arms_new v v' es"
proof (cases "call_register proc cb re to v")
  case (Pair o1 v1)
  show ?thesis
  proof (cases o1)
    case None
    with Pair assms show ?thesis by (auto simp: Call_def intro: arms_newI)
  next
    case (Some p)
    from Pair Some have p: "p = fresh v" "fresh v1 = Suc p"
      by (auto simp: call_register_def Let_def split: if_splits option.splits)
    from assms Pair Some obtain es1 es2 where s: "call_send c proc req p v1 = (ret es1, v')"
      "call_wait p v' = ret es2" "es = es1 @ es2"
      by (auto simp: Call_def res_simps split: prod.splits sum.splits)
    then have "arms es = {#p#}" "fresh v' = fresh v1"
      by (auto simp: call_send_def call_wait_def split: option.splits sum.splits)
    with p show ?thesis by (simp add: arms_new_def)
  qed
qed

lemma callback_arms:
  assumes "run_callback c cb r e v = (ret es, v')"
  shows "arms_new v v' es"
proof (cases "cb = Bind_callback \<and> e \<noteq> OK")
  case True
  with assms obtain x es' where "Bind_client c kToMax v = (ret (x, es'), v')"
    "es = Invoke cb r e # SleepMs 200 # es'"
    by (auto simp: run_callback_def split: prod.splits sum.splits)
  moreover from this have "arms_new v v' es'"
    by (auto simp: Bind_client_def Call_args_def split: prod.splits sum.splits intro: Call_arms)
  ultimately show ?thesis by (simp add: arms_new_def)
next
  case False
  with assms show ?thesis
    by (cases cb) (auto simp: run_callback_def intro!: arms_newI split: sum.splits)
qed

lemma arms_new_mono:
  assumes "arms_new v v' es" and "fresh w \<le> fresh v" and "fresh v' \<le> fresh w'"
  shows "arms_new w w' es"
  unfolding arms_new_def
proof
  fix p
  have "count (arms es) p \<le> (if fresh v \<le> p \<and> p < fresh v' then 1 else 0)"
    using assms(1) by (simp add: arms_new_def)
  with assms(2,3) show "count (arms es) p \<le> (if fresh w \<le> p \<and> p < fresh w' then 1 else 0)"
    by (auto split: if_splits)
qed

section \<open>The timer of a call runs at most once\<close>

fun calling :: "caller_ptr \<Rightarrow> cpc \<Rightarrow> bool" where
  "calling p (Registered _ _ q) \<longleftrightarrow> p = q"
| "calling p (Requested q) \<longleftrightarrow> p = q"
| "calling p _ \<longleftrightarrow> False"

text \<open>The timer of a call: still to be armed, running, expired, or run.\<close>

definition timers :: "'r cconfig \<Rightarrow> caller_ptr \<Rightarrow> nat" where
  "timers s p =
     size (filter_mset (calling p) (threads s)) + count (armed s) p + count (expired s) p +
     length (filter ((=) (TimerRan p)) (cevents s))"

definition timers_ok :: "'r cconfig \<Rightarrow> bool" where
  "timers_ok s \<longleftrightarrow> (\<forall>p. timers s p \<le> (if p < fresh (cl s) then 1 else 0))"

lemma timers_ok_keep:
  assumes "timers_ok s" and "fresh (cl s) \<le> fresh (cl t)"
    and "\<And>p. timers t p \<le> timers s p + (if fresh (cl s) \<le> p \<and> p < fresh (cl t) then 1 else 0)"
  shows "timers_ok t"
  unfolding timers_ok_def
proof
  fix p
  have "timers s p \<le> (if p < fresh (cl s) then 1 else 0)" using assms(1) by (simp add: timers_ok_def)
  with assms(2) assms(3) [of p] show "timers t p \<le> (if p < fresh (cl t) then 1 else 0)"
    by (auto split: if_splits)
qed

lemma timers_ok_arms:
  assumes "timers_ok s" and "fresh (cl s) \<le> fresh (cl t)" and "arms_new (cl s) (cl t) es"
    and "\<And>p. timers t p \<le> timers s p + count (arms es) p"
  shows "timers_ok t"
proof (rule timers_ok_keep [OF assms(1,2)])
  fix p
  show "timers t p \<le> timers s p + (if fresh (cl s) \<le> p \<and> p < fresh (cl t) then 1 else 0)"
    using assms(3) assms(4) [of p] unfolding arms_new_def by (meson add_left_mono le_trans)
qed

lemma made_no_timer [simp]: "filter ((=) (TimerRan p)) (made v v') = []"
  by (simp add: made_def)

lemma settle_timers [simp]:
  "expired (settle v P es s) = expired s"
  "armed (settle v P es s) = filter_mset (\<lambda>p. heap v p \<noteq> None) (armed s)"
  by (simp_all add: settle_def)

lemma crash_timers [simp]:
  "armed (crash x P s) = armed s" "expired (crash x P s) = expired s"
  "armed (call_throws x P s) = armed s" "expired (call_throws x P s) = expired s"
  by (simp_all add: crash_def call_throws_def)

lemma count_filter_le: "count (filter_mset Q A) p \<le> count A p"
  by simp

lemma send_arms: "call_send c proc req p v = (ret es, v') \<Longrightarrow> arms es = {#}"
  by (auto simp: call_send_def split: option.splits sum.splits)

lemma deliver_arms: "got_deliver c u h p v = (ret es, v') \<Longrightarrow> arms_new v v' es"
  by (auto simp: got_deliver_def split: option.splits sum.splits prod.splits
      intro: arms_new_mono [OF callback_arms])

lemma timer_arms: "OnTimerExpired c (Some p) e v = (ret es, v') \<Longrightarrow> arms_new v v' es"
  by (auto simp: OnTimerExpired_def split: option.splits if_splits
      intro: arms_newI arms_new_mono [OF callback_arms])

lemma fail_arms: "fail_deliver c p e v = (ret es, v') \<Longrightarrow> arms_new v v' es"
  by (auto simp: fail_deliver_def split: option.splits intro: callback_arms)

lemma plain_arms:
  "fail_retry p e v = ret es \<Longrightarrow> arms es = {#}"
  "OnConnected e v = (ret es, v') \<Longrightarrow> arms es = {#}"
  "OnReconnected p e v = ret es \<Longrightarrow> arms es = {#}"
  by (auto simp: fail_retry_def OnConnected_def OnReconnected_def ListenFromServer_def
      split: option.splits if_splits)

lemma wait_arms: "call_wait p v = ret es \<Longrightarrow> arms es = {#p#}"
  by (auto simp: call_wait_def split: option.splits)

lemma timers_ok_cstep:
  assumes "cstep c s t" and "owners_ok s" and "timers_ok s"
  shows "timers_ok t"
proof -
  note keep = timers_ok_keep [OF assms(3) cstep_frame(2) [OF assms(1,2)]]
    and new = timers_ok_arms [OF assms(3) cstep_frame(2) [OF assms(1,2)]]
  from assms(1) show ?thesis
  proof cases
    case (register proc cb re to p v req)
    with evolves_register(2,3) [OF register(3) owners_okD(1) [OF assms(2)]] show ?thesis
      by (intro keep) (auto simp: timers_def)
  next
    case (request proc req p P es v)
    with send_arms [OF request(4)] show ?thesis by (intro keep) (auto simp: timers_def)
  next
    case (deliver u h p P es v)
    with deliver_arms [OF deliver(4)] show ?thesis by (intro new [of es]) (auto simp: timers_def)
  next
    case (timer p X e es v)
    with timer_arms [OF timer(4)] show ?thesis by (intro new [of es]) (auto simp: timers_def)
  next
    case (fail p e P es v)
    with fail_arms [OF fail(4)] show ?thesis by (intro new [of es]) (auto simp: timers_def)
  next
    case (connect n e es v)
    with plain_arms(2) [OF connect(4)] show ?thesis by (intro keep) (auto simp: timers_def)
  next
    case (send_fails x S e)
    then show ?thesis by (intro keep) (auto simp: timers_def split: option.split)
  qed (rule keep; simp add: timers_def ListenFromServer_def plain_arms wait_arms)+
qed

interpretation tsys: invariant_system cconfig_init "cstep c" "\<lambda>s. cconfig_inv s \<and> timers_ok s"
proof unfold_locales
  fix s :: "'a cconfig"
  assume i: "cconfig_init s"
  then have "creach c s" by (rule reach_init)
  with i show "cconfig_inv s \<and> timers_ok s"
    using creach_inv by (auto simp: timers_ok_def timers_def cconfig_init_def)
next
  fix s t :: "'a cconfig"
  assume "cconfig_inv s \<and> timers_ok s" "cstep c s t"
  then show "cconfig_inv t \<and> timers_ok t"
    using csys.inv_step timers_ok_cstep unfolding cconfig_inv_def by blast
qed

lemma timer_bound:
  assumes "creach c s"
  shows "timers s p \<le> 1"
proof -
  have "timers s p \<le> (if p < fresh (cl s) then 1 else 0)"
    using tsys.reach_inv [OF assms] by (simp add: timers_ok_def)
  then show ?thesis by (simp split: if_splits)
qed

section \<open>A call that only a reply can end\<close>

definition held :: "'r client \<Rightarrow> xid_t \<Rightarrow> caller_ptr \<Rightarrow> bool" where
  "held v x p \<longleftrightarrow> callers v x = Some p \<and> opened v p"

definition waiting :: "'r cconfig \<Rightarrow> xid_t \<Rightarrow> caller_ptr \<Rightarrow> bool" where
  "waiting s x p \<longleftrightarrow>
     cl_nonce (cl s) > 0 \<and> held (cl s) x p \<and> (\<forall>u h. Received u h \<in># threads s \<longrightarrow> rep_xid h \<noteq> x)"

text \<open>A client that has registered at most one more call, under another transaction.\<close>

definition extends :: "'r client \<Rightarrow> 'r client \<Rightarrow> bool" where
  "extends v v' \<longleftrightarrow>
     (callers v' = callers v \<and> heap v' = heap v) \<or>
     (fresh v' = Suc (fresh v) \<and> callers v' = (callers v)(next_xid v \<mapsto> fresh v) \<and>
      (\<forall>q. q \<noteq> fresh v \<longrightarrow> heap v' q = (if callers v (next_xid v) = Some q then None else heap v q)))"

lemma held_extends:
  assumes "held v x p" and "client_ok v" and "extends v v'"
    and "fresh v < fresh v' \<Longrightarrow> next_xid v \<noteq> x"
  shows "held v' x p"
proof -
  have p: "p < fresh v" "\<And>y. callers v y = Some p \<Longrightarrow> y = x"
    using assms(1) opened_bound [OF assms(2)] callers_inj [OF assms(2)] by (auto simp: held_def)
  show ?thesis
  proof (cases "callers v' = callers v \<and> heap v' = heap v")
    case True
    with assms(1) show ?thesis by (simp add: held_def opened_def)
  next
    case False
    with assms(3) have e: "fresh v' = Suc (fresh v)" "callers v' = (callers v)(next_xid v \<mapsto> fresh v)"
      "\<And>q. q \<noteq> fresh v \<Longrightarrow> heap v' q = (if callers v (next_xid v) = Some q then None else heap v q)"
      unfolding extends_def by blast+
    from e(1) assms(4) have "next_xid v \<noteq> x" by simp
    with p have "callers v (next_xid v) \<noteq> Some p" by blast
    with e p assms(1) \<open>next_xid v \<noteq> x\<close> show ?thesis by (auto simp: held_def opened_def)
  qed
qed

lemma extends_register:
  assumes "call_register proc cb re to v = (Some p, v')" and "client_ok v"
  shows "extends v v'"
  using call_register_Some [OF assms] unfolding extends_def by simp

lemma extends_Call: "Call c proc req cb re to v = (r, v') \<Longrightarrow> client_ok v \<Longrightarrow> extends v v'"
  using Call_extends unfolding extends_def by blast

lemma extends_callback:
  assumes "run_callback c cb r e v = (es, v')" and "client_ok v"
  shows "extends v v'"
proof (cases "cb = Bind_callback \<and> e \<noteq> OK")
  case True
  have "extends v v" by (simp add: extends_def)
  with True assms show ?thesis
    by (auto simp: run_callback_def Bind_client_def Call_args_def
        split: prod.splits sum.splits intro: extends_Call)
next
  case False
  with assms show ?thesis
    by (cases cb) (auto simp: run_callback_def extends_def split: sum.splits)
qed

text \<open>What happens to another caller does not touch the held one.\<close>

lemma held_other:
  "held v x p \<Longrightarrow> q \<noteq> p \<Longrightarrow> held (update_caller q f v) x p"
  "held v x p \<Longrightarrow> q \<noteq> p \<Longrightarrow> held (free q v) x p"
  by (auto simp: held_def opened_def)

lemma held_owner:
  assumes "owners_ok s" and "held (cl s) x p" and "T \<in># threads s" and "owns_caller T = Some (h, q)"
  shows "q \<noteq> p"
  using owners_okD(3) [OF assms(1,3,4)] assms(2) by (auto simp: held_def ran_def)

lemma held_made:
  assumes "held v x p" and "client_ok v" and "extends v v'" and "set (made v v') \<subseteq> A"
    and "\<forall>q. Made q x \<notin> A"
  shows "held v' x p"
proof (rule held_extends [OF assms(1-3)])
  assume "fresh v < fresh v'"
  then have "Made (fresh v) (next_xid v) \<in> A" using assms(4) by (simp add: made_def)
  with assms(5) show "next_xid v \<noteq> x" by blast
qed

text \<open>A callback and the destruction of another caller.\<close>

lemma held_callback:
  assumes "run_callback c cb r e v = (es, v')" and "held v x p" and "client_ok v"
    and "set (made v v') \<subseteq> A" and "\<forall>q. Made q x \<notin> A"
  shows "held v' x p"
  using held_made [OF assms(2,3) extends_callback [OF assms(1,3)] assms(4,5)] .

lemma made_free [simp]: "made v (free q v') = made v v'"
  by (simp add: made_def)

lemma held_deliver:
  assumes "got_deliver c u h q v = (ret es, v')" and "held v x p" and "client_ok v" and "q \<noteq> p"
    and "set (made v v') \<subseteq> A" and "\<forall>q. Made q x \<notin> A"
  shows "held v' x p"
  using assms(1,4-6) held_callback [OF _ assms(2,3)]
  by (auto simp: got_deliver_def split: option.splits sum.splits prod.splits intro!: held_other(2))

lemma waitingI:
  assumes "waiting s x p" and "cl_nonce (cl t) = cl_nonce (cl s)" and "held (cl t) x p"
    and "\<And>u h. Received u h \<in># threads t \<Longrightarrow> rep_xid h = x \<Longrightarrow> Received u h \<in># threads s"
  shows "waiting t x p"
  using assms by (auto simp: waiting_def)

text \<open>No step but a reply for its transaction lets a held call go.\<close>

lemma received_cstep:
  "cstep c s t \<Longrightarrow> cevents t = cevents s @ E \<Longrightarrow> Received u h \<in># threads t \<Longrightarrow>
     Received u h \<in># threads s \<or> Got (rep_xid h) \<in> set E"
  by (erule cstep.cases) (auto split: if_splits option.splits)

lemma held_cstep:
  assumes "cstep c s t" and "owners_ok s" and "waiting s x p"
    and E: "cevents t = cevents s @ E" and "\<forall>q. Made q x \<notin> set E"
  shows "held (cl t) x p"
proof -
  have ok: "client_ok (cl s)" and h: "held (cl s) x p" and n: "cl_nonce (cl s) > 0"
    using assms(2,3) by (auto simp: owners_okD(1) waiting_def)
  from assms(1) show ?thesis
  proof cases
    case (register proc cb re to q v req)
    then show ?thesis
      using held_made [OF h ok extends_register [OF register(3) ok] _ assms(5)] E by simp
  next
    case (request proc req q P es v)
    with call_sendD [OF request(4)] h show ?thesis
      by (auto simp: held_def opened_def split: if_splits)
  next
    case (packet n buf u h')
    with h show ?thesis by (simp add: held_def)
  next
    case (take u h' P q v)
    then have "rep_xid h' \<noteq> x" using assms(3) by (auto simp: waiting_def)
    with take got_takeD [OF take(4)] h show ?thesis by (auto simp: held_def opened_def)
  next
    case (mark u h' q P b v)
    then have "q \<noteq> p" using held_owner [OF assms(2) h, of "Taken u h' q"] by simp
    with mark h show ?thesis
      by (auto simp: got_mark_def held_other split: option.splits if_splits)
  next
    case (deliver u h' q P es v)
    then have "q \<noteq> p" using held_owner [OF assms(2) h, of "Marked u h' q"] by simp
    moreover have "set (made (cl s) v) \<subseteq> set E" using deliver(1) E by auto
    ultimately show ?thesis using deliver(1) held_deliver [OF deliver(4) h ok _ _ assms(5)] by simp
  next
    case (timer q X e es v)
    with n have "v = cl s" by (auto simp: OnTimerExpired_def split: option.splits if_splits)
    with timer h show ?thesis by simp
  next
    case (fail q e P es v)
    then have "set (made (cl s) v) \<subseteq> set E" using E by auto
    with fail held_callback [OF _ h ok _ assms(5)] h show ?thesis
      by (auto simp: fail_deliver_def split: option.splits)
  next
    case (connect n e es v)
    with h show ?thesis by (auto simp: OnConnected_def held_def opened_def split: if_splits)
  qed (use h n in simp_all)
qed

lemma waiting_cstep:
  assumes "cstep c s t" and "owners_ok s" and "waiting s x p"
    and "Got x \<notin> set E" and "\<forall>q. Made q x \<notin> set E" and "cevents t = cevents s @ E"
  shows "waiting t x p"
  by (rule waitingI [OF assms(3) cstep_frame(1) [OF assms(1,2)] held_cstep [OF assms(1-3,6,5)]])
     (use received_cstep [OF assms(1,6)] assms(4) in blast)

text \<open>Along a run; the events only grow.\<close>

lemma cstep_events: "cstep c s t \<Longrightarrow> \<exists>E. cevents t = cevents s @ E"
  by (induction rule: cstep.induct) auto

lemma waiting_run:
  assumes "(cstep c)\<^sup>*\<^sup>* s t" and "creach c s" and "waiting s x p"
  shows "cevents t = cevents s @ E \<Longrightarrow> Got x \<notin> set E \<Longrightarrow> \<forall>q. Made q x \<notin> set E \<Longrightarrow>
    creach c t \<and> waiting t x p"
  using assms(1)
proof (induction arbitrary: E rule: rtranclp_induct)
  case base
  with assms(2,3) show ?case by simp
next
  case (step t u)
  obtain E1 where E1: "cevents t = cevents s @ E1"
    using step.hyps(1)
  proof (induction arbitrary: thesis rule: rtranclp_induct)
    case (step y z)
    then show ?case using cstep_events by (metis append.assoc)
  qed simp
  obtain E2 where E2: "cevents u = cevents t @ E2" using cstep_events [OF step.hyps(2)] by blast
  with E1 step.prems(1) have "E = E1 @ E2" by simp
  with step.prems step.IH [OF E1] have t: "creach c t" "waiting t x p" by auto
  have "waiting u x p"
    by (rule waiting_cstep [OF step.hyps(2) _ t(2) _ _ E2])
       (use step.prems \<open>E = E1 @ E2\<close> creach_inv [OF t(1)] in \<open>auto simp: cconfig_inv_def\<close>)
  with creach_step [OF t(1) step.hyps(2)] show ?case by simp
qed

text \<open>No callback has run for an open call of a client with a nonce.\<close>

lemma waiting_silent:
  assumes "creach c s" and "waiting s x p"
  shows "Delivered p r e \<notin> set (cevents s)"
proof -
  have o: "opened (cl s) p" and n: "cl_nonce (cl s) > 0" using assms(2) by (simp_all add: waiting_def held_def)
  have "invocations s p \<le>
      send_failures s p + (if opened (cl s) p \<or> fresh (cl s) \<le> p then 0 else 1)"
    using cconfig_invD [OF assms(1)] by (simp add: account_ok_def)
  then have "invocations s p \<le> send_failures s p" using o by simp
  also have "\<dots> = 0" using no_failures_with_nonce [OF assms(1) n] by simp
  finally have "filter (delivers p) (cevents s) = []"
    by (auto simp: invocations_def deliveries_def)
  then show ?thesis by (auto simp: filter_empty_conv)
qed

section \<open>A run with a repeated packet\<close>

lemma demo_resend_step:
  obtains b where
    "creach demo_codec (demo_s (demo_v1 5 False OK b) {#} {#} {#0#} {#} 1 [Made 0 2])"
    and "cstep demo_codec (demo_s (demo_v1 5 False OK b) {#} {#} {#0#} {#} 1 [Made 0 2])
      (demo_s (demo_v1 5 False OK b) {#} {#} {#} {#2#} 1 [Made 0 2, TimerRan 0])"
    and "OnTimerExpired demo_codec (Some 0) OK (demo_v1 5 False OK b) =
      (ret [SendTo b 2], demo_v1 5 False OK b)"
proof -
  obtain b where "creach demo_codec (demo_s (demo_v1 5 False OK b) {#} {#0#} {#} {#2#} 0 [Made 0 2])"
    using demo_wait [of True] by auto
  from demo_sent [OF demo_expire [OF this]] have s: "creach demo_codec
      (demo_s (demo_v1 5 False OK b) {#} {#} {#0#} {#} 1 [Made 0 2])" (is "creach _ ?s") by simp
  have o: "OnTimerExpired demo_codec (Some 0) OK (demo_v1 5 False OK b) =
      (ret [SendTo b 2], demo_v1 5 False OK b)"
    by (simp add: OnTimerExpired_def)
  then have "cstep demo_codec ?s (perform [SendTo b 2]
      (demo_s (demo_v1 5 False OK b) {#} {#} {#} {#} 1 [Made 0 2, TimerRan 0]))"
    using cstep.timer [of ?s 0 "{#}" demo_codec OK] by (simp add: made_def)
  then have "cstep demo_codec ?s
      (demo_s (demo_v1 5 False OK b) {#} {#} {#} {#2#} 1 [Made 0 2, TimerRan 0])"
    by (simp add: perform_def demo_s_def)
  from that [OF s this o] show thesis .
qed

lemma demo_resend:
  obtains b where "creach demo_codec
    (demo_s (demo_v1 5 False OK b) {#} {#} {#} {#2#} 1 [Made 0 2, TimerRan 0])"
  by (rule demo_resend_step) (rule that, rule creach_step)

section \<open>Properties\<close>

text \<open>
  One timer. The timer of a call is armed once, and its handler runs at most once: while it is
  armed or expired it has not run, and after it has run it is not armed again.
\<close>

theorem timer_runs_once:
  assumes "creach c s"
  shows "length (filter ((=) (TimerRan p)) (cevents s)) + count (armed s) p + count (expired s) p \<le> 1"
  using timer_bound [OF assms, of p] by (simp add: timers_def)

theorem timer_runs_once_witness:
  "\<exists>s :: unit cconfig. creach demo_codec s \<and> TimerRan 0 \<in> set (cevents s) \<and>
     0 \<notin># armed s \<and> 0 \<notin># expired s"
proof -
  obtain b where s: "creach demo_codec
      (demo_s (demo_v1 5 False OK b) {#} {#} {#} {#2#} 1 [Made 0 2, TimerRan 0])" (is "creach _ ?s")
    by (rule demo_resend)
  from timer_runs_once [OF s, of 0] have "0 \<notin># armed ?s \<and> 0 \<notin># expired ?s" by simp
  with s show ?thesis by (intro exI [of _ ?s]) simp
qed

text \<open>
  C10: the second loss is final. When the timer of a call has resent the packet and no reply to the
  transaction arrives, then whatever else happens the call stays open, its callback does not run
  and no timer of it is left: the caller is never told.
\<close>

theorem second_loss_is_final:
  assumes "creach c s" and "waiting s x p" and "TimerRan p \<in> set (cevents s)"
    and "(cstep c)\<^sup>*\<^sup>* s t" and "cevents t = cevents s @ E"
    and "Got x \<notin> set E" and "\<forall>q. Made q x \<notin> set E"
  shows "opened (cl t) p \<and> (\<forall>r e. Delivered p r e \<notin> set (cevents t)) \<and> p \<notin># armed t + expired t"
proof -
  have t: "creach c t" "waiting t x p"
    using waiting_run [OF assms(4,1,2,5-7)] by blast+
  have "TimerRan p \<in> set (cevents t)" using assms(3,5) by simp
  then have "0 < length (filter ((=) (TimerRan p)) (cevents t))" by (auto simp: filter_empty_conv)
  with timer_bound [OF t(1), of p] have "count (armed t) p = 0" "count (expired t) p = 0"
    unfolding timers_def by linarith+
  then have "p \<notin># armed t + expired t" by (simp add: not_in_iff)
  with t waiting_silent [OF t] show ?thesis by (simp add: waiting_def held_def)
qed

theorem second_loss_is_final_witness:
  "\<exists>s t :: unit cconfig. creach demo_codec s \<and> (cstep demo_codec)\<^sup>*\<^sup>* s t \<and> sends t = {#} \<and>
     opened (cl t) 0 \<and> (\<forall>r e. Delivered 0 r e \<notin> set (cevents t)) \<and> 0 \<notin># armed t + expired t"
proof -
  obtain b where s: "creach demo_codec
      (demo_s (demo_v1 5 False OK b) {#} {#} {#} {#2#} 1 [Made 0 2, TimerRan 0])" (is "creach _ ?s")
    by (rule demo_resend)
  let ?t = "demo_s (demo_v1 5 False OK b) {#} {#} {#} {#} 2 [Made 0 2, TimerRan 0]"
  have "cstep demo_codec ?s ?t"
    using cstep.sent [of ?s 2 "{#}" demo_codec] by (simp add: ListenFromServer_def numeral_2_eq_2)
  then have r: "(cstep demo_codec)\<^sup>*\<^sup>* ?s ?t" by blast
  have w: "waiting ?s 2 0" by (simp add: waiting_def held_def opened_def)
  have "opened (cl ?t) 0 \<and> (\<forall>r e. Delivered 0 r e \<notin> set (cevents ?t)) \<and> 0 \<notin># armed ?t + expired ?t"
    by (rule second_loss_is_final [OF s w _ r, of "[]"]) simp_all
  with s r show ?thesis by (intro exI [of _ ?s] exI [of _ ?t]) simp
qed

text \<open>
  C34: a repeated packet outlives its buffer. A client with a nonce can be in a state where its
  first packet has been sent and nothing is in flight, so that the expired timer resends the
  \<open>buf_\<close> of the live \<open>Caller\<close>; the late reply to the first packet can then destroy that \<open>Caller\<close>
  while the send that the timer has started, the only one there is, still reads its buffer.
\<close>

theorem resend_outlives_caller:
  "\<exists>(s :: unit cconfig) s1 t p k X.
     creach demo_codec s \<and> 0 < cl_nonce (cl s) \<and> sends s = {#} \<and>
     heap (cl s) p = Some k \<and> expired s = add_mset p X \<and>
     OnTimerExpired demo_codec (Some p) OK (cl s) = (ret [SendTo (c_buf k) (c_xid k)], cl s) \<and>
     cstep demo_codec s s1 \<and> cl s1 = cl s \<and> expired s1 = X \<and> sends s1 = {#c_xid k#} \<and>
     (cstep demo_codec)\<^sup>*\<^sup>* s1 t \<and> sends t = {#c_xid k#} \<and> heap (cl t) p = None"
proof -
  obtain b where s: "creach demo_codec (demo_s (demo_v1 5 False OK b) {#} {#} {#0#} {#} 1 [Made 0 2])"
        (is "creach _ ?s")
      "cstep demo_codec (demo_s (demo_v1 5 False OK b) {#} {#} {#0#} {#} 1 [Made 0 2])
         (demo_s (demo_v1 5 False OK b) {#} {#} {#} {#2#} 1 [Made 0 2, TimerRan 0])"
        (is "cstep _ _ ?s1")
    and o: "OnTimerExpired demo_codec (Some 0) OK (demo_v1 5 False OK b) =
      (ret [SendTo b 2], demo_v1 5 False OK b)"
    by (rule demo_resend_step)
  let ?t = "demo_s (demo_v2 5) {#} {#} {#} {#2#} 0
    [Made 0 2, TimerRan 0, Got 2, Delivered 0 (Some 2) OK]"
  have r: "(cstep demo_codec)\<^sup>*\<^sup>* ?s1 ?t"
    using demo_answer_run [of "{#}" 5 b "{#}" "{#}" "{#2#}" "[Made 0 2, TimerRan 0]"] by simp
  show ?thesis
    by (intro exI [of _ ?s] exI [of _ ?s1] exI [of _ ?t] exI [of _ 0]
          exI [of _ "demo_caller False OK b"] exI [of _ "{#}"] conjI s r)
       (simp_all add: demo_v2_def o)
qed

end
