(* ===== verification/Connections.thy ===== *)
theory Connections
  imports Rpc_Server "HOL-Library.Multiset"
begin

text \<open>
  The I/O loop of the server: which operations are pending on its connections and on the acceptor
  (\<open>Start\<close>, \<open>AcceptNewConnection\<close>, \<open>ReadIncomingPacket\<close> and the callbacks of \<open>rpc_server.cpp\<close> and
  \<open>rpc_server.h\<close>). A step completes one pending operation, with any data and any error, and runs its
  callback; the operations that the callback starts become pending. A callback is one step here:
  what it starts on its connection does not depend on what other callbacks do in between.
\<close>

section \<open>The loop\<close>

record 's io =
  io_srv :: "'s server"
  io_ops :: "effect multiset"     \<comment> \<open>pending operations\<close>
  io_failed :: "exn option"       \<comment> \<open>an exception left a callback\<close>

fun pends :: "effect \<Rightarrow> bool" where
  "pends (Send _ _ _) = True"
| "pends (Receive _) = True"
| "pends Accept = True"
| "pends _ = False"

text \<open>A new server after \<open>Start\<close>.\<close>

definition io_init :: "'s io \<Rightarrow> bool" where
  "io_init s \<longleftrightarrow>
     (\<exists>rnd workers a. RpcServer_new rnd workers a = ret (io_srv s)) \<and>
     io_ops s = filter_mset pends (mset (Start (io_srv s))) \<and> io_failed s = None"

inductive iostep :: "codec \<Rightarrow> 's io \<Rightarrow> 's io \<Rightarrow> bool" for c :: codec where
  accepted: "io_failed s = None \<Longrightarrow> io_ops s = add_mset Accept P \<Longrightarrow>
     k \<notin> set (client_sockets (io_srv s)) \<Longrightarrow> OnNewConnection k e (io_srv s) = (v, es) \<Longrightarrow>
     iostep c s (s\<lparr>io_srv := v, io_ops := mset es + P\<rparr>)"
| received: "io_failed s = None \<Longrightarrow> io_ops s = add_mset (Receive k) P \<Longrightarrow>
     OnReceiveFinished c k data n e (io_srv s) = (ret es, v) \<Longrightarrow>
     iostep c s (s\<lparr>io_srv := v, io_ops := mset es + P\<rparr>)"
| received_throws: "io_failed s = None \<Longrightarrow> io_ops s = add_mset (Receive k) P \<Longrightarrow>
     OnReceiveFinished c k data n e (io_srv s) = (throw x, v) \<Longrightarrow>
     iostep c s (s\<lparr>io_srv := v, io_ops := P, io_failed := Some x\<rparr>)"
| sent: "io_failed s = None \<Longrightarrow> io_ops s = add_mset (Send k b Checked) P \<Longrightarrow>
     OnSendFinished k e (io_srv s) = (v, es) \<Longrightarrow>
     iostep c s (s\<lparr>io_srv := v, io_ops := mset es + P\<rparr>)"
| sent_again: "io_failed s = None \<Longrightarrow> io_ops s = add_mset (Send k b Unchecked) P \<Longrightarrow>
     OnRepeatSent k e (io_srv s) = (v, es) \<Longrightarrow>
     iostep c s (s\<lparr>io_srv := v, io_ops := mset es + P\<rparr>)"
| registered: "io_failed s = None \<Longrightarrow> Register proc h (io_srv s) = ret v \<Longrightarrow>
     iostep c s (s\<lparr>io_srv := v\<rparr>)"

inductive_cases iostepE: "iostep c s t"

abbreviation io_reach :: "codec \<Rightarrow> 's io \<Rightarrow> bool" where
  "io_reach c \<equiv> reach io_init (iostep c)"

lemma RpcServer_new_conns:
  "RpcServer_new rnd workers a = ret v \<Longrightarrow> client_sockets v = [] \<and> alive v = []"
  by (auto simp: RpcServer_new_def Register_def Let_def split: if_splits)

section \<open>What the callbacks start\<close>

definition starts_on :: "sock \<Rightarrow> effect list \<Rightarrow> bool" where
  "starts_on k es \<longleftrightarrow> (\<exists>e. es = [e] \<and> e \<noteq> Accept \<and> (\<forall>k'. owns k' e \<longleftrightarrow> k' = k))"

lemma starts_on_simps [simp]:
  "starts_on k [Send k b a]" "starts_on k [Receive k]"
  by (auto simp: starts_on_def)

lemma header_reply_starts: "header_reply c k x e a = ret es \<Longrightarrow> starts_on k es"
  by (auto simp: header_reply_def res_simps)

lemma lookup_starts:
  "dispatch_lookup c (Some k) buf v = ret (Rejected es) \<Longrightarrow> starts_on k es"
  "dispatch_lookup c (Some k) buf v = ret (Found j) \<Longrightarrow> job_sock j = k"
  by (auto simp: dispatch_lookup_def res_simps intro: header_reply_starts
      split: if_splits option.splits)

text \<open>The connections that a section leaves alone.\<close>

definition same_conns :: "'s server \<Rightarrow> 's server \<Rightarrow> bool" where
  "same_conns v v' \<longleftrightarrow> alive v' = alive v \<and> client_sockets v' = client_sockets v"

lemma same_conns_trans: "same_conns u v \<Longrightarrow> same_conns v w \<Longrightarrow> same_conns u w"
  by (simp add: same_conns_def)

lemma section_conns:
  "same_conns v (dispatch_known j v)"
  "dispatch_check j v = (st, v') \<Longrightarrow> same_conns v v'"
  "dispatch_execute j v = (r, v') \<Longrightarrow> same_conns v v'"
  "dispatch_record c j rep v = ret v' \<Longrightarrow> same_conns v v'"
  by (auto simp: same_conns_def dispatch_known_def dispatch_check_def dispatch_execute_def
      dispatch_record_def res_simps split: prod.splits sum.splits)

lemma dispatch_state_starts:
  assumes "dispatch_state c j st v = (ret es, v')"
  shows "starts_on (job_sock j) es" and "same_conns v v'"
proof -
  have new: "starts_on (job_sock j) es \<and> same_conns v v'" if "dispatch_new c j v = (ret es, v')"
    using that section_conns(3) [of j v] section_conns(4) [of c j]
    by (auto simp: dispatch_new_def dispatch_send_def res_simps
        split: prod.splits sum.splits if_splits intro: same_conns_trans)
  have "starts_on (job_sock j) es \<and> same_conns v v'"
    using assms new
    by (cases st)
       (auto simp: dispatch_state_def ReadIncomingPacket_def dispatch_resend_def dispatch_forgotten_def
         res_simps same_conns_def intro: header_reply_starts)
  then show "starts_on (job_sock j) es" and "same_conns v v'" by blast+
qed

lemma Dispatch_starts:
  assumes "Dispatch c (Some k) buf v = (ret es, v')"
  shows "starts_on k es" and "same_conns v v'"
proof -
  have "starts_on k es \<and> same_conns v v'"
  proof (cases "dispatch_lookup c (Some k) buf v")
    case (Inl x)
    with assms show ?thesis by (simp add: Dispatch_def)
  next
    case (Inr r)
    show ?thesis
    proof (cases r)
      case (Rejected es')
      with assms Inr lookup_starts(1) show ?thesis by (auto simp: Dispatch_def same_conns_def)
    next
      case (Found j)
      note k = lookup_starts(2) [OF Inr [unfolded Found]]
      show ?thesis
      proof (cases "job_clt j > 0")
        case True
        obtain st v1 where ck: "dispatch_check j (dispatch_known j v) = (st, v1)" by fastforce
        with assms Inr Found True have "dispatch_state c j st v1 = (ret es, v')"
          by (simp add: Dispatch_def)
        from dispatch_state_starts [OF this] k section_conns(1) [of v j] section_conns(2) [OF ck]
        show ?thesis by (auto intro: same_conns_trans)
      next
        case False
        with assms Inr Found have "dispatch_state c j NEW v = (ret es, v')"
          by (simp add: Dispatch_def)
        from dispatch_state_starts [OF this] k show ?thesis by simp
      qed
    qed
  qed
  then show "starts_on k es" and "same_conns v v'" by blast+
qed

section \<open>One operation for each live connection\<close>

definition pending_on :: "sock \<Rightarrow> 's io \<Rightarrow> nat" where
  "pending_on k s = size (filter_mset (owns k) (io_ops s))"

definition io_inv :: "'s io \<Rightarrow> bool" where
  "io_inv s \<longleftrightarrow>
     (\<forall>k. pending_on k s = (if k \<in> set (alive (io_srv s)) then 1 else 0)) \<and>
     set (alive (io_srv s)) \<subseteq> set (client_sockets (io_srv s)) \<and> count (io_ops s) Accept \<le> 1"

lemma filter_starts:
  assumes "starts_on k es"
  shows "size (filter_mset (owns k') (mset es)) = (if k' = k then 1 else 0)"
    and "count (mset es) Accept = 0"
proof -
  from assms obtain e where "es = [e]" "e \<noteq> Accept" "\<And>k'. owns k' e \<longleftrightarrow> k' = k"
    by (auto simp: starts_on_def)
  then show "size (filter_mset (owns k') (mset es)) = (if k' = k then 1 else 0)"
    and "count (mset es) Accept = 0" by simp_all
qed

lemma io_inv_iostep: "iostep c s t \<Longrightarrow> io_inv s \<Longrightarrow> io_failed t = None \<Longrightarrow> io_inv t"
proof (induction rule: iostep.induct)
  case (accepted s P k e v es)
  then have "k \<notin> set (alive (io_srv s))" by (auto simp: io_inv_def)
  with accepted show ?case
    by (auto simp: io_inv_def pending_on_def OnNewConnection_def ReadIncomingPacket_def
        AcceptNewConnection_def split: if_splits)
next
  case (received s k P data n e es v)
  show ?case
  proof (cases "e = OK")
    case True
    with received(3) have "Dispatch c (Some k) (resize n data) (io_srv s) = (ret es, v)"
      by (simp add: OnReceiveFinished_def)
    note d = Dispatch_starts [OF this]
    have "pending_on k' (s\<lparr>io_srv := v, io_ops := mset es + P\<rparr>) = pending_on k' s" for k'
      using received(2) filter_starts(1) [OF d(1), of k'] by (simp add: pending_on_def)
    then show ?thesis
      using received.prems(1) received(2) filter_starts(2) [OF d(1)] d(2)
      by (simp add: io_inv_def same_conns_def del: count_mset_0_iff)
  next
    case False
    with received(3) have "es = []" "v = release k [] (io_srv s)"
      by (auto simp: OnReceiveFinished_def split: if_splits)
    with received show ?thesis
      by (auto simp: io_inv_def pending_on_def release_def split: if_splits)
  qed
next
  case (sent s k b P e v es)
  then show ?case
    by (auto simp: io_inv_def pending_on_def OnSendFinished_def ReadIncomingPacket_def release_def
        Let_def split: if_splits)
next
  case (sent_again s k b P e v es)
  then show ?case
    by (auto simp: io_inv_def pending_on_def OnRepeatSent_def ReadIncomingPacket_def split: if_splits)
next
  case (registered s proc h v)
  then show ?case by (auto simp: io_inv_def pending_on_def Register_def split: if_splits)
qed simp

interpretation iosys: invariant_system io_init "iostep c" "\<lambda>s. io_failed s = None \<longrightarrow> io_inv s"
proof unfold_locales
  fix s :: "'a io"
  assume "io_init s"
  then have "alive (io_srv s) = [] \<and> io_ops s = {#Accept#}"
    by (auto simp: io_init_def Start_def AcceptNewConnection_def dest: RpcServer_new_conns)
  then show "io_failed s = None \<longrightarrow> io_inv s" by (simp add: io_inv_def pending_on_def)
next
  fix s t :: "'a io"
  assume "io_failed s = None \<longrightarrow> io_inv s" "iostep c s t"
  moreover have "io_failed s = None" using \<open>iostep c s t\<close> by (elim iostepE) auto
  ultimately show "io_failed t = None \<longrightarrow> io_inv t" using io_inv_iostep by blast
qed

text \<open>Without a pending accept nothing is accepted.\<close>

lemma Accept_closed:
  "iostep c s t \<Longrightarrow> Accept \<notin># io_ops s \<Longrightarrow>
     Accept \<notin># io_ops t \<and> (io_failed t = None \<longrightarrow> client_sockets (io_srv t) = client_sockets (io_srv s))"
proof (induction rule: iostep.induct)
  case (received s k P data n e es v)
  show ?case
  proof (cases "e = OK")
    case True
    with received(3) have "Dispatch c (Some k) (resize n data) (io_srv s) = (ret es, v)"
      by (simp add: OnReceiveFinished_def)
    note d = Dispatch_starts [OF this]
    from filter_starts(2) [OF d(1)] d(2) received show ?thesis
      by (simp add: same_conns_def not_in_iff)
  next
    case False
    with received show ?thesis
      by (auto simp: OnReceiveFinished_def release_def split: if_splits)
  qed
next
  case (registered s proc h v)
  then show ?case by (auto simp: Register_def split: if_splits)
qed (auto simp: OnSendFinished_def OnRepeatSent_def ReadIncomingPacket_def release_def Let_def)

lemma Accept_closed_run:
  assumes "(iostep c)\<^sup>*\<^sup>* s t" and "Accept \<notin># io_ops s" and "io_failed t = None"
  shows "Accept \<notin># io_ops t \<and> client_sockets (io_srv t) = client_sockets (io_srv s)"
  using assms(1,3)
proof (induction rule: rtranclp_induct)
  case base
  with assms(2) show ?case by simp
next
  case (step t u)
  have "io_failed t = None" using step.hyps(2) by (elim iostepE) auto
  with step Accept_closed [OF step.hyps(2)] show ?case by simp
qed

section \<open>A run\<close>

definition idle_server :: "unit server" where
  "idle_server = \<lparr>srv_nonce = 9, procs = [BIND \<mapsto> make_handler get_int32 json_of_uint32 (Bind 9)],
     wins = windows_new, client_sockets = [], alive = [], stoped = False, num_worker = 2, app = ()\<rparr>"

definition demo_io :: "unit server \<Rightarrow> effect multiset \<Rightarrow> unit io" where
  "demo_io v P = \<lparr>io_srv = v, io_ops = P, io_failed = None\<rparr>"

lemma demo_io_simps [simp]:
  "io_srv (demo_io v P) = v" "io_ops (demo_io v P) = P" "io_failed (demo_io v P) = None"
  by (simp_all add: demo_io_def)

lemma demo_io_init: "io_reach c (demo_io idle_server {#Accept#})"
proof (rule reach_init)
  have "RpcServer_new 9 2 () = ret idle_server"
    by (simp add: RpcServer_new_def Register_def idle_server_def)
  then show "io_init (demo_io idle_server {#Accept#})"
    unfolding io_init_def by (auto simp: demo_io_def Start_def AcceptNewConnection_def)
qed

lemma demo_io_accept:
  "io_reach c (demo_io (idle_server\<lparr>client_sockets := [1], alive := [1]\<rparr>) {#Receive 1, Accept#})"
proof (rule reach_step [OF demo_io_init])
  show "iostep c (demo_io idle_server {#Accept#})
      (demo_io (idle_server\<lparr>client_sockets := [1], alive := [1]\<rparr>) {#Receive 1, Accept#})"
    using iostep.accepted [of "demo_io idle_server {#Accept#}" "{#}" 1 OK _ _ c]
    by (simp add: demo_io_def idle_server_def OnNewConnection_def ReadIncomingPacket_def
        AcceptNewConnection_def)
qed

section \<open>Properties\<close>

text \<open>
  C18: one operation for each connection. As long as no exception has left a callback, a live
  connection has exactly one pending operation and a closed one has none: two sends on a
  connection never overlap, and no live connection is left without a receive or a send.
\<close>

theorem one_operation:
  assumes "io_reach c s" and "io_failed s = None"
  shows "size (filter_mset (owns k) (io_ops s)) = (if k \<in> set (alive (io_srv s)) then 1 else 0)"
  using iosys.reach_inv [OF assms(1)] assms(2) by (simp add: io_inv_def pending_on_def)

theorem one_operation_witness:
  "\<exists>s :: unit io. io_reach demo_codec s \<and> size (filter_mset (owns 1) (io_ops s)) = 1"
proof -
  have "size (filter_mset (owns 1) (io_ops
      (demo_io (idle_server\<lparr>client_sockets := [1], alive := [1]\<rparr>) {#Receive 1, Accept#}))) = 1"
    using one_operation [OF demo_io_accept, of 1] by (simp add: demo_io_def)
  with demo_io_accept show ?thesis by blast
qed

text \<open>
  C30: a failed accept is final. When an accept completes with an error, no connection is accepted
  in any run from there on, whatever happens to the connections that are open.
\<close>

theorem failed_accept_is_final:
  assumes "io_reach c s" and "io_failed s = None" and "io_ops s = add_mset Accept P"
    and "OnNewConnection k e (io_srv s) = (v, es)" and "e \<noteq> OK"
    and "(iostep c)\<^sup>*\<^sup>* (s\<lparr>io_srv := v, io_ops := mset es + P\<rparr>) t" and "io_failed t = None"
  shows "Accept \<notin># io_ops t \<and> client_sockets (io_srv t) = client_sockets (io_srv s)"
proof -
  have "count (io_ops s) Accept \<le> 1"
    using iosys.reach_inv [OF assms(1)] assms(2) by (simp add: io_inv_def)
  with assms(3) have "Accept \<notin># P" by (simp add: not_in_iff)
  moreover have "v = io_srv s" "es = []" using assms(4,5) by (auto simp: OnNewConnection_def)
  ultimately show ?thesis using Accept_closed_run [OF assms(6) _ assms(7)] by simp
qed

theorem failed_accept_is_final_witness:
  "\<exists>s t :: unit io. io_reach demo_codec s \<and> iostep demo_codec s t \<and> alive (io_srv t) = [1] \<and>
     Accept \<in># io_ops s \<and> Accept \<notin># io_ops t"
proof -
  let ?v = "idle_server\<lparr>client_sockets := [1], alive := [1]\<rparr>"
  let ?s = "demo_io ?v {#Receive 1, Accept#}"
  let ?t = "?s\<lparr>io_srv := ?v, io_ops := mset [] + {#Receive 1#}\<rparr>"
  have e: "OnNewConnection 2 ACCEPT_FAILURE (io_srv ?s) = (?v, [])"
    by (simp add: demo_io_def OnNewConnection_def)
  have ops: "io_ops ?s = add_mset Accept {#Receive 1#}" "io_failed ?s = None"
    by (simp_all add: demo_io_def)
  have "2 \<notin> set (client_sockets (io_srv ?s))" by (simp add: demo_io_def)
  from iostep.accepted [OF ops(2,1) this e] have st: "iostep demo_codec ?s ?t" .
  have "Accept \<notin># io_ops ?t \<and> client_sockets (io_srv ?t) = client_sockets (io_srv ?s)"
    by (rule failed_accept_is_final [OF demo_io_accept ops(2,1) e]) (simp_all add: ops)
  with st demo_io_accept [of demo_codec] show ?thesis
    by (intro exI [of _ ?s] exI [of _ ?t]) (simp add: demo_io_def)
qed

end
