(* ===== verification/Lifetimes.thy ===== *)
theory Lifetimes
  imports Client_Steps Connections
begin

text \<open>
  How long client and server live. Both are shared objects: the application holds references, and
  so does every operation whose callback captures \<open>shared_from_this()\<close>, from its start to the end of
  its callback. The thread that drops the last reference runs the destructor, and the destructor
  joins the workers. A worker that drops it joins itself, which \<open>std::thread::join\<close> answers with
  \<open>std::system_error\<close>; a destructor must not throw, so this ends the program.
\<close>

section \<open>Shared objects\<close>

datatype thread = Application | Worker nat

text \<open>Joining the workers \<open>0, \<dots>, n - 1\<close>, all of which run, from the thread \<open>me\<close>.\<close>

definition join_workers :: "thread \<Rightarrow> nat \<Rightarrow> unit res" where
  "join_workers me n =
     (case me of
        Application \<Rightarrow> ret ()
      | Worker i \<Rightarrow> if i < n then throw System_error else ret ())"

text \<open>\<open>ended\<close>: the thread that has run the destructor, and how the destructor ended.\<close>

record 'c life =
  obj :: 'c
  app_refs :: nat
  ended :: "(thread \<times> unit res) option"

text \<open>
  A thread has finished a step or dropped a reference. \<open>held c\<close> counts the operations that hold
  a reference, those whose callback runs included.
\<close>

definition let_go :: "('c \<Rightarrow> nat) \<Rightarrow> (thread \<Rightarrow> 'c \<Rightarrow> unit res) \<Rightarrow> thread \<Rightarrow> 'c life \<Rightarrow> 'c life" where
  "let_go held destroy me l =
     l\<lparr>ended := if app_refs l = 0 \<and> held (obj l) = 0 then Some (me, destroy me (obj l)) else None\<rparr>"

lemma let_go_simps [simp]:
  "obj (let_go held destroy me l) = obj l" "app_refs (let_go held destroy me l) = app_refs l"
  "ended (let_go held destroy me l) =
     (if app_refs l = 0 \<and> held (obj l) = 0 then Some (me, destroy me (obj l)) else None)"
  by (simp_all add: let_go_def)

text \<open>
  \<open>wstep\<close>: a worker, numbered below \<open>workers c\<close>, takes a step; \<open>astep\<close>: an application thread does,
  which needs a reference. \<open>away c\<close>: no application thread is inside an operation.
\<close>

inductive lifestep ::
  "('c \<Rightarrow> 'c \<Rightarrow> bool) \<Rightarrow> ('c \<Rightarrow> 'c \<Rightarrow> bool) \<Rightarrow> ('c \<Rightarrow> bool) \<Rightarrow> ('c \<Rightarrow> nat) \<Rightarrow> ('c \<Rightarrow> nat) \<Rightarrow>
     (thread \<Rightarrow> 'c \<Rightarrow> unit res) \<Rightarrow> 'c life \<Rightarrow> 'c life \<Rightarrow> bool"
  for wstep astep away held workers destroy where
  works: "ended l = None \<Longrightarrow> wstep (obj l) c \<Longrightarrow> i < workers c \<Longrightarrow>
     lifestep wstep astep away held workers destroy l (let_go held destroy (Worker i) (l\<lparr>obj := c\<rparr>))"
| calls: "ended l = None \<Longrightarrow> app_refs l > 0 \<Longrightarrow> astep (obj l) c \<Longrightarrow>
     lifestep wstep astep away held workers destroy l (l\<lparr>obj := c\<rparr>)"
| copies: "ended l = None \<Longrightarrow> app_refs l > 0 \<Longrightarrow>
     lifestep wstep astep away held workers destroy l (l\<lparr>app_refs := Suc (app_refs l)\<rparr>)"
| drops: "ended l = None \<Longrightarrow> app_refs l = Suc n \<Longrightarrow> (n = 0 \<longrightarrow> away (obj l)) \<Longrightarrow>
     lifestep wstep astep away held workers destroy l
       (let_go held destroy Application (l\<lparr>app_refs := n\<rparr>))"

text \<open>The application builds the object and holds the only reference.\<close>

definition life_init :: "('c \<Rightarrow> bool) \<Rightarrow> 'c life \<Rightarrow> bool" where
  "life_init init l \<longleftrightarrow> init (obj l) \<and> app_refs l = 1 \<and> ended l = None"

text \<open>
  What is asked of the object: a worker's step ends at most one of the operations that hold a
  reference and lets no application thread in, and a worker that destroys the object joins itself.
\<close>

locale shared_object =
  fixes init :: "'c \<Rightarrow> bool" and wstep :: "'c \<Rightarrow> 'c \<Rightarrow> bool" and astep :: "'c \<Rightarrow> 'c \<Rightarrow> bool"
    and away :: "'c \<Rightarrow> bool" and held :: "'c \<Rightarrow> nat" and workers :: "'c \<Rightarrow> nat"
    and destroy :: "thread \<Rightarrow> 'c \<Rightarrow> unit res" and good :: "'c \<Rightarrow> bool" and err :: "'c \<Rightarrow> exn"
  assumes good_init: "init c \<Longrightarrow> good c"
    and good_wstep: "good c \<Longrightarrow> wstep c d \<Longrightarrow> good d"
    and good_astep: "good c \<Longrightarrow> astep c d \<Longrightarrow> good d"
    and away_wstep: "away c \<Longrightarrow> wstep c d \<Longrightarrow> away d"
    and held_wstep: "wstep c d \<Longrightarrow> held c \<le> Suc (held d)"
    and joins_itself: "good d \<Longrightarrow> wstep c d \<Longrightarrow> held d = 0 \<Longrightarrow> i < workers d \<Longrightarrow>
      destroy (Worker i) d = throw (err d)"
begin

abbreviation lreach :: "'c life \<Rightarrow> bool" where
  "lreach \<equiv> reach (life_init init) (lifestep wstep astep away held workers destroy)"

definition life_ok :: "'c life \<Rightarrow> bool" where
  "life_ok l \<longleftrightarrow> good (obj l) \<and> (app_refs l = 0 \<longrightarrow> away (obj l)) \<and>
     (case ended l of
        None \<Rightarrow> app_refs l > 0 \<or> held (obj l) > 0
      | Some (me, r) \<Rightarrow> app_refs l = 0 \<and> held (obj l) = 0 \<and>
          r = (if me = Application then destroy me (obj l) else throw (err (obj l))))"

lemma life_ok_step:
  "lifestep wstep astep away held workers destroy l m \<Longrightarrow> life_ok l \<Longrightarrow> life_ok m"
proof (induction rule: lifestep.induct)
  case (works l c i)
  then have "good c" using good_wstep [of "obj l" c] by (simp add: life_ok_def)
  with works show ?case
    using joins_itself [of c "obj l" i] away_wstep [of "obj l" c] by (auto simp: life_ok_def)
next
  case (calls l c)
  then show ?case using good_astep by (auto simp: life_ok_def)
qed (auto simp: life_ok_def)

lemma lreach_ok: "lreach l \<Longrightarrow> life_ok l"
proof (induction rule: reach.induct)
  case (reach_init l)
  then show ?case using good_init by (auto simp: life_ok_def life_init_def)
qed (rule life_ok_step)

lemma destroyed:
  assumes "lreach l" and "ended l = Some (me, r)"
  shows "app_refs l = 0 \<and> held (obj l) = 0 \<and> good (obj l) \<and>
    r = (if me = Application then destroy me (obj l) else throw (err (obj l)))"
  using lreach_ok [OF assms(1)] assms(2) by (simp add: life_ok_def)

abbreviation step :: "'c life \<Rightarrow> 'c life \<Rightarrow> bool" where
  "step \<equiv> lifestep wstep astep away held workers destroy"

lemma lreach_run: "step\<^sup>*\<^sup>* l m \<Longrightarrow> lreach l \<Longrightarrow> lreach m"
  by (induction rule: rtranclp_induct) (auto intro: reach_step)

text \<open>Once the application is gone only workers take steps.\<close>

lemma gone_step:
  assumes "step l m" and "app_refs l = 0"
  obtains i where "wstep (obj l) (obj m)" and "i < workers (obj m)" and "app_refs m = 0"
    and "ended m = (if held (obj m) = 0 then Some (Worker i, destroy (Worker i) (obj m)) else None)"
  using assms by cases auto

lemma gone_run: "step\<^sup>*\<^sup>* l m \<Longrightarrow> app_refs l = 0 \<Longrightarrow> app_refs m = 0"
  by (induction rule: rtranclp_induct) (auto elim: gone_step)

text \<open>Dropping the last reference of the application while an operation holds one ends nothing.\<close>

lemma drop_keeps:
  assumes "step l l'" and "app_refs l > 0" and "app_refs l' = 0" and "held (obj l) > 0"
  shows "ended l' = None" and "obj l' = obj l"
  using assms by (cases; simp)+

text \<open>It is then the worker which ends the last such operation that destroys the object.\<close>

lemma last_operation:
  assumes "lreach l" and "ended l = None" and "app_refs l = 0" and "step\<^sup>*\<^sup>* l m"
    and "ended m = Some (me, r)"
  obtains u i where "step\<^sup>*\<^sup>* l u" and "app_refs u = 0" and "me = Worker i" and "i < workers (obj m)"
    and "wstep (obj u) (obj m)" and "held (obj u) = 1" and "held (obj m) = 0"
    and "away (obj u)" and "away (obj m)" and "r = throw (err (obj m))"
  using assms(4)
proof (cases rule: rtranclp.cases)
  case rtrancl_refl
  with assms(2,5) show thesis by simp
next
  case (rtrancl_into_rtrancl u)
  then have u: "app_refs u = 0" "life_ok u" and m: "life_ok m"
    using gone_run assms(1,3) lreach_run [of l u] lreach_run [of l m] lreach_ok assms(4) by blast+
  from rtrancl_into_rtrancl(2) have "ended u = None" by cases auto
  with u have hu: "held (obj u) > 0" "away (obj u)" by (auto simp: life_ok_def)
  from gone_step [OF rtrancl_into_rtrancl(2) u(1)] obtain i where i: "wstep (obj u) (obj m)"
    "i < workers (obj m)" "app_refs m = 0"
    "ended m = (if held (obj m) = 0 then Some (Worker i, destroy (Worker i) (obj m)) else None)"
    by blast
  with assms(5) have me: "me = Worker i" "held (obj m) = 0" by (auto split: if_splits)
  with held_wstep [OF i(1)] hu(1) have "held (obj u) = 1" by simp
  with that rtrancl_into_rtrancl(1) u(1) me i(1-3) hu(2) m assms(5) show thesis
    by (auto simp: life_ok_def)
qed

end

section \<open>The client\<close>















section \<open>The server\<close>

text \<open>\<open>Stop\<close> and \<open>~RpcServer\<close> on the thread \<open>me\<close>.\<close>

definition Stop_on :: "thread \<Rightarrow> 's server \<Rightarrow> ('s server \<times> effect list) res" where
  "Stop_on me v =
     bind_res (Stop v) (\<lambda>(v', es).
     bind_res (if JoinWorkers \<in> set es then join_workers me (num_worker v) else ret ()) (\<lambda>_.
     ret (v', es)))"

definition RpcServer_destroy :: "thread \<Rightarrow> 's server \<Rightarrow> effect list res" where
  "RpcServer_destroy me v = bind_res (Stop_on me v) (\<lambda>(v', es). ret es)"

text \<open>Every pending operation holds a reference. A stopped server runs no callback.\<close>

definition server_wstep :: "codec \<Rightarrow> 's io \<Rightarrow> 's io \<Rightarrow> bool" where
  "server_wstep c s t \<longleftrightarrow> iostep c s t \<and> \<not> stoped (io_srv s) \<and> io_failed t = None"

definition server_astep :: "'s io \<Rightarrow> 's io \<Rightarrow> bool" where
  "server_astep s t \<longleftrightarrow>
     (\<exists>proc h v. Register proc h (io_srv s) = ret v \<and> t = s\<lparr>io_srv := v\<rparr>) \<or>
     (\<exists>v es. Stop_on Application (io_srv s) = ret (v, es) \<and> t = s\<lparr>io_srv := v\<rparr>)"

definition server_destroy :: "thread \<Rightarrow> 's io \<Rightarrow> unit res" where
  "server_destroy me s = bind_res (RpcServer_destroy me (io_srv s)) (\<lambda>es. ret ())"

definition server_error :: "'s io \<Rightarrow> exn" where
  "server_error s = (if client_sockets (io_srv s) = [] then System_error else Undefined_behaviour)"

abbreviation server_lives :: "codec \<Rightarrow> 's io life \<Rightarrow> bool" where
  "server_lives c \<equiv> reach (life_init io_init)
     (lifestep (server_wstep c) server_astep (\<lambda>s. True) (\<lambda>s. size (io_ops s))
       (\<lambda>s. num_worker (io_srv s)) server_destroy)"

lemma section_stoped:
  "stoped (dispatch_known j v) = stoped v"
  "dispatch_check j v = (st, v') \<Longrightarrow> stoped v' = stoped v"
  "dispatch_execute j v = (r, v') \<Longrightarrow> stoped v' = stoped v"
  "dispatch_record c j rep v = ret v' \<Longrightarrow> stoped v' = stoped v"
  by (auto simp: dispatch_known_def dispatch_check_def dispatch_execute_def dispatch_record_def
      res_simps split: prod.splits sum.splits)

lemma dispatch_state_stoped: "dispatch_state c j st v = (r, v') \<Longrightarrow> stoped v' = stoped v"
  by (cases st)
     (auto simp: dispatch_state_def dispatch_new_def split: prod.splits sum.splits if_splits
       dest: section_stoped(2-4))

lemma Dispatch_stoped: "Dispatch c k buf v = (r, v') \<Longrightarrow> stoped v' = stoped v"
  by (auto simp: Dispatch_def section_stoped(1) split: sum.splits start.splits if_splits prod.splits
      dest!: dispatch_state_stoped section_stoped(2))

lemma iostep_stoped: "iostep c s t \<Longrightarrow> stoped (io_srv t) = stoped (io_srv s)"
  by (induction rule: iostep.induct)
     (auto simp: OnNewConnection_def OnReceiveFinished_def OnSendFinished_def OnRepeatSent_def
       release_def Register_def Let_def split: if_splits prod.splits dest: Dispatch_stoped)

lemma io_inv_no_ops: "io_inv s \<Longrightarrow> io_ops s = {#} \<Longrightarrow> alive (io_srv s) = []"
proof -
  assume "io_inv s" "io_ops s = {#}"
  then have "k \<notin> set (alive (io_srv s))" for k
    by (auto simp: io_inv_def pending_on_def split: if_splits)
  then show ?thesis by (metis list.set_intros(1) neq_Nil_conv)
qed

text \<open>Without a pending operation every connection is gone, but \<open>Stop\<close> closes them all.\<close>

lemma server_joins_itself:
  assumes "io_inv s" and "io_ops s = {#}" and "\<not> stoped (io_srv s)" and "i < num_worker (io_srv s)"
  shows "server_destroy (Worker i) s = throw (server_error s)"
  using io_inv_no_ops [OF assms(1,2)] assms(3,4)
  by (cases "client_sockets (io_srv s)")
     (simp_all add: server_destroy_def RpcServer_destroy_def Stop_on_def Stop_def server_error_def
       CloseAllClientSockets_def join_workers_def)

lemma Stop_on_conns: "Stop_on me v = ret (v', es) \<Longrightarrow> same_conns v v'"
  by (auto simp: Stop_on_def Stop_def res_simps same_conns_def split: if_splits)

lemma Register_conns: "Register proc h v = ret v' \<Longrightarrow> same_conns v v'"
  by (auto simp: Register_def same_conns_def split: if_splits)

lemma io_inv_same_conns: "same_conns (io_srv s) v \<Longrightarrow> io_inv s \<Longrightarrow> io_inv (s\<lparr>io_srv := v\<rparr>)"
  by (simp add: io_inv_def pending_on_def same_conns_def)

text \<open>A step completes at most one operation.\<close>

lemma io_ops_iostep: "iostep c s t \<Longrightarrow> size (io_ops s) \<le> Suc (size (io_ops t))"
  by (induction rule: iostep.induct) auto

interpretation shs: shared_object io_init "server_wstep c" server_astep "\<lambda>s. True"
  "\<lambda>s. size (io_ops s)" "\<lambda>s. num_worker (io_srv s)" server_destroy
  "\<lambda>s. io_failed s = None \<and> io_inv s" server_error for c
proof unfold_locales
  fix s :: "'a io"
  assume "io_init s"
  then show "io_failed s = None \<and> io_inv s"
    using iosys.inv_init [of s] by (simp add: io_init_def)
next
  fix s t :: "'a io"
  assume "io_failed s = None \<and> io_inv s" "server_wstep c s t"
  then show "io_failed t = None \<and> io_inv t"
    using io_inv_iostep by (auto simp: server_wstep_def)
next
  fix s t :: "'a io"
  assume "io_failed s = None \<and> io_inv s" "server_astep s t"
  then show "io_failed t = None \<and> io_inv t"
    by (auto simp: server_astep_def intro: io_inv_same_conns Register_conns Stop_on_conns)
next
  fix s t :: "'a io"
  assume "server_wstep c s t"
  then show "size (io_ops s) \<le> Suc (size (io_ops t))"
    using io_ops_iostep [of c s t] by (simp add: server_wstep_def)
next
  fix s t :: "'a io" and i
  assume "io_failed t = None \<and> io_inv t" "server_wstep c s t" "size (io_ops t) = 0"
    "i < num_worker (io_srv t)"
  then show "server_destroy (Worker i) t = throw (server_error t)"
    using iostep_stoped [of c s t] by (intro server_joins_itself) (auto simp: server_wstep_def)
qed

section \<open>Runs\<close>

text \<open>
  The application connects a client and lets it go; the peer closes the connection, and the
  worker that runs the callback of the receive destroys the client.
\<close>

definition demo_life :: "'c \<Rightarrow> nat \<Rightarrow> (thread \<times> unit res) option \<Rightarrow> 'c life" where
  "demo_life c n r = \<lparr>obj = c, app_refs = n, ended = r\<rparr>"

lemma demo_life_simps [simp]:
  "obj (demo_life c n r) = c" "app_refs (demo_life c n r) = n" "ended (demo_life c n r) = r"
  "(demo_life c n r)\<lparr>obj := d\<rparr> = demo_life d n r"
  "(demo_life c n r)\<lparr>app_refs := m\<rparr> = demo_life c m r"
  "let_go held destroy me (demo_life c n r) =
     demo_life c n (if n = 0 \<and> held c = 0 then Some (me, destroy me c) else None)"
  by (simp_all add: demo_life_def let_go_def)

lemma demo_drop:
  assumes "reach I (lifestep ws ast away held workers destroy) (demo_life c 1 None)"
    and "away c" and "held c > 0"
  shows "reach I (lifestep ws ast away held workers destroy) (demo_life c 0 None)"
  using reach_step [OF assms(1) lifestep.drops [where n = 0]] assms(2,3) by simp

lemma demo_work:
  assumes "reach I (lifestep ws ast away held workers destroy) (demo_life c n None)"
    and "ws c d" and "i < workers d"
  shows "reach I (lifestep ws ast away held workers destroy)
    (demo_life d n (if n = 0 \<and> held d = 0 then Some (Worker i, destroy (Worker i) d) else None))"
  using reach_step [OF assms(1) lifestep.works [of "demo_life c n None" ws d i workers]] assms(2,3)
  by simp


text \<open>The application starts a server and lets it go; the accept fails.\<close>

lemma demo_server_ends:
  obtains s :: "unit io" where
    "server_lives c (demo_life s 0 (Some (Worker 0, throw System_error)))"
proof -
  define s0 where "s0 = demo_io idle_server {#Accept#}"
  define s1 where "s1 = demo_io idle_server {#}"
  have "RpcServer_new 9 2 () = ret idle_server"
    by (simp add: RpcServer_new_def Register_def idle_server_def)
  then have "io_init s0"
    unfolding io_init_def s0_def by (auto simp: demo_io_def Start_def AcceptNewConnection_def)
  then have "server_lives c (demo_life s0 1 None)"
    by (intro reach_init) (simp add: life_init_def)
  then have r1: "server_lives c (demo_life s0 0 None)"
    by (rule demo_drop) (simp_all add: s0_def)
  have "iostep c s0 s1"
    using iostep.accepted [of s0 "{#}" 1 ACCEPT_FAILURE idle_server "[]" c]
    by (simp add: s0_def s1_def demo_io_def idle_server_def OnNewConnection_def)
  then have "server_wstep c s0 s1"
    by (simp add: server_wstep_def s0_def s1_def idle_server_def)
  from demo_work [OF r1 this, of 0]
  have "server_lives c (demo_life s1 0 (Some (Worker 0, server_destroy (Worker 0) s1)))"
    by (simp add: s1_def idle_server_def)
  moreover have "server_destroy (Worker 0) s1 = throw System_error"
    by (simp add: s1_def server_destroy_def RpcServer_destroy_def Stop_on_def Stop_def
        CloseAllClientSockets_def join_workers_def idle_server_def)
  ultimately show thesis using that by simp
qed

section \<open>Properties\<close>



text \<open>
  C32: who destroys a server. A server that waits for a connection or serves one is not destroyed,
  also when the application has let go of it: the references of its own operations keep it.
  When the last operation ends, its worker runs the destructor, and \<open>Stop\<close> never succeeds there:
  it closes a connection that is gone, or joins its own thread.
\<close>

theorem server_destroyed_by_worker:
  assumes "server_lives c l" and "ended l = Some (me, r)"
  shows "app_refs l = 0 \<and> io_ops (obj l) = {#} \<and> alive (io_srv (obj l)) = [] \<and>
    (me \<noteq> Application \<longrightarrow> r = throw
      (if client_sockets (io_srv (obj l)) = [] then System_error else Undefined_behaviour))"
  using shs.destroyed [OF assms] io_inv_no_ops [of "obj l"] by (simp add: server_error_def)

theorem server_destroyed_by_worker_witness:
  "\<exists>l :: unit io life. server_lives demo_codec l \<and> ended l = Some (Worker 0, throw System_error) \<and>
     io_ops (obj l) = {#}"
proof -
  obtain s :: "unit io" where
    s: "server_lives demo_codec (demo_life s 0 (Some (Worker 0, throw System_error)))"
    by (rule demo_server_ends)
  from server_destroyed_by_worker [OF s, of "Worker 0"] s show ?thesis
    by (intro exI [of _ "demo_life s 0 (Some (Worker 0, throw System_error))"]) simp
qed

end
