(* ===== verification/Locks.thy ===== *)
theory Locks
  imports Rpc_Types
begin

text \<open>
  The mutexes of client and server (\<open>rpc_client.h\<close>, \<open>rpc_client.cpp\<close>, \<open>rpc_server.h\<close>,
  \<open>rpc_server.cpp\<close>): each operation as the sequence of locks it takes and releases on each of its
  paths, callbacks included, and the proof that threads which run these operations never block
  each other for ever. A callback may be code of the user, which calls the library and takes
  mutexes of its own; these are taken in a fixed order.
\<close>

section \<open>Threads and mutexes\<close>

datatype 'l act = Acq 'l | Rel 'l

text \<open>A thread is the locks it holds, the last one first, and what it has still to do.\<close>

type_synonym 'l running = "'l list \<times> 'l act list"

inductive lstep :: "'l running list \<Rightarrow> 'l running list \<Rightarrow> bool" where
  acquire: "i < length s \<Longrightarrow> s ! i = (h, Acq l # r) \<Longrightarrow> \<forall>(h', r') \<in> set s. l \<notin> set h' \<Longrightarrow>
     lstep s (s[i := (l # h, r)])"
| release: "i < length s \<Longrightarrow> s ! i = (h, Rel l # r) \<Longrightarrow> lstep s (s[i := (remove1 l h, r)])"

definition lock_start :: "'l act list list \<Rightarrow> 'l running list" where
  "lock_start ts = map (\<lambda>a. ([], a)) ts"

definition all_done :: "'l running list \<Rightarrow> bool" where
  "all_done s \<longleftrightarrow> (\<forall>(h, r) \<in> set s. r = [])"

definition locked :: "'l \<Rightarrow> 'l act list \<Rightarrow> 'l act list" where
  "locked l a = Acq l # a @ [Rel l]"

text \<open>Scoped locks taken in an order.\<close>

fun ordered :: "('l \<Rightarrow> 'l \<Rightarrow> bool) \<Rightarrow> 'l list \<Rightarrow> 'l act list \<Rightarrow> bool" where
  "ordered before h [] \<longleftrightarrow> h = []"
| "ordered before h (Acq l # r) \<longleftrightarrow> (\<forall>k \<in> set h. before k l) \<and> ordered before (l # h) r"
| "ordered before h (Rel l # r) \<longleftrightarrow>
     (case h of [] \<Rightarrow> False | k # h' \<Rightarrow> k = l \<and> ordered before h' r)"

definition to_do :: "'l running list \<Rightarrow> nat" where
  "to_do s = sum_list (map (\<lambda>(h, r). length r) s)"

lemma to_do_update:
  assumes "i < length s" and "s ! i = (h, a # r)"
  shows "to_do (s[i := (h', r)]) < to_do s"
proof -
  let ?f = "\<lambda>(h, r). length r"
  have s: "s = take i s @ (h, a # r) # drop (Suc i) s"
    using assms id_take_nth_drop by metis
  have "s[i := (h', r)] = take i s @ (h', r) # drop (Suc i) s"
    using assms(1) by (simp add: upd_conv_take_nth_drop)
  then show ?thesis
    by (subst (2) s) (simp add: to_do_def)
qed

lemma to_do_lstep: "lstep s t \<Longrightarrow> to_do t < to_do s"
  by (induction rule: lstep.induct) (auto intro: to_do_update)

text \<open>In a state without a step every thread that is not done waits for a lock that is held.\<close>

lemma stuck_acquires:
  assumes "\<nexists>t. lstep s t" and "(h, a # r) \<in> set s"
  shows "\<exists>l. a = Acq l \<and> (\<exists>(h', r') \<in> set s. l \<in> set h')"
proof -
  obtain i where i: "i < length s" "s ! i = (h, a # r)" using assms(2) by (auto simp: in_set_conv_nth)
  show ?thesis
  proof (cases a)
    case (Acq l)
    have "\<not> (\<forall>(h', r') \<in> set s. l \<notin> set h')"
      using assms(1) lstep.acquire [OF i(1) i(2) [unfolded Acq]] by metis
    with Acq show ?thesis by auto
  next
    case (Rel l)
    with assms(1) lstep.release [OF i(1) i(2) [unfolded Rel]] show ?thesis by metis
  qed
qed

section \<open>Locks in an order\<close>

locale lock_order =
  fixes before :: "'l \<Rightarrow> 'l \<Rightarrow> bool"
  assumes before_irrefl: "\<not> before l l"
    and before_trans: "before k l \<Longrightarrow> before l m \<Longrightarrow> before k m"
begin

definition in_order :: "'l running list \<Rightarrow> bool" where
  "in_order s \<longleftrightarrow> (\<forall>(h, r) \<in> set s. ordered before h r)"

lemma in_order_update:
  "in_order s \<Longrightarrow> ordered before h r \<Longrightarrow> in_order (s[i := (h, r)])"
  by (auto simp: in_order_def dest!: set_update_subset_insert [THEN subsetD])

lemma in_order_nth: "in_order s \<Longrightarrow> i < length s \<Longrightarrow> s ! i = (h, r) \<Longrightarrow> ordered before h r"
  unfolding in_order_def by (metis (mono_tags, lifting) case_prodD nth_mem)

lemma in_order_lstep: "lstep s t \<Longrightarrow> in_order s \<Longrightarrow> in_order t"
proof (induction rule: lstep.induct)
  case (acquire i s h l r)
  from in_order_nth [OF acquire.prems acquire(1,2)] acquire.prems show ?case
    by (intro in_order_update) simp_all
next
  case (release i s h l r)
  from in_order_nth [OF release.prems release(1,2)] release.prems show ?case
    by (intro in_order_update) (auto split: list.splits)
qed

definition awaited :: "'l running list \<Rightarrow> 'l set" where
  "awaited s = {l. \<exists>h r. (h, Acq l # r) \<in> set s}"

lemma finite_awaited: "finite (awaited s)"
proof -
  have "awaited s \<subseteq> (\<lambda>(h, r). case hd r of Acq l \<Rightarrow> l | Rel l \<Rightarrow> l) ` set s"
    by (force simp: awaited_def image_iff)
  then show ?thesis by (rule finite_subset) simp
qed

text \<open>A stuck thread waits for a lock whose holder waits for a later lock.\<close>

lemma stuck_waits:
  assumes "in_order s" and "\<nexists>t. lstep s t" and "l \<in> awaited s"
  shows "\<exists>m \<in> awaited s. before l m"
proof -
  obtain h r where "(h, Acq l # r) \<in> set s" using assms(3) by (auto simp: awaited_def)
  from stuck_acquires [OF assms(2) this] obtain h' r' where h': "(h', r') \<in> set s" "l \<in> set h'"
    by auto
  then have o: "ordered before h' r'" using assms(1) by (auto simp: in_order_def)
  show ?thesis
  proof (cases r')
    case Nil
    with o h'(2) show ?thesis by simp
  next
    case (Cons a r'')
    from stuck_acquires [OF assms(2) h'(1) [unfolded Cons]] obtain m where "a = Acq m" by auto
    with o h' Cons have "m \<in> awaited s" "before l m" by (auto simp: awaited_def)
    then show ?thesis by (rule bexI [rotated])
  qed
qed

lemma progress:
  assumes "in_order s" and "\<not> all_done s"
  shows "\<exists>t. lstep s t"
proof (rule ccontr)
  assume stuck: "\<nexists>t. lstep s t"
  from assms(2) obtain h r where r: "(h, r) \<in> set s" "r \<noteq> []" by (auto simp: all_done_def)
  then obtain a r' where "(h, a # r') \<in> set s" by (cases r) auto
  with stuck_acquires [OF stuck this] have "awaited s \<noteq> {}" by (auto simp: awaited_def)
  moreover have "asymp_on (awaited s) before" "transp_on (awaited s) before"
    using before_irrefl before_trans by (metis asymp_onI, metis transp_onI)
  ultimately obtain m where m: "m \<in> awaited s" "\<forall>x \<in> awaited s. x \<noteq> m \<longrightarrow> \<not> before m x"
    using Finite_Set.bex_max_element [OF finite_awaited, of s before] by metis
  from stuck_waits [OF assms(1) stuck m(1)] obtain k where "k \<in> awaited s" "before m k" by auto
  with m(2) before_irrefl show False by metis
qed

lemma finishes: "in_order s \<Longrightarrow> \<exists>t. lstep\<^sup>*\<^sup>* s t \<and> all_done t"
proof (induction "to_do s" arbitrary: s rule: less_induct)
  case less
  show ?case
  proof (cases "all_done s")
    case False
    with progress [OF less.prems] obtain u where u: "lstep s u" by blast
    from less.hyps [OF to_do_lstep [OF u] in_order_lstep [OF u less.prems]]
    show ?thesis using u by (blast intro: converse_rtranclp_into_rtranclp)
  qed blast
qed

lemma in_order_run: "lstep\<^sup>*\<^sup>* s t \<Longrightarrow> in_order s \<Longrightarrow> in_order t"
  by (induction rule: rtranclp_induct) (auto intro: in_order_lstep)

lemma in_order_start: "\<forall>a \<in> set ts. ordered before [] a \<Longrightarrow> in_order (lock_start ts)"
  by (auto simp: in_order_def lock_start_def)

text \<open>A sequence that leaves the locks as they were, above those that are held.\<close>

definition fits :: "'l list \<Rightarrow> 'l act list \<Rightarrow> bool" where
  "fits h a \<longleftrightarrow> (\<forall>r. ordered before h r \<longrightarrow> ordered before h (a @ r))"

lemma fits_Nil [simp]: "fits h []"
  by (simp add: fits_def)

lemma fits_append: "fits h a \<Longrightarrow> fits h b \<Longrightarrow> fits h (a @ b)"
  by (simp add: fits_def)

lemma fits_locked: "\<forall>k \<in> set h. before k l \<Longrightarrow> fits (l # h) a \<Longrightarrow> fits h (locked l a)"
  by (simp add: fits_def locked_def)

lemma fits_ordered: "fits [] a \<Longrightarrow> ordered before [] a"
  by (metis append_Nil2 fits_def ordered.simps(1))

end

section \<open>The mutexes of the library\<close>

datatype mutex =
    Callers_mu            \<comment> \<open>\<open>RpcClient::callers_mu_\<close>\<close>
  | Xid_window_mu         \<comment> \<open>\<open>RpcClient::rep_window_mu_\<close>\<close>
  | Connected_mu          \<comment> \<open>\<open>RpcClient::connected_mu_\<close>\<close>
  | Caller_mu nat         \<comment> \<open>\<open>Caller::mu_\<close>\<close>
  | Procs_mu              \<comment> \<open>\<open>RpcServer::procs_mu_\<close>\<close>
  | Reply_window_mu       \<comment> \<open>\<open>RpcServer::rep_window_mu_\<close>\<close>
  | Clnt_socket_mu        \<comment> \<open>\<open>RpcServer::clnt_socket_mu_\<close>\<close>
  | User_mu nat           \<comment> \<open>a mutex of the user, by its place in the user's order\<close>

type_synonym path = "mutex act list"

section \<open>The client\<close>

text \<open>\<open>Call\<close>: the table, and unless the call is refused the window of received replies.\<close>

definition Call_locks :: "bool \<Rightarrow> path" where
  "Call_locks refused =
     locked Callers_mu [] @ (if refused then [] else locked Xid_window_mu [])"

definition HasBinded_locks :: path where
  "HasBinded_locks = locked Callers_mu []"

text \<open>\<open>WaitUntilConnected\<close>: the wait gives the mutex back and takes it again at each wake-up.\<close>

definition WaitUntilConnected_locks :: "nat \<Rightarrow> path" where
  "WaitUntilConnected_locks wakeups =
     concat (replicate (Suc wakeups) (locked Connected_mu []))"

text \<open>The callback of \<open>Bind\<close>: on an error it calls \<open>Bind\<close> again.\<close>

definition Bind_callback_locks :: "Err \<Rightarrow> bool \<Rightarrow> path" where
  "Bind_callback_locks e refused = (if e \<noteq> OK then Call_locks refused else locked Callers_mu [])"

definition UpdateXidRep_locks :: path where
  "UpdateXidRep_locks = locked Xid_window_mu []"

text \<open>
  \<open>found\<close>: the reply is for the caller \<open>p\<close>; \<open>open\<close>: it is not done yet; \<open>cb\<close>: the path of its
  callback. \<open>GotPdu\<close> and \<open>OnSendFinished\<close> run the callback without a lock.
\<close>

definition GotPdu_locks :: "bool \<Rightarrow> nat \<Rightarrow> bool \<Rightarrow> path \<Rightarrow> path" where
  "GotPdu_locks found p is_open cb =
     UpdateXidRep_locks @ locked Callers_mu [] @
     (if found then locked (Caller_mu p) [] @ (if is_open then cb else []) else [])"

definition OnReceiveFinished_locks :: "Err \<Rightarrow> bool \<Rightarrow> nat \<Rightarrow> bool \<Rightarrow> path \<Rightarrow> path" where
  "OnReceiveFinished_locks e found p is_open cb =
     (if e \<noteq> OK then [] else GotPdu_locks found p is_open cb)"

text \<open>\<open>OnTimerExpired\<close> holds the mutex of the caller while the callback runs.\<close>

definition OnTimerExpired_locks :: "nat \<Rightarrow> bool \<Rightarrow> nonce_t \<Rightarrow> path \<Rightarrow> path" where
  "OnTimerExpired_locks p is_open nonce cb =
     (if is_open \<and> nonce = 0 then locked (Caller_mu p) cb else locked (Caller_mu p) [])"

definition OnSendFinished_locks :: "Err \<Rightarrow> bool \<Rightarrow> nat \<Rightarrow> nonce_t \<Rightarrow> path \<Rightarrow> path" where
  "OnSendFinished_locks e found p nonce cb =
     (if e \<noteq> OK then
        locked Callers_mu [] @
        (if \<not> found \<or> nonce > 0 then [] else locked (Caller_mu p) [] @ cb)
      else [])"

definition OnConnected_locks :: path where
  "OnConnected_locks = locked Connected_mu []"

section \<open>The server\<close>

definition Register_locks :: path where
  "Register_locks = locked Procs_mu []"

definition CheckDuplicateAndUpdate_locks :: path where
  "CheckDuplicateAndUpdate_locks = locked Reply_window_mu []"

definition AddReply_locks :: path where
  "AddReply_locks = locked Reply_window_mu []"

text \<open>
  \<open>Dispatch\<close> of a request that is not for an old instance; \<open>is_new\<close>: the request is new to the
  window, \<open>f\<close>: the path of the handler, which runs without a lock of the server.
\<close>

definition Dispatch_locks :: "bool \<Rightarrow> nonce_t \<Rightarrow> bool \<Rightarrow> path \<Rightarrow> path" where
  "Dispatch_locks old nonce is_new f =
     (if old then []
      else locked Procs_mu [] @
        (if nonce > 0
         then locked Reply_window_mu [] @ CheckDuplicateAndUpdate_locks @
           (if is_new then f @ AddReply_locks else [])
         else f))"

definition OnNewConnection_locks :: "Err \<Rightarrow> path" where
  "OnNewConnection_locks e = (if e \<noteq> OK then [] else locked Clnt_socket_mu [])"

definition CloseAllClientSockets_locks :: path where
  "CloseAllClientSockets_locks = locked Clnt_socket_mu []"

section \<open>What threads run\<close>

text \<open>
  Code of the user: the operations that an application may call, and mutexes of its own from \<open>u\<close>
  on, each held over calls of the library and later mutexes.
\<close>

inductive user :: "nat \<Rightarrow> path \<Rightarrow> bool" where
  nothing: "user u []"
| call: "user u (Call_locks refused)"
| has_binded: "user u HasBinded_locks"
| wait_connected: "user u (WaitUntilConnected_locks n)"
| register: "user u Register_locks"
| one_after_another: "user u a \<Longrightarrow> user u b \<Longrightarrow> user u (a @ b)"
| own_mutex: "u \<le> v \<Longrightarrow> user (Suc v) a \<Longrightarrow> user u (locked (User_mu v) a)"

inductive callback_path :: "path \<Rightarrow> bool" where
  of_user: "user 0 a \<Longrightarrow> callback_path a"
| of_bind: "callback_path (Bind_callback_locks e refused)"

text \<open>A worker runs completions, one after another; an application thread runs code of the user.\<close>

inductive completion :: "path \<Rightarrow> bool" where
  received: "callback_path cb \<Longrightarrow> completion (OnReceiveFinished_locks e found p is_open cb)"
| expired: "callback_path cb \<Longrightarrow> completion (OnTimerExpired_locks p is_open nonce cb)"
| client_sent: "callback_path cb \<Longrightarrow> completion (OnSendFinished_locks e found p nonce cb)"
| connected: "completion OnConnected_locks"
| dispatched: "user 0 f \<Longrightarrow> completion (Dispatch_locks old nonce is_new f)"
| accepted: "completion (OnNewConnection_locks e)"

inductive thread_path :: "path \<Rightarrow> bool" where
  application: "user 0 a \<Longrightarrow> thread_path a"
| stopping: "user 0 a \<Longrightarrow> thread_path (a @ CloseAllClientSockets_locks)"
| idle: "thread_path []"
| worker: "completion a \<Longrightarrow> thread_path b \<Longrightarrow> thread_path (a @ b)"

section \<open>The order of the mutexes\<close>

text \<open>A caller first, then the mutexes of the user in their order, then one of the library.\<close>

fun level :: "mutex \<Rightarrow> nat \<times> nat" where
  "level (Caller_mu p) = (0, 0)"
| "level (User_mu u) = (1, u)"
| "level _ = (2, 0)"

definition sooner :: "mutex \<Rightarrow> mutex \<Rightarrow> bool" where
  "sooner k l \<longleftrightarrow>
     fst (level k) < fst (level l) \<or>
     fst (level k) = fst (level l) \<and> snd (level k) < snd (level l)"

interpretation lib: lock_order sooner
  by unfold_locales (auto simp: sooner_def)

lemmas lock_defs = Call_locks_def HasBinded_locks_def WaitUntilConnected_locks_def
  Bind_callback_locks_def UpdateXidRep_locks_def GotPdu_locks_def OnReceiveFinished_locks_def
  OnTimerExpired_locks_def OnSendFinished_locks_def OnConnected_locks_def Register_locks_def
  CheckDuplicateAndUpdate_locks_def AddReply_locks_def Dispatch_locks_def OnNewConnection_locks_def
  CloseAllClientSockets_locks_def

text \<open>What may be held while code of the user runs: a caller and mutexes of the user.\<close>

definition below_user :: "nat \<Rightarrow> mutex list \<Rightarrow> bool" where
  "below_user u h \<longleftrightarrow> (\<forall>k \<in> set h. fst (level k) = 0 \<or> fst (level k) = 1 \<and> snd (level k) < u)"

lemma below_user_simps [simp]:
  "below_user u []" "below_user u [Caller_mu p]"
  "below_user u h \<Longrightarrow> u \<le> v \<Longrightarrow> below_user (Suc v) (User_mu v # h)"
  by (auto simp: below_user_def)

text \<open>A mutex of the library is taken last, whatever the user holds.\<close>

definition no_library :: "mutex list \<Rightarrow> bool" where
  "no_library h \<longleftrightarrow> (\<forall>k \<in> set h. fst (level k) < 2)"

lemma below_user_no_library: "below_user u h \<Longrightarrow> no_library h"
  by (auto simp: below_user_def no_library_def)

lemma no_library_Nil [simp]: "no_library []"
  by (simp add: no_library_def)

lemma fits_library [simp]:
  "no_library h \<Longrightarrow> fst (level l) = 2 \<Longrightarrow> lib.fits h (locked l [])"
  by (rule lib.fits_locked) (auto simp: no_library_def sooner_def)

lemma fits_replicate: "lib.fits h a \<Longrightarrow> lib.fits h (concat (replicate n a))"
  by (induction n) (auto intro: lib.fits_append)

lemma user_fits: "user u a \<Longrightarrow> below_user u h \<Longrightarrow> lib.fits h a"
proof (induction arbitrary: h rule: user.induct)
  case (own_mutex u v a)
  then have "lib.fits (User_mu v # h) a" by simp
  then show ?case
    by (rule lib.fits_locked [rotated])
       (use own_mutex in \<open>auto simp: below_user_def sooner_def\<close>)
qed (auto simp: lock_defs dest: below_user_no_library intro!: lib.fits_append fits_replicate)

lemma callback_fits: "callback_path cb \<Longrightarrow> below_user 0 h \<Longrightarrow> lib.fits h cb"
  by (induction rule: callback_path.induct)
     (auto simp: lock_defs user_fits dest: below_user_no_library intro!: lib.fits_append)

lemma fits_caller: "lib.fits [Caller_mu p] a \<Longrightarrow> lib.fits [] (locked (Caller_mu p) a)"
  by (rule lib.fits_locked) simp_all

lemma completion_fits: "completion a \<Longrightarrow> lib.fits [] a"
  by (induction rule: completion.induct)
     (auto simp: lock_defs callback_fits user_fits intro!: lib.fits_append fits_caller)

lemma thread_fits: "thread_path a \<Longrightarrow> lib.fits [] a"
  by (induction rule: thread_path.induct)
     (auto simp: CloseAllClientSockets_locks_def completion_fits user_fits intro!: lib.fits_append)

section \<open>Properties\<close>

text \<open>
  C11: no deadlock over the mutexes. Any number of application threads and workers of clients and
  servers, whose callbacks and handlers call the library again and take mutexes of their own in a
  fixed order, can always all run to their end, from every state they reach: no interleaving
  leaves a thread waiting for a mutex for ever.
\<close>

theorem threads_finish:
  assumes "\<forall>a \<in> set ts. thread_path a" and "lstep\<^sup>*\<^sup>* (lock_start ts) s"
  shows "\<exists>t. lstep\<^sup>*\<^sup>* s t \<and> all_done t"
proof (rule lib.finishes [OF lib.in_order_run [OF assms(2)]])
  show "lib.in_order (lock_start ts)"
    using assms(1) thread_fits lib.fits_ordered by (intro lib.in_order_start) blast
qed

text \<open>
  A timer runs the callback of a bind and holds its caller, a reply for the same caller waits
  for it, and the application makes a call with a mutex of its own held.
\<close>

theorem threads_finish_witness:
  "\<exists>t. lstep\<^sup>*\<^sup>* (lock_start [OnTimerExpired_locks 0 True 0 (Bind_callback_locks TIMEOUT_FAILURE False),
       OnReceiveFinished_locks OK True 0 False [], locked (User_mu 0) (Call_locks False)]) t \<and>
     all_done t"
proof (rule threads_finish [OF _ rtranclp.rtrancl_refl])
  have "completion (OnTimerExpired_locks 0 True 0 (Bind_callback_locks TIMEOUT_FAILURE False))"
    "completion (OnReceiveFinished_locks OK True 0 False [])"
    by (intro completion.intros callback_path.intros user.intros)+
  moreover have "user 0 (locked (User_mu 0) (Call_locks False))"
    by (intro user.intros) simp
  ultimately show "\<forall>a \<in> set [OnTimerExpired_locks 0 True 0 (Bind_callback_locks TIMEOUT_FAILURE False),
      OnReceiveFinished_locks OK True 0 False [], locked (User_mu 0) (Call_locks False)]. thread_path a"
    using thread_path.worker [OF _ thread_path.idle] thread_path.application by auto
qed

end
