(* ===== verification/Console.thy ===== *)
theory Console
  imports Json_Text
begin

text \<open>
  What the library writes to streams: \<open>Marshall::Print\<close> and \<open>Unmarshall::Print\<close>
  (\<open>rpc/marshall.h\<close>) with the items of a JSON value, and the stream operator of \<open>ReplyHeader\<close>
  (\<open>rpc/rpc.h\<close>). A string that is not UTF-8 ends the loop with the exception of the serializer;
  what reached the stream before it is left out.
\<close>

section \<open>Items\<close>

text \<open>
  \<open>items()\<close>: the entries of an object with their keys, those of an array with their index, and
  any other value itself with an empty key; null has no items.
\<close>

definition array_items :: "json list \<Rightarrow> (string \<times> json) list" where
  "array_items js = zip (map (\<lambda>i. to_string (int i)) [0..<length js]) js"

fun json_items :: "json \<Rightarrow> (string \<times> json) list" where
  "json_items JNull = []"
| "json_items (JArr js) = array_items js"
| "json_items (JObj kvs) = kvs"
| "json_items j = [([], j)]"

section \<open>Printing\<close>

definition separator :: string where
  "separator = '' : ''"

definition newline :: char where
  "newline = CHR 0x0A"

fun print_items :: "(64 word \<Rightarrow> string) \<Rightarrow> (string \<times> json) list \<Rightarrow> string res" where
  "print_items fl [] = ret []"
| "print_items fl ((k, v) # kvs) =
     bind_res (dump_value fl v) (\<lambda>t.
     bind_res (print_items fl kvs) (\<lambda>out. ret (k @ separator @ t @ newline # out)))"

definition Marshall_Print :: "(64 word \<Rightarrow> string) \<Rightarrow> marshall \<Rightarrow> string res" where
  "Marshall_Print fl m = print_items fl (json_items (m_json m))"

definition Unmarshall_Print :: "(64 word \<Rightarrow> string) \<Rightarrow> unmarshall \<Rightarrow> string res" where
  "Unmarshall_Print fl u = print_items fl (json_items (un_json u))"

definition print_ReplyHeader :: "ReplyHeader \<Rightarrow> string" where
  "print_ReplyHeader r =
     ''xid : '' @ to_string (uint (rep_xid r)) @ '', err: '' @ ToString (rep_err r)"

section \<open>What is printed\<close>

lemma print_items_plain:
  "list_all (\<lambda>(k, v). plain v) kvs \<Longrightarrow>
     print_items fl kvs = ret (concat (map (\<lambda>(k, v). k @ separator @ text_of fl v @ [newline]) kvs))"
  by (induction kvs) (auto simp: plain_text [THEN conjunct1])

lemma json_items_plain: "plain j \<Longrightarrow> list_all (\<lambda>(k, v). plain v) (json_items j)"
  by (cases j) (auto simp: array_items_def list_all_iff dest: set_zip_rightD)

text \<open>A packet that was built with the stream operators is printed without an exception.\<close>

lemma Marshall_Print_built:
  assumes "wf_marshall m"
  obtains out where "Marshall_Print fl m = ret out"
  using assms print_items_plain [OF json_items_plain, of "m_json m"]
  by (simp add: Marshall_Print_def wf_marshall_def)

text \<open>A string that is not UTF-8 ends the loop, whatever is printed after it.\<close>

lemma print_stops:
  assumes "dump_value fl v = throw x" and "list_all (\<lambda>(k, v). plain v) kvs"
  shows "print_items fl (kvs @ (k, v) # kvs') = throw x"
  using assms(2) by (induction kvs) (auto simp: assms(1) plain_text [THEN conjunct1])

end
