(* ===== verification/Spec2Isabelle.thy ===== *)
theory Spec2Isabelle
  imports Rpc_Spec Framing Sockets Fibers Scope_Guard Serializer Client_Timers Lifetimes Locks Console
begin

text \<open>
  A model of the asynchronous RPC library in \<open>src/\<close> (C++20 over Boost.Asio, Boost.Fiber and
  nlohmann/json) and the theorems that make it correct.

  \<^bold>\<open>The program.\<close> A client (\<open>rpc/rpc_client.h\<close>, \<open>rpc/rpc_client.cpp\<close>) numbers its calls,
  writes each as a JSON packet onto one TCP connection, keeps a \<open>Caller\<close> object with callback and
  timer for each, and resends the packet at the timeout when it was built with retransmission. A
  server (\<open>rpc/rpc_server.h\<close>, \<open>rpc/rpc_server.cpp\<close>) reads packets, looks up the procedure, runs it
  and replies; for a client with a nonce it remembers the replies that the client has not yet
  acknowledged, so that a repeated packet is answered without running the procedure again. Both
  run their callbacks on several worker threads and guard their tables by mutexes, section by
  section. \<open>rpc/marshall.h\<close> turns values into packets, \<open>rpc/socket.h\<close> adapts Asio,
  \<open>common/fiber_thread_manager.h\<close>, \<open>common/fiber_thread_pool.h\<close> and \<open>common/marco.h\<close> hold a
  fiber pool and a scope guard.

  \<^bold>\<open>Theories and code.\<close> The theories follow the code from its data to the whole system.

  \<^item> \<open>Prelude\<close>: the exceptions of the code, results, decimal text, sorted insertion, and the
    locale \<open>invariant_system\<close> for step relations.
  \<^item> \<open>Rpc_Types\<close> (\<open>rpc/rpc.h\<close>): transaction numbers (64 bits), nonces (32 bits), error codes,
    headers.
  \<^item> \<open>Utf8\<close> (\<open>lexer.hpp\<close>): byte ranges of UTF-8, the encoding of code points, and the proof that the
    strings accepted byte by byte are the encodings of Unicode scalar values.
  \<^item> \<open>Json\<close> (\<open>nlohmann/json.hpp\<close> and its conversions, the conversions of the headers in
    \<open>rpc/rpc.h\<close>): the value tree, access by key, conversion of integers, strings, enumerations.
  \<^item> \<open>Marshall\<close> (\<open>rpc/marshall.h\<close>, \<open>rpc/marshall.cpp\<close>): packets with their counters. The JSON
    text enters through the interface \<open>wire\<close>.
  \<^item> \<open>Json_Text\<close> (\<open>serializer.hpp\<close>, \<open>lexer.hpp\<close>, \<open>parser.hpp\<close>): writing and reading text. It
    interprets \<open>wire\<close>. \<open>Serializer\<close> and \<open>Dump_Integer\<close>: the two leaf routines of the serializer as
    they are written, the automaton with its table and the buffers included, shown equal to the
    definitions of \<open>Json_Text\<close>.
  \<^item> \<open>Reply_Window\<close> (\<open>EnsureWindow\<close>, \<open>CheckDuplicateAndUpdate\<close>, \<open>AddReply\<close> of
    \<open>rpc_server.cpp\<close>): sorted lists of remembered replies, their abstraction to one status per
    transaction, and the interface \<open>reply_store\<close> they interpret.
  \<^item> \<open>Scope_Guard\<close> (\<open>common/marco.h\<close>): the guard, and \<open>CheckDuplicateAndUpdate\<close> as it is
    written, with guard and iterator, shown equal to the version of \<open>Reply_Window\<close>.
  \<^item> \<open>Rpc_Server\<close>: the server state, each callback as a function from it to the new state and the
    operations it starts, \<open>Dispatch\<close> cut at its locks. \<open>Server_Steps\<close>: worker threads interleave
    at these cuts. \<open>Connections\<close>: the operations that are pending on acceptor and connections.
  \<^item> \<open>Xid_Window\<close> (\<open>UpdateXidRep\<close>): the client's window of received replies.
  \<^item> \<open>Rpc_Client\<close>: the client state with an explicit heap of \<open>Caller\<close> objects; a use of a
    destroyed one is the exception \<open>Undefined_behaviour\<close>. \<open>Client_Steps\<close>: application threads,
    workers, timers and completions interleave; that a callback has run is read off the
    operations a section has started. \<open>Client_Timers\<close>: the timer of a call runs once.
  \<^item> \<open>Framing\<close>: packets on a byte stream that is cut anywhere (\<open>ReadIncomingPacket\<close>,
    \<open>ListenFromServer\<close> and the two \<open>OnReceiveFinished\<close>).
  \<^item> \<open>End_To_End\<close>: one exchange from \<open>Call\<close> to the callback, over the text of the packets.
    \<open>Client_Packets\<close> and \<open>Network\<close>: any number of clients, the server and a network that
    loses, repeats, delays and reorders packets. \<open>Rpc_Spec\<close>: the abstract RPC machine, and the
    refinement: a locale \<open>refinement_mapping\<close> of \<open>Prelude\<close> interpreted on the system.
  \<^item> \<open>Lifetimes\<close>: the references to client and server, and the thread that destroys them.
    \<open>Locks\<close>: the mutexes that each operation takes, and their order.
  \<^item> \<open>Console\<close>: what \<open>Print\<close> and the stream operator of \<open>ReplyHeader\<close> write.
  \<^item> \<open>Sockets\<close> (\<open>rpc/socket.h\<close>) and \<open>Fibers\<close> (\<open>common/fiber_*.h\<close>).

  \<^bold>\<open>What is shown.\<close> At most one execution per transaction of a client with a nonce, under every
  interleaving of the workers and every sequence of packets (\<open>Server_Steps\<close>), and in the whole
  system exactly one for a call whose callback reports no error (\<open>Network\<close>), where all that a
  client sees is a run of a machine of calls, executions, answers and returns (\<open>Rpc_Spec\<close>); the
  callback of a call runs once, and when it may run twice (\<open>Client_Steps\<close>); the windows implement
  their abstract ledgers (\<open>Reply_Window\<close>, \<open>Xid_Window\<close>); packets read back what was written, down
  to the text (\<open>Marshall\<close>, \<open>Json_Text\<close>), for all UTF-8 strings and all 64-bit numbers; what is
  read from a stream is a whole packet or an exception, never another packet (\<open>Framing\<close>); a live
  connection of the server has exactly one pending operation (\<open>Connections\<close>); the mutexes are
  taken in an order, so that no thread blocks for ever (\<open>Locks\<close>); the pool starts all
  its workers, runs each task once and shuts down without losing a wake-up, spurious wake-ups or
  not (\<open>Fibers\<close>). The code
  also has defects, shown by concrete runs: uses of destroyed objects, exceptions that leave a
  worker, a callback that runs twice, packets that are not framed, a server that stops accepting,
  calls that are never told of a loss, a destructor that the worker of the last
  callback runs and that joins its own thread (\<open>Lifetimes\<close>).

  \<^bold>\<open>Conventions.\<close> Integers keep their width. Every exception, assertion and use of a dangling
  pointer is a value of \<open>exn\<close>. No definition needs fuel: every loop of the code that is modelled
  ends, with a measure where the recursion is not structural. Unbounded running is a step
  relation. What the code takes from outside is an argument: the random numbers, the resolver and
  completions of Asio, the decimal text of doubles (\<open>fl\<close>, \<open>strtod\<close>). Barrier, mutex, condition
  variable and scheduler of Boost.Fiber stand in the guards of the steps as documented; that a
  thread which joins itself gets \<open>std::system_error\<close>, and that a shared object ends with its last
  reference, are those of the standard library (\<open>Lifetimes\<close>).

  \<^bold>\<open>Not modelled.\<close> \<open>main.cpp\<close>, the tests and googletest; the messages that the program
  writes to its standard streams; \<open>SetRandSeed\<close>; the parts of nlohmann/json the program
  does not use, its error messages and positions; data races on fields that are read without
  their lock; tasks that are submitted from a thread other than the owner of the pool.
\<close>

end
